(* ===== verification/Prelude.thy ===== *)
theory Prelude
  imports Main "HOL-Library.Char_ord" "HOL-Library.List_Lexorder" "HOL-Library.Sublist"
begin

text \<open>
  Shared vocabulary of the development.

  \<^item> \<open>('s, 'e, 'a) cmd\<close> is the type of a fallible, state-changing step: it maps a state to
    a result (\<open>Inl\<close> an error, \<open>Inr\<close> a value) and the state afterwards.  An error does not
    roll the state back, as neither a Go early return nor an aborted Lua script does.
    \<open>retE\<close>, \<open>failE\<close>, \<open>readE\<close>, \<open>execE\<close> and \<open>bindE\<close> build such
    steps; \<open>bindE\<close> stops at the first error.
  \<^item> \<open>bytes\<close> are Go strings and byte slices, that is, lists of 8-bit characters; the order
    \<open><\<close> on them is Go's bytewise comparison.
  \<^item> the named collections \<open>step\<close> (symbolic execution of steps) and \<open>bounds\<close>
    (arithmetic facts that turn machine operations into plain integer operations).
\<close>

named_theorems step \<open>unfolding rules for the result/state combinators\<close>
named_theorems bounds \<open>machine operations that are exact under a bound\<close>

type_synonym bytes = string

type_synonym ('s, 'e, 'a) cmd = "'s \<Rightarrow> ('e + 'a) \<times> 's"

definition retE :: "'a \<Rightarrow> ('s, 'e, 'a) cmd" where
  "retE a s = (Inr a, s)"

definition failE :: "'e \<Rightarrow> ('s, 'e, 'a) cmd" where
  "failE e s = (Inl e, s)"

text \<open>A step that only reads the state, and one that always succeeds and only writes it.\<close>

definition readE :: "('s \<Rightarrow> 'e + 'a) \<Rightarrow> ('s, 'e, 'a) cmd" where
  "readE f s = (f s, s)"

definition execE :: "('s \<Rightarrow> 's) \<Rightarrow> ('s, 'e, unit) cmd" where
  "execE f s = (Inr (), f s)"

definition bindE :: "('s, 'e, 'a) cmd \<Rightarrow> ('a \<Rightarrow> ('s, 'e, 'b) cmd) \<Rightarrow> ('s, 'e, 'b) cmd" where
  "bindE f g s = (case fst (f s) of Inl e \<Rightarrow> (Inl e, snd (f s)) | Inr a \<Rightarrow> g a (snd (f s)))"

text \<open>Renaming the error of a step, for Go's \<open>fmt.Errorf("...: %w", err)\<close>.\<close>

definition mapErr :: "('e \<Rightarrow> 'f) \<Rightarrow> ('s, 'e, 'a) cmd \<Rightarrow> ('s, 'f, 'a) cmd" where
  "mapErr h f s = (map_sum h id (fst (f s)), snd (f s))"

declare retE_def [step] failE_def [step] readE_def [step] execE_def [step]
  bindE_def [step] mapErr_def [step]

lemma bindE_Inr: "fst (f s) = Inr a \<Longrightarrow> bindE f g s = g a (snd (f s))"
  by (simp add: bindE_def)

lemma bindE_Inl: "fst (f s) = Inl e \<Longrightarrow> bindE f g s = (Inl e, snd (f s))"
  by (simp add: bindE_def)

lemma bindE_retE [simp]: "bindE (retE a) f = f a"
  by (simp add: bindE_def retE_def fun_eq_iff)

lemma bindE_assoc: "bindE (bindE f g) h = bindE f (\<lambda>a. bindE (g a) h)"
  by (auto simp: bindE_def fun_eq_iff split: sum.splits)

text \<open>
  The standard reading of an invariant \<open>I\<close> kept by a step, whatever the step returns.
\<close>

definition keeps :: "('s \<Rightarrow> bool) \<Rightarrow> ('s, 'e, 'a) cmd \<Rightarrow> bool" where
  "keeps I f \<longleftrightarrow> (\<forall>s. I s \<longrightarrow> I (snd (f s)))"

lemma keeps_ret [intro]: "keeps I (retE a)"
  by (simp add: keeps_def retE_def)

lemma keeps_fail [intro]: "keeps I (failE e)"
  by (simp add: keeps_def failE_def)

lemma keeps_read [intro]: "keeps I (readE f)"
  by (simp add: keeps_def readE_def)

lemma keeps_bind [intro]: "keeps I f \<Longrightarrow> (\<And>a. keeps I (g a)) \<Longrightarrow> keeps I (bindE f g)"
  by (auto simp: keeps_def bindE_def split: sum.splits)

lemma keeps_mapErr [intro]: "keeps I f \<Longrightarrow> keeps I (mapErr h f)"
  by (simp add: keeps_def mapErr_def)

lemma keepsD: "keeps I f \<Longrightarrow> I s \<Longrightarrow> I (snd (f s))"
  by (simp add: keeps_def)

text \<open>Lists.\<close>

lemma take_append_exact [simp]: "length xs = n \<Longrightarrow> take n (xs @ ys) = xs"
  by simp

lemma drop_append_exact [simp]: "length xs = n \<Longrightarrow> drop n (xs @ ys) = ys"
  by simp

lemma filter_take_prefix: "prefix (filter P (take n xs)) (filter P xs)"
  by (metis append_take_drop_id filter_append prefixI)

lemma sorted_wrt_less_filter: "sorted_wrt (<) (xs :: 'a :: linorder list) \<Longrightarrow> sorted_wrt (<) (filter P xs)"
  by (rule sorted_wrt_filter)

end
