(* ===== verification/Machine.thy ===== *)
theory Machine
  imports Prelude
begin

text \<open>
  What the Go and Lua sources use of their languages' numbers and strings.

  \<^item> Go \<open>int64\<close> values are integers; \<open>wrap64\<close> is two's complement reduction and is written
    wherever the source's arithmetic or conversion can leave the range.
  \<^item> Lua numbers are IEEE doubles; every number the scripts compute is integral, so a double is an
    integer and \<open>dbl\<close> rounds to the nearest representable one (ties to even).
  \<^item> \<open>format_int\<close> is Go's \<open>%d\<close> and the decimal form in which arguments and counters
    reach Redis; \<open>ParseInt\<close> is \<open>strconv.ParseInt(s, 10, 64)\<close>, which returns 0 with a
    syntax error and the nearest bound with a range error.
  \<^item> \<open>lua_tostring\<close> is Lua 5.1's \<open>tostring\<close> and number concatenation, i.e.
    \<open>%.14g\<close>; \<open>lua_tonumber\<close> is \<open>tonumber\<close> on decimal integer numerals, the
    only strings the scripts apply it to.
  \<^item> \<open>enc64\<close> and \<open>dec64\<close> are the two helper functions of \<open>write.lua\<close> and
    \<open>txn.lua\<close>; \<open>be_uint64\<close> is \<open>binary.BigEndian.Uint64\<close>.
\<close>

section \<open>Definitions\<close>

definition wrap64 :: "int \<Rightarrow> int" where
  "wrap64 v = (v + 2 ^ 63) mod 2 ^ 64 - 2 ^ 63"

fun dbl_shift :: "nat \<Rightarrow> nat \<Rightarrow> nat" where
  "dbl_shift m k = (if m < 2 ^ 53 then k else dbl_shift (m div 2) (Suc k))"

definition dbl :: "int \<Rightarrow> int" where
  "dbl v = (if \<bar>v\<bar> \<le> 2 ^ 53 then v
            else let m = nat \<bar>v\<bar>; k = dbl_shift m 0; q = m div 2 ^ k; r = 2 * (m mod 2 ^ k);
                     q' = (if 2 ^ k < r \<or> (r = 2 ^ k \<and> odd q) then q + 1 else q)
                 in sgn v * int (q' * 2 ^ k))"

definition digit :: "nat \<Rightarrow> char" where
  "digit n = char_of (48 + n)"

definition is_digit :: "char \<Rightarrow> bool" where
  "is_digit c \<longleftrightarrow> (48 :: nat) \<le> of_char c \<and> of_char c \<le> (57 :: nat)"

fun dec_nat :: "nat \<Rightarrow> string" where
  "dec_nat n = (if n < 10 then [digit n] else dec_nat (n div 10) @ [digit (n mod 10)])"

definition format_int :: "int \<Rightarrow> string" where
  "format_int i = (if i < 0 then CHR ''-'' # dec_nat (nat (- i)) else dec_nat (nat i))"

definition digits_val :: "string \<Rightarrow> nat option" where
  "digits_val s = (if s = [] \<or> \<not> list_all is_digit s then None
                   else Some (foldl (\<lambda>a c. a * 10 + (of_char c - 48)) 0 s))"

text \<open>A decimal numeral with an optional sign.\<close>

definition dec_val :: "string \<Rightarrow> int option" where
  "dec_val s = (case s of [] \<Rightarrow> None
     | c # cs \<Rightarrow> if c = CHR ''-'' then map_option (\<lambda>n. - int n) (digits_val cs)
                 else if c = CHR ''+'' then map_option int (digits_val cs)
                 else map_option int (digits_val s))"

datatype parse_error = ErrSyntax | ErrRange

definition ParseInt :: "string \<Rightarrow> int \<times> parse_error option" where
  "ParseInt s = (case dec_val s of None \<Rightarrow> (0, Some ErrSyntax)
     | Some v \<Rightarrow> if v < - (2 ^ 63) then (- (2 ^ 63), Some ErrRange)
                 else if v \<ge> 2 ^ 63 then (2 ^ 63 - 1, Some ErrRange)
                 else (v, None))"

definition lua_tonumber :: "string \<Rightarrow> int option" where
  "lua_tonumber s = map_option dbl (dec_val s)"

text \<open>The scientific form of \<open>%.14g\<close>, used from ten to the fourteenth on.\<close>

definition strip_zeros :: "string \<Rightarrow> string" where
  "strip_zeros s = rev (dropWhile (\<lambda>c. c = CHR ''0'') (rev s))"

definition sci14 :: "nat \<Rightarrow> string" where
  "sci14 n = (let e = length (dec_nat n) - 1; k = 10 ^ (e - 13); q = n div k; r = 2 * (n mod k);
                  m = (if k < r \<or> (r = k \<and> odd q) then q + 1 else q);
                  (m', e') = (if m = 10 ^ 14 then (10 ^ 13, e + 1) else (m, e));
                  ds = strip_zeros (dec_nat m')
              in take 1 ds @ (if length ds \<le> 1 then [] else CHR ''.'' # drop 1 ds) @ ''e+'' @ dec_nat e')"

definition lua_tostring :: "int \<Rightarrow> string" where
  "lua_tostring v = (if \<bar>v\<bar> < 10 ^ 14 then format_int v
                     else (if v < 0 then ''-'' else []) @ sci14 (nat \<bar>v\<bar>))"

text \<open>
  \<open>for i = 8, 1, -1 do b[i] = string.char(v % 256); v = math.floor(v / 256) end\<close>:
  the least significant byte is written last.  Both operations are exact on integral doubles.
\<close>

fun enc_bytes :: "nat \<Rightarrow> int \<Rightarrow> bytes" where
  "enc_bytes 0 v = []"
| "enc_bytes (Suc n) v = enc_bytes n (v div 256) @ [char_of (v mod 256)]"

definition enc64 :: "int \<Rightarrow> bytes" where
  "enc64 v = enc_bytes 8 v"

text \<open>\<open>off\<close> counts from 1, as Lua does.  Both callers have checked that the bytes exist.\<close>

definition dec64 :: "bytes \<Rightarrow> nat \<Rightarrow> int" where
  "dec64 s off = foldl (\<lambda>v c. dbl (v * 256 + of_char c)) 0 (take 8 (drop (off - 1) s))"

definition be_uint64 :: "bytes \<Rightarrow> int" where
  "be_uint64 b = foldl (\<lambda>v c. v * 256 + of_char c) 0 (take 8 b)"

text \<open>The bound under which every revision the scripts handle is exact: below it
  \<open>tostring\<close> prints all digits.\<close>

definition rev_limit :: int where
  "rev_limit = 10 ^ 14 - 1"

section \<open>Two's complement and doubles\<close>

declare dbl_shift.simps [simp del]
declare dec_nat.simps [simp del]

lemma wrap64_id [bounds]: "- (2 ^ 63) \<le> v \<Longrightarrow> v < 2 ^ 63 \<Longrightarrow> wrap64 v = v"
  by (simp add: wrap64_def)

lemma wrap64_range: "- (2 ^ 63) \<le> wrap64 v \<and> wrap64 v < 2 ^ 63"
  by (simp add: wrap64_def)

lemma wrap64_mod: "wrap64 (v mod 2 ^ 64) = wrap64 v"
  by (simp add: wrap64_def mod_add_left_eq)

lemma dbl_exact [bounds]: "\<bar>v\<bar> \<le> 2 ^ 53 \<Longrightarrow> dbl v = v"
  by (simp add: dbl_def)

lemma dbl_nonneg_exact: "0 \<le> v \<Longrightarrow> v \<le> 2 ^ 53 \<Longrightarrow> dbl v = v"
  by (simp add: dbl_exact)

section \<open>Decimal numerals\<close>

lemma of_char_digit [simp]: "n < 10 \<Longrightarrow> of_char (digit n) = 48 + n"
  by (simp add: digit_def)

lemma is_digit_digit [simp]: "n < 10 \<Longrightarrow> is_digit (digit n)"
  by (simp add: is_digit_def)

lemma dec_nat_nonempty [simp]: "dec_nat n \<noteq> []"
  by (subst dec_nat.simps) simp

lemma list_all_digit_dec_nat [simp]: "list_all is_digit (dec_nat n)"
proof (induction n rule: dec_nat.induct)
  case (1 n)
  then show ?case by (subst dec_nat.simps) auto
qed

lemma foldl_dec_nat: "foldl (\<lambda>a c. a * 10 + (of_char c - 48)) 0 (dec_nat n) = n"
proof (induction n rule: dec_nat.induct)
  case (1 n)
  show ?case
  proof (cases "n < 10")
    case True
    then show ?thesis by (simp add: dec_nat.simps[of n])
  next
    case False
    with 1 show ?thesis by (simp add: dec_nat.simps[of n])
  qed
qed

lemma digits_val_dec_nat [simp]: "digits_val (dec_nat n) = Some n"
  by (simp add: digits_val_def foldl_dec_nat)

lemma dec_nat_hd: "\<exists>c cs. dec_nat n = c # cs \<and> is_digit c"
  using list_all_digit_dec_nat[of n] by (cases "dec_nat n") auto

lemma not_digit_sign [simp]: "\<not> is_digit CHR ''-''" "\<not> is_digit CHR ''+''"
  by (simp_all add: is_digit_def)

lemma dec_val_dec_nat [simp]: "dec_val (dec_nat n) = Some (int n)"
proof -
  obtain c cs where c: "dec_nat n = c # cs" "is_digit c" using dec_nat_hd by blast
  then have "c \<noteq> CHR ''-''" "c \<noteq> CHR ''+''" using not_digit_sign by metis+
  with c(1) digits_val_dec_nat[of n] show ?thesis by (simp add: dec_val_def)
qed

lemma dec_val_format_int [simp]: "dec_val (format_int i) = Some i"
proof (cases "i < 0")
  case True
  then show ?thesis by (simp add: format_int_def dec_val_def)
next
  case False
  then show ?thesis by (simp add: format_int_def)
qed

lemma format_int_inject [simp]: "format_int i = format_int j \<longleftrightarrow> i = j"
  using dec_val_format_int by (metis option.inject)

lemma format_int_nonempty [simp]: "format_int i \<noteq> []"
  by (simp add: format_int_def)

lemma ParseInt_format_int: "- (2 ^ 63) \<le> i \<Longrightarrow> i < 2 ^ 63 \<Longrightarrow> ParseInt (format_int i) = (i, None)"
  by (simp add: ParseInt_def)

lemma lua_tonumber_format_int: "lua_tonumber (format_int i) = Some (dbl i)"
  by (simp add: lua_tonumber_def)

lemma lua_tostring_exact [bounds]: "\<bar>v\<bar> < 10 ^ 14 \<Longrightarrow> lua_tostring v = format_int v"
  by (simp add: lua_tostring_def)

section \<open>Big-endian integers\<close>

lemma enc_bytes_length [simp]: "length (enc_bytes n v) = n"
  by (induction n arbitrary: v) auto

lemma enc64_length [simp]: "length (enc64 v) = 8"
  by (simp add: enc64_def)

lemma foldl_enc_bytes: "foldl (\<lambda>a c. a * 256 + of_char c) 0 (enc_bytes n v) = v mod 256 ^ n"
proof (induction n arbitrary: v)
  case 0
  then show ?case by simp
next
  case (Suc n)
  have "v mod 256 ^ Suc n = 256 * (v div 256 mod 256 ^ n) + v mod 256"
    by (simp add: mod_mult2_eq' zmod_zmult2_eq)
  with Suc show ?case by (simp add: of_char_of)
qed

lemma be_uint64_enc64: "be_uint64 (enc64 v @ rest) = v mod 2 ^ 64"
  using foldl_enc_bytes[of 8 v] by (simp add: be_uint64_def enc64_def)

lemma int64_be_enc64: "wrap64 (be_uint64 (enc64 v @ rest)) = wrap64 v"
  by (simp only: be_uint64_enc64 wrap64_mod)

text \<open>
  The Lua decoder rounds at every step; below two to the fifty-third it never loses a bit and so
  agrees with the Go decoder.
\<close>

lemma foldl_dbl_enc_bytes:
  assumes "0 \<le> v" and "v \<le> 2 ^ 53"
  shows "foldl (\<lambda>a c. dbl (a * 256 + of_char c)) 0 (enc_bytes n v) = v mod 256 ^ n"
  using assms
proof (induction n arbitrary: v)
  case 0
  then show ?case by simp
next
  case (Suc n)
  have split: "v mod 256 ^ Suc n = 256 * (v div 256 mod 256 ^ n) + v mod 256"
    by (simp add: zmod_zmult2_eq)
  have le: "v mod 256 ^ Suc n \<le> v" using Suc.prems by (simp add: zmod_le_nonneg_dividend)
  have nn: "0 \<le> v mod 256 ^ Suc n" by simp
  have q: "v div 256 \<le> 2 ^ 53" using Suc.prems by linarith
  have IH: "foldl (\<lambda>a c. dbl (a * 256 + of_char c)) 0 (enc_bytes n (v div 256)) = v div 256 mod 256 ^ n"
    using Suc.IH[of "v div 256"] Suc.prems q by simp
  show ?case
    using split le nn Suc.prems by (simp add: IH of_char_of dbl_exact mult.commute)
qed

lemma dec64_enc64:
  assumes "0 \<le> v" and "v \<le> 2 ^ 53" and "Suc (length pre) = off"
  shows "dec64 (pre @ enc64 v @ rest) off = v"
proof -
  have "take 8 (drop (off - 1) (pre @ enc64 v @ rest)) = enc_bytes 8 v"
    using assms(3) by (auto simp: enc64_def)
  moreover have "v mod 256 ^ 8 = v" using assms by simp
  ultimately show ?thesis
    using foldl_dbl_enc_bytes[OF assms(1,2), of 8] by (simp add: dec64_def)
qed

end
