(* ===== verification/KeyRange.thy ===== *)
theory KeyRange
  imports Machine
begin

text \<open>
  Key ranges: the pure string functions that turn an etcd key range into a Redis scan.

  \<^item> \<open>lexSuccessor\<close>, \<open>prefixLexRange\<close> (\<open>store/redis.go\<close>): the
    \<open>ZRANGEBYLEX\<close> bounds of a prefix scan;
  \<^item> \<open>commonPrefix\<close> (\<open>server/types.go\<close>): the scan prefix of a range request;
  \<^item> \<open>matchesWatch\<close> (\<open>server/watch.go\<close>) and \<open>in_request_range\<close> (the filter of
    \<open>KVServer.Range\<close> and \<open>DeleteRange\<close>): membership in a request range.

  The lemmas say that the bounds select exactly the keys with the prefix, that the scan prefix of a
  proper range covers the range, and that both filters accept the same keys.
\<close>

section \<open>Definitions\<close>

definition byte_succ :: "char \<Rightarrow> char" where
  "byte_succ c = char_of (of_char c + 1 :: nat)"

text \<open>\<open>for i := len(b) - 1; i >= 0; i--\<close>, counting \<open>i + 1\<close> down.\<close>

fun lexSuccessor_loop :: "bytes \<Rightarrow> nat \<Rightarrow> bytes \<times> bool" where
  "lexSuccessor_loop b 0 = ([], False)"
| "lexSuccessor_loop b (Suc i) =
     (if b ! i \<noteq> CHR 0xFF then (take i b @ [byte_succ (b ! i)], True) else lexSuccessor_loop b i)"

definition lexSuccessor :: "bytes \<Rightarrow> bytes \<times> bool" where
  "lexSuccessor s = lexSuccessor_loop s (length s)"

definition prefixLexRange :: "bytes \<Rightarrow> bytes \<times> bytes" where
  "prefixLexRange p =
     (if p = [] then (''-'', ''+'')
      else let (next, ok) = lexSuccessor p
           in if \<not> ok then (''['' @ p, ''+'') else (''['' @ p, ''('' @ next))"

function commonPrefix_loop :: "bytes \<Rightarrow> bytes \<Rightarrow> nat \<Rightarrow> nat \<Rightarrow> bytes" where
  "commonPrefix_loop a b n i =
     (if i < n then (if a ! i \<noteq> b ! i then take i a else commonPrefix_loop a b n (Suc i))
      else take n a)"
  by pat_completeness auto
termination
  by (relation "measure (\<lambda>(a, b, n, i). n - i)") auto

definition commonPrefix :: "bytes \<Rightarrow> bytes \<Rightarrow> bytes" where
  "commonPrefix a b = commonPrefix_loop a b (min (length a) (length b)) 0"

abbreviation nul :: bytes where
  "nul \<equiv> [CHR 0x00]"

definition matchesWatch :: "bytes \<Rightarrow> bytes \<Rightarrow> bytes \<Rightarrow> bool" where
  "matchesWatch eventKey key rangeEnd =
     (if rangeEnd = [] then eventKey = key
      else if rangeEnd = nul then key \<le> eventKey
      else key \<le> eventKey \<and> eventKey < rangeEnd)"

definition in_request_range :: "bytes \<Rightarrow> bytes \<Rightarrow> bytes \<Rightarrow> bool" where
  "in_request_range k key rangeEnd \<longleftrightarrow> key \<le> k \<and> (rangeEnd = nul \<or> k < rangeEnd)"

text \<open>
  The four forms of a \<open>ZRANGEBYLEX\<close> bound: \<open>-\<close>, \<open>+\<close>, \<open>[x\<close> and \<open>(x\<close>;
  any other string is refused by the server.
\<close>

definition lex_ge :: "string \<Rightarrow> bytes \<Rightarrow> bool" where
  "lex_ge b m = (if b = ''-'' then True else if b = ''+'' then False
     else (case b of [] \<Rightarrow> False | c # x \<Rightarrow> if c = CHR ''['' then x \<le> m else x < m))"

definition lex_le :: "string \<Rightarrow> bytes \<Rightarrow> bool" where
  "lex_le b m = (if b = ''+'' then True else if b = ''-'' then False
     else (case b of [] \<Rightarrow> False | c # x \<Rightarrow> if c = CHR ''['' then m \<le> x else m < x))"

definition lex_bound :: "string \<Rightarrow> bool" where
  "lex_bound b \<longleftrightarrow> b = ''-'' \<or> b = ''+'' \<or> (b \<noteq> [] \<and> (hd b = CHR ''['' \<or> hd b = CHR ''(''))"

section \<open>The successor of a prefix\<close>

lemma byte_255: "of_char c = (255 :: nat) \<longleftrightarrow> c = CHR 0xFF"
proof -
  have "of_char CHR 0xFF = (255 :: nat)" by simp
  then show ?thesis using of_char_eq_iff[of c "CHR 0xFF", where ?'a = nat] by simp
qed

lemma byte_le_255: "(y :: char) \<le> CHR 0xFF"
  using nat_of_char_less_256[of y] by (simp add: less_eq_char_def del: nat_of_char_less_256)

lemma less_byte_succ: "c \<noteq> CHR 0xFF \<Longrightarrow> y < byte_succ c \<longleftrightarrow> y \<le> c"
proof -
  assume "c \<noteq> CHR 0xFF"
  then have "of_char c \<noteq> (255 :: nat)" using byte_255 by blast
  then have "(of_char c + 1 :: nat) < 256" using nat_of_char_less_256[of c] by linarith
  then show ?thesis by (simp add: byte_succ_def less_char_def less_eq_char_def less_Suc_eq_le)
qed

lemma lexSuccessor_loop_Cons:
  "i \<le> length xs \<Longrightarrow> lexSuccessor_loop (x # xs) (Suc i) =
     (case lexSuccessor_loop xs i of (n, ok) \<Rightarrow>
        if ok then (x # n, True) else lexSuccessor_loop (x # xs) 1)"
  by (induction i) (auto split: prod.splits)

lemma lexSuccessor_Nil: "lexSuccessor [] = ([], False)"
  by (simp add: lexSuccessor_def)

lemma lexSuccessor_Cons:
  "lexSuccessor (x # xs) = (case lexSuccessor xs of (n, ok) \<Rightarrow>
     if ok then (x # n, True) else if x \<noteq> CHR 0xFF then ([byte_succ x], True) else ([], False))"
  using lexSuccessor_loop_Cons[of "length xs" xs x]
  by (simp add: lexSuccessor_def del: lexSuccessor_loop.simps) (simp split: prod.splits)

text \<open>
  A key has the prefix exactly when it lies between the prefix and its successor, or, for a prefix
  of 0xff bytes only (which has no successor), when it is not below the prefix.
\<close>

lemma prefix_iff_lexSuccessor:
  "prefix p k \<longleftrightarrow> (case lexSuccessor p of (n, ok) \<Rightarrow> p \<le> k \<and> (ok \<longrightarrow> k < n))"
proof (induction p arbitrary: k)
  case Nil
  then show ?case by (simp add: lexSuccessor_Nil)
next
  case (Cons x xs)
  show ?case
  proof (cases k)
    case Nil
    then show ?thesis by (simp split: prod.splits)
  next
    case k: (Cons y ys)
    obtain n ok where n: "lexSuccessor xs = (n, ok)" by fastforce
    with Cons.IH[of ys] have IH: "prefix xs ys \<longleftrightarrow> xs \<le> ys \<and> (ok \<longrightarrow> ys < n)" by simp
    have ff: "\<not> CHR 0xFF < y" using byte_le_255[of y] by (simp add: not_less)
    show ?thesis
      by (cases ok; cases "x = CHR 0xFF"; cases "x = y")
        (simp_all add: k n IH lexSuccessor_Cons less_byte_succ ff, (meson less_asym not_less)+)
  qed
qed

lemma prefixLexRange_bounds: "prefixLexRange p = (mn, mx) \<Longrightarrow> lex_bound mn \<and> lex_bound mx"
  by (auto simp: prefixLexRange_def lex_bound_def split: if_splits prod.splits)

lemma prefixLexRange_exact:
  assumes "prefixLexRange p = (mn, mx)"
  shows "lex_ge mn k \<and> lex_le mx k \<longleftrightarrow> prefix p k"
proof (cases "p = []")
  case True
  with assms have "mn = ''-''" "mx = ''+''" by (auto simp: prefixLexRange_def)
  with True show ?thesis by (simp add: lex_ge_def lex_le_def)
next
  case False
  obtain n ok where n: "lexSuccessor p = (n, ok)" by fastforce
  with assms False have "mn = CHR ''['' # p" "mx = (if ok then CHR ''('' # n else ''+'')"
    by (auto simp: prefixLexRange_def split: if_splits)
  with False n prefix_iff_lexSuccessor[of p k] show ?thesis
    by (simp add: lex_ge_def lex_le_def)
qed

section \<open>The scan prefix of a range\<close>

text \<open>The reference definition of the longest common prefix, by recursion on both strings.\<close>

fun lcp :: "bytes \<Rightarrow> bytes \<Rightarrow> bytes" where
  "lcp (x # xs) (y # ys) = (if x = y then x # lcp xs ys else [])"
| "lcp _ _ = []"

declare commonPrefix_loop.simps [simp del]

lemma lcp_Nil_right [simp]: "lcp xs [] = []"
  by (cases xs) auto

lemma commonPrefix_loop_lcp:
  "i \<le> min (length a) (length b) \<Longrightarrow>
   commonPrefix_loop a b (min (length a) (length b)) i = take i a @ lcp (drop i a) (drop i b)"
proof (induction "min (length a) (length b) - i" arbitrary: i)
  case 0
  then have "i = length a \<or> i = length b" by auto
  with 0 show ?case
    by (subst commonPrefix_loop.simps) (auto simp: min_def)
next
  case (Suc n)
  then have i: "i < length a" "i < length b" by auto
  then have "drop i a = a ! i # drop (Suc i) a" "drop i b = b ! i # drop (Suc i) b"
    by (simp_all add: Cons_nth_drop_Suc)
  moreover have "commonPrefix_loop a b (min (length a) (length b)) (Suc i)
      = take (Suc i) a @ lcp (drop (Suc i) a) (drop (Suc i) b)"
    using Suc i by simp
  ultimately show ?case
    using i by (subst commonPrefix_loop.simps) (auto simp: take_Suc_conv_app_nth)
qed

lemma commonPrefix_lcp: "commonPrefix a b = lcp a b"
  using commonPrefix_loop_lcp[of 0 a b] by (simp add: commonPrefix_def)

lemma lcp_between: "a \<le> k \<Longrightarrow> k < b \<Longrightarrow> prefix (lcp a b) k"
proof (induction a b arbitrary: k rule: lcp.induct)
  case (1 x xs y ys)
  then show ?case by (cases k) auto
qed auto

lemma commonPrefix_greatest:
  "prefix (commonPrefix a b) a \<and> prefix (commonPrefix a b) b \<and>
   (\<forall>p. prefix p a \<longrightarrow> prefix p b \<longrightarrow> prefix p (commonPrefix a b))"
proof -
  have "prefix (lcp a b) a \<and> prefix (lcp a b) b"
    by (induction a b rule: lcp.induct) auto
  moreover have "prefix p a \<Longrightarrow> prefix p b \<Longrightarrow> prefix p (lcp a b)" for p
    by (induction a b arbitrary: p rule: lcp.induct) (auto simp: prefix_Cons)
  ultimately show ?thesis by (simp add: commonPrefix_lcp)
qed

text \<open>
  The one range whose scan prefix is too long: \<open>rangeEnd = "\x00"\<close> (all keys from \<open>key\<close>
  on) together with a key that starts with a NUL byte, so that both share the prefix
  \<open>"\x00"\<close>.
\<close>

definition nul_clash :: "bytes \<Rightarrow> bytes \<Rightarrow> bool" where
  "nul_clash key rangeEnd \<longleftrightarrow> rangeEnd = nul \<and> prefix nul key"

lemma scan_prefix_covers:
  assumes "in_request_range k key rangeEnd" and "\<not> nul_clash key rangeEnd"
  shows "prefix (commonPrefix key rangeEnd) k"
proof (cases "rangeEnd = nul")
  case True
  with assms(2) show ?thesis
    by (cases key) (auto simp: commonPrefix_lcp nul_clash_def)
next
  case False
  with assms(1) show ?thesis
    by (auto simp: in_request_range_def commonPrefix_lcp intro: lcp_between)
qed

lemma in_request_range_matchesWatch:
  "rangeEnd \<noteq> [] \<Longrightarrow> in_request_range k key rangeEnd = matchesWatch k key rangeEnd"
  by (auto simp: in_request_range_def matchesWatch_def)

end
