(* ===== verification/RedisApi.thy ===== *)
theory RedisApi
  imports KeyRange "HOL-Library.Product_Lexorder"
begin

text \<open>
  The Redis server, a service outside the repository, as a parameter of the model.

  \<open>'d redis\<close> is the record of the commands the sources issue, over an arbitrary server state
  \<open>'d\<close>; every definition of the store takes such a record.  What the store relies on is the
  locale \<open>redis_server\<close>: a \<open>view\<close> of the server state as a typed keyspace and one law
  per command, taken from the Redis command documentation (what a command returns on a key of the
  right type, and what it leaves in the keyspace).  Nothing is assumed of a command on a key of the
  wrong type, of the order of \<open>SMEMBERS\<close>, of a stream read that finds nothing, or of the stream ID \<open>XADD\<close> picks beyond its
  being larger than every ID in the stream.

  \<open>ref_redis\<close> is a reference server over keyspaces that satisfies every law; the
  interpretation \<open>refr\<close> shows it, and the witnesses of the development run on it.
\<close>

section \<open>Keyspaces\<close>

text \<open>A stream ID is \<open>ms-seq\<close>; a stream entry is an ID with its field list.\<close>

type_synonym sid = "nat \<times> nat"
type_synonym entry = "sid \<times> (string \<times> bytes) list"

datatype rval =
    RString bytes
  | RSet "bytes set"
  | RZset "bytes set"
  | RStream "entry list"

record keyspace =
  vals :: "string \<rightharpoonup> rval"
  ttls :: "string \<rightharpoonup> int"

datatype rerr = WrongType | NotInteger | BadArgument | NetErr

fun is_str :: "rval option \<Rightarrow> bool" where
  "is_str None = True" | "is_str (Some (RString _)) = True" | "is_str _ = False"

fun as_str :: "rval option \<Rightarrow> bytes option" where
  "as_str (Some (RString v)) = Some v" | "as_str _ = None"

fun is_set :: "rval option \<Rightarrow> bool" where
  "is_set None = True" | "is_set (Some (RSet _)) = True" | "is_set _ = False"

fun as_set :: "rval option \<Rightarrow> bytes set" where
  "as_set (Some (RSet S)) = S" | "as_set _ = {}"

fun is_zset :: "rval option \<Rightarrow> bool" where
  "is_zset None = True" | "is_zset (Some (RZset _)) = True" | "is_zset _ = False"

fun as_zset :: "rval option \<Rightarrow> bytes set" where
  "as_zset (Some (RZset S)) = S" | "as_zset _ = {}"

fun is_stream :: "rval option \<Rightarrow> bool" where
  "is_stream None = True" | "is_stream (Some (RStream _)) = True" | "is_stream _ = False"

fun as_stream :: "rval option \<Rightarrow> entry list" where
  "as_stream (Some (RStream es)) = es" | "as_stream _ = []"

fun type_name :: "rval option \<Rightarrow> string" where
  "type_name None = ''none''"
| "type_name (Some (RString _)) = ''string''"
| "type_name (Some (RSet _)) = ''set''"
| "type_name (Some (RZset _)) = ''zset''"
| "type_name (Some (RStream _)) = ''stream''"

text \<open>
  Updates: \<open>ks_put\<close> stores a value and drops the key's time to live (\<open>SET\<close>),
  \<open>ks_upd\<close> changes a value in place, \<open>ks_del\<close> removes a key.  An emptied set or
  sorted set is removed with its key.
\<close>

definition ks_put :: "string \<Rightarrow> rval \<Rightarrow> keyspace \<Rightarrow> keyspace" where
  "ks_put k v s = s\<lparr>vals := (vals s)(k \<mapsto> v), ttls := (ttls s)(k := None)\<rparr>"

definition ks_upd :: "string \<Rightarrow> rval \<Rightarrow> keyspace \<Rightarrow> keyspace" where
  "ks_upd k v s = s\<lparr>vals := (vals s)(k \<mapsto> v)\<rparr>"

definition ks_del :: "string \<Rightarrow> keyspace \<Rightarrow> keyspace" where
  "ks_del k s = s\<lparr>vals := (vals s)(k := None), ttls := (ttls s)(k := None)\<rparr>"

definition ks_set :: "string \<Rightarrow> bytes set \<Rightarrow> keyspace \<Rightarrow> keyspace" where
  "ks_set k S s = (if S = {} then ks_del k s else ks_upd k (RSet S) s)"

definition ks_zset :: "string \<Rightarrow> bytes set \<Rightarrow> keyspace \<Rightarrow> keyspace" where
  "ks_zset k S s = (if S = {} then ks_del k s else ks_upd k (RZset S) s)"

definition ks_ttl :: "string \<Rightarrow> int \<Rightarrow> keyspace \<Rightarrow> keyspace" where
  "ks_ttl k n s = s\<lparr>ttls := (ttls s)(k \<mapsto> n)\<rparr>"

definition ks_elapse :: "int \<Rightarrow> keyspace \<Rightarrow> keyspace" where
  "ks_elapse n s =
     s\<lparr>vals := (\<lambda>k. case ttls s k of Some t \<Rightarrow> if t \<le> n then None else vals s k | None \<Rightarrow> vals s k),
       ttls := (\<lambda>k. case ttls s k of Some t \<Rightarrow> if t \<le> n then None else Some (t - n) | None \<Rightarrow> None)\<rparr>"

text \<open>Stream IDs as strings; \<open>0\<close> is the ID below every entry.\<close>

definition sid_str :: "sid \<Rightarrow> string" where
  "sid_str i = dec_nat (fst i) @ ''-'' @ dec_nat (snd i)"

definition parse_sid :: "string \<Rightarrow> sid option" where
  "parse_sid s =
     (let a = takeWhile (\<lambda>c. c \<noteq> CHR ''-'') s; b = dropWhile (\<lambda>c. c \<noteq> CHR ''-'') s
      in case digits_val a of None \<Rightarrow> None
         | Some ms \<Rightarrow> if b = [] then Some (ms, 0) else map_option (Pair ms) (digits_val (tl b)))"

section \<open>The commands\<close>

text \<open>
  Commands that only read have type \<open>'d \<Rightarrow> rerr + 'a\<close>; commands that write are steps.
  \<open>r_SETEX\<close> and \<open>r_EXPIRE\<close> take a Go duration in nanoseconds and \<open>r_TTL\<close>
  returns one, as the go-redis calls do; \<open>r_elapse\<close> is the passing of whole seconds.
  \<open>r_XREAD\<close> takes the stream, the ID to read after, the count and the \<open>Block\<close> duration in
  nanoseconds; the nil reply of a read that found nothing is \<open>[]\<close>.
\<close>

record 'd redis =
  r_GET :: "string \<Rightarrow> 'd \<Rightarrow> rerr + bytes option"
  r_MGET :: "string list \<Rightarrow> 'd \<Rightarrow> rerr + bytes option list"
  r_EXISTS :: "string \<Rightarrow> 'd \<Rightarrow> rerr + int"
  r_TYPE :: "string \<Rightarrow> 'd \<Rightarrow> rerr + string"
  r_SMEMBERS :: "string \<Rightarrow> 'd \<Rightarrow> rerr + bytes list"
  r_ZRANGEBYLEX :: "string \<Rightarrow> string \<Rightarrow> string \<Rightarrow> 'd \<Rightarrow> rerr + bytes list"
  r_XREAD :: "string \<Rightarrow> string \<Rightarrow> int \<Rightarrow> int \<Rightarrow> 'd \<Rightarrow> rerr + entry list"
  r_TTL :: "string \<Rightarrow> 'd \<Rightarrow> rerr + int"
  r_SET :: "string \<Rightarrow> bytes \<Rightarrow> ('d, rerr, unit) cmd"
  r_SETNX :: "string \<Rightarrow> bytes \<Rightarrow> ('d, rerr, unit) cmd"
  r_SETEX :: "string \<Rightarrow> bytes \<Rightarrow> int \<Rightarrow> ('d, rerr, unit) cmd"
  r_INCR :: "string \<Rightarrow> ('d, rerr, int) cmd"
  r_DEL :: "string \<Rightarrow> ('d, rerr, unit) cmd"
  r_EXPIRE :: "string \<Rightarrow> int \<Rightarrow> ('d, rerr, unit) cmd"
  r_SADD :: "string \<Rightarrow> bytes \<Rightarrow> ('d, rerr, unit) cmd"
  r_SREM :: "string \<Rightarrow> bytes \<Rightarrow> ('d, rerr, unit) cmd"
  r_ZADD :: "string \<Rightarrow> bytes \<Rightarrow> ('d, rerr, unit) cmd"
  r_ZREM :: "string \<Rightarrow> bytes \<Rightarrow> ('d, rerr, unit) cmd"
  r_XADD :: "string \<Rightarrow> (string \<times> bytes) list \<Rightarrow> ('d, rerr, string) cmd"
  r_elapse :: "int \<Rightarrow> 'd \<Rightarrow> 'd"

abbreviation second_ns :: int where
  "second_ns \<equiv> 10 ^ 9"

section \<open>The laws\<close>

locale redis_server =
  fixes R :: "'d redis"
    and view :: "'d \<Rightarrow> keyspace"
    and newid :: "string \<Rightarrow> 'd \<Rightarrow> sid"
  assumes GET: "is_str (vals (view d) k) \<Longrightarrow> r_GET R k d = Inr (as_str (vals (view d) k))"
    and MGET: "r_MGET R ks d = Inr (map (\<lambda>k. as_str (vals (view d) k)) ks)"
    and EXISTS: "r_EXISTS R k d = Inr (if vals (view d) k = None then 0 else 1)"
    and TYPE: "r_TYPE R k d = Inr (type_name (vals (view d) k))"
    and SMEMBERS: "is_set (vals (view d) k) \<Longrightarrow> finite (as_set (vals (view d) k)) \<Longrightarrow>
      \<exists>xs. r_SMEMBERS R k d = Inr xs \<and> distinct xs \<and> set xs = as_set (vals (view d) k)"
    and ZRANGEBYLEX: "is_zset (vals (view d) k) \<Longrightarrow> finite (as_zset (vals (view d) k)) \<Longrightarrow>
      lex_bound mn \<Longrightarrow> lex_bound mx \<Longrightarrow>
      r_ZRANGEBYLEX R k mn mx d =
        Inr (sorted_list_of_set {m \<in> as_zset (vals (view d) k). lex_ge mn m \<and> lex_le mx m})"
    and XREAD: "is_stream (vals (view d) k) \<Longrightarrow> parse_sid lastID = Some i \<Longrightarrow> 0 < cnt \<Longrightarrow>
      filter (\<lambda>e. i < fst e) (as_stream (vals (view d) k)) \<noteq> [] \<Longrightarrow>
      r_XREAD R k lastID cnt block d =
        Inr (take (nat cnt) (filter (\<lambda>e. i < fst e) (as_stream (vals (view d) k))))"
    and XREAD_none: "is_stream (vals (view d) k) \<Longrightarrow> parse_sid lastID = Some i \<Longrightarrow>
      filter (\<lambda>e. i < fst e) (as_stream (vals (view d) k)) = [] \<Longrightarrow>
      r_XREAD R k lastID cnt block d = Inr es \<Longrightarrow> es = []"
    and TTL_none: "vals (view d) k = None \<Longrightarrow> r_TTL R k d = Inr (- 2)"
    and TTL_persistent: "vals (view d) k \<noteq> None \<Longrightarrow> ttls (view d) k = None \<Longrightarrow> r_TTL R k d = Inr (- 1)"
    and TTL_some: "vals (view d) k \<noteq> None \<Longrightarrow> ttls (view d) k = Some t \<Longrightarrow> r_TTL R k d = Inr (t * second_ns)"
    and SET: "fst (r_SET R k v d) = Inr ()" "view (snd (r_SET R k v d)) = ks_put k (RString v) (view d)"
    and SETNX: "fst (r_SETNX R k v d) = Inr ()"
      "view (snd (r_SETNX R k v d)) =
         (if vals (view d) k = None then ks_put k (RString v) (view d) else view d)"
    and SETEX: "0 < dur \<Longrightarrow> dur mod second_ns = 0 \<Longrightarrow> fst (r_SETEX R k v dur d) = Inr ()"
      "0 < dur \<Longrightarrow> dur mod second_ns = 0 \<Longrightarrow>
       view (snd (r_SETEX R k v dur d)) = ks_ttl k (dur div second_ns) (ks_put k (RString v) (view d))"
    and INCR: "vals (view d) k = Some (RString (format_int n)) \<Longrightarrow> n < 2 ^ 63 - 1 \<Longrightarrow>
        fst (r_INCR R k d) = Inr (n + 1)"
      "vals (view d) k = Some (RString (format_int n)) \<Longrightarrow> n < 2 ^ 63 - 1 \<Longrightarrow>
        view (snd (r_INCR R k d)) = ks_upd k (RString (format_int (n + 1))) (view d)"
    and INCR_new: "vals (view d) k = None \<Longrightarrow> fst (r_INCR R k d) = Inr 1"
      "vals (view d) k = None \<Longrightarrow> view (snd (r_INCR R k d)) = ks_upd k (RString (format_int 1)) (view d)"
    and DEL: "fst (r_DEL R k d) = Inr ()" "view (snd (r_DEL R k d)) = ks_del k (view d)"
    and EXPIRE: "0 < dur \<Longrightarrow> dur mod second_ns = 0 \<Longrightarrow> fst (r_EXPIRE R k dur d) = Inr ()"
      "0 < dur \<Longrightarrow> dur mod second_ns = 0 \<Longrightarrow>
       view (snd (r_EXPIRE R k dur d)) =
         (if vals (view d) k = None then view d else ks_ttl k (dur div second_ns) (view d))"
    and SADD: "is_set (vals (view d) k) \<Longrightarrow> fst (r_SADD R k m d) = Inr ()"
      "is_set (vals (view d) k) \<Longrightarrow>
       view (snd (r_SADD R k m d)) = ks_set k (insert m (as_set (vals (view d) k))) (view d)"
    and SREM: "is_set (vals (view d) k) \<Longrightarrow> fst (r_SREM R k m d) = Inr ()"
      "is_set (vals (view d) k) \<Longrightarrow>
       view (snd (r_SREM R k m d)) = ks_set k (as_set (vals (view d) k) - {m}) (view d)"
    and ZADD: "is_zset (vals (view d) k) \<Longrightarrow> fst (r_ZADD R k m d) = Inr ()"
      "is_zset (vals (view d) k) \<Longrightarrow>
       view (snd (r_ZADD R k m d)) = ks_zset k (insert m (as_zset (vals (view d) k))) (view d)"
    and ZREM: "is_zset (vals (view d) k) \<Longrightarrow> fst (r_ZREM R k m d) = Inr ()"
      "is_zset (vals (view d) k) \<Longrightarrow>
       view (snd (r_ZREM R k m d)) = ks_zset k (as_zset (vals (view d) k) - {m}) (view d)"
    and XADD: "is_stream (vals (view d) k) \<Longrightarrow> fst (r_XADD R k fs d) = Inr (sid_str (newid k d))"
      "is_stream (vals (view d) k) \<Longrightarrow>
       view (snd (r_XADD R k fs d)) =
         ks_upd k (RStream (as_stream (vals (view d) k) @ [(newid k d, fs)])) (view d)"
    and newid_pos: "(0, 0) < newid k d"
    and newid_greater: "e \<in> set (as_stream (vals (view d) k)) \<Longrightarrow> fst e < newid k d"
    and elapse: "0 \<le> n \<Longrightarrow> view (r_elapse R n d) = ks_elapse n (view d)"
begin

lemmas reads = GET MGET EXISTS TYPE ZRANGEBYLEX
lemmas writes = SET SETNX SETEX INCR INCR_new DEL EXPIRE SADD SREM ZADD ZREM XADD

end

text \<open>
  A blocking read with a positive time limit that finds nothing gets the nil reply.  Not every
  deployment of the client keeps this (a limit below a millisecond may be rounded to no limit), so
  it is a contract of its own.
\<close>

locale redis_nil_server = redis_server R view newid
  for R :: "'d redis" and view :: "'d \<Rightarrow> keyspace" and newid :: "string \<Rightarrow> 'd \<Rightarrow> sid" +
  assumes XREAD_nil: "is_stream (vals (view d) k) \<Longrightarrow> parse_sid lastID = Some i \<Longrightarrow> 0 < cnt \<Longrightarrow> 0 < block \<Longrightarrow>
      filter (\<lambda>e. i < fst e) (as_stream (vals (view d) k)) = [] \<Longrightarrow>
      r_XREAD R k lastID cnt block d = Inr []"
begin

lemma XREAD_total:
  "is_stream (vals (view d) k) \<Longrightarrow> parse_sid lastID = Some i \<Longrightarrow> 0 < cnt \<Longrightarrow> 0 < block \<Longrightarrow>
   r_XREAD R k lastID cnt block d =
     Inr (take (nat cnt) (filter (\<lambda>e. i < fst e) (as_stream (vals (view d) k))))"
  using XREAD XREAD_nil by (cases "filter (\<lambda>e. i < fst e) (as_stream (vals (view d) k)) = []") auto

end

section \<open>Stream IDs\<close>

lemma digits_no_dash: "c \<in> set (dec_nat n) \<Longrightarrow> c \<noteq> CHR ''-''"
  using list_all_digit_dec_nat[of n] by (auto simp: list_all_iff)

lemma takeWhile_dec_nat: "takeWhile (\<lambda>c. c \<noteq> CHR ''-'') (dec_nat n @ CHR ''-'' # s) = dec_nat n"
  by (subst takeWhile_append2) (auto dest: digits_no_dash)

lemma dropWhile_dec_nat: "dropWhile (\<lambda>c. c \<noteq> CHR ''-'') (dec_nat n @ CHR ''-'' # s) = CHR ''-'' # s"
  by (subst dropWhile_append2) (auto dest: digits_no_dash)

lemma parse_sid_str [simp]: "parse_sid (sid_str i) = Some i"
  by (simp add: parse_sid_def sid_str_def takeWhile_dec_nat dropWhile_dec_nat Let_def)

lemma parse_sid_zero [simp]: "parse_sid ''0'' = Some (0, 0)"
proof -
  have "dec_nat 0 = ''0''" by code_simp
  then have "digits_val ''0'' = Some 0" by (metis digits_val_dec_nat)
  then show ?thesis by (simp add: parse_sid_def)
qed

lemma sid_str_inject [simp]: "sid_str i = sid_str j \<longleftrightarrow> i = j"
  using parse_sid_str by (metis option.inject)

lemma sid_str_nonempty [simp]: "sid_str i \<noteq> []"
  by (simp add: sid_str_def)

section \<open>Keyspace lemmas\<close>

lemmas ks_defs = ks_put_def ks_upd_def ks_del_def ks_set_def ks_zset_def ks_ttl_def

lemma vals_ks_put [simp]: "vals (ks_put k v s) = (vals s)(k \<mapsto> v)"
  by (simp add: ks_put_def)

lemma vals_ks_upd [simp]: "vals (ks_upd k v s) = (vals s)(k \<mapsto> v)"
  by (simp add: ks_upd_def)

lemma vals_ks_del [simp]: "vals (ks_del k s) = (vals s)(k := None)"
  by (simp add: ks_del_def)

lemma vals_ks_ttl [simp]: "vals (ks_ttl k n s) = vals s"
  by (simp add: ks_ttl_def)

lemma vals_ks_set_other [simp]: "k' \<noteq> k \<Longrightarrow> vals (ks_set k S s) k' = vals s k'"
  by (simp add: ks_set_def)

lemma vals_ks_zset_other [simp]: "k' \<noteq> k \<Longrightarrow> vals (ks_zset k S s) k' = vals s k'"
  by (simp add: ks_zset_def)

lemma ks_set_same [simp]: "is_set (vals (ks_set k S s) k)" "as_set (vals (ks_set k S s) k) = S"
  by (simp_all add: ks_set_def)

lemma ks_zset_same [simp]: "is_zset (vals (ks_zset k S s) k)" "as_zset (vals (ks_zset k S s) k) = S"
  by (simp_all add: ks_zset_def)

section \<open>The reference server\<close>

definition ref_newid :: "string \<Rightarrow> keyspace \<Rightarrow> sid" where
  "ref_newid k s = (Suc (foldr (\<lambda>e m. max (fst (fst e)) m) (as_stream (vals s k)) 0), 0)"

definition ref_redis :: "keyspace redis" where
  "ref_redis =
    \<lparr>r_GET = (\<lambda>k s. if is_str (vals s k) then Inr (as_str (vals s k)) else Inl WrongType),
     r_MGET = (\<lambda>ks s. Inr (map (\<lambda>k. as_str (vals s k)) ks)),
     r_EXISTS = (\<lambda>k s. Inr (if vals s k = None then 0 else 1)),
     r_TYPE = (\<lambda>k s. Inr (type_name (vals s k))),
     r_SMEMBERS = (\<lambda>k s. if is_set (vals s k) then Inr (sorted_list_of_set (as_set (vals s k))) else Inl WrongType),
     r_ZRANGEBYLEX = (\<lambda>k mn mx s.
       if \<not> lex_bound mn \<or> \<not> lex_bound mx then Inl BadArgument
       else if is_zset (vals s k)
       then Inr (sorted_list_of_set (Set.filter (\<lambda>m. lex_ge mn m \<and> lex_le mx m) (as_zset (vals s k))))
       else Inl WrongType),
     r_XREAD = (\<lambda>k lastID n block s.
       case parse_sid lastID of None \<Rightarrow> Inl BadArgument
       | Some i \<Rightarrow> if is_stream (vals s k)
           then Inr (let es = filter (\<lambda>e. i < fst e) (as_stream (vals s k)) in if n \<le> 0 then es else take (nat n) es)
           else Inl WrongType),
     r_TTL = (\<lambda>k s. Inr (if vals s k = None then - 2
       else case ttls s k of None \<Rightarrow> - 1 | Some t \<Rightarrow> t * second_ns)),
     r_SET = (\<lambda>k v s. (Inr (), ks_put k (RString v) s)),
     r_SETNX = (\<lambda>k v s. (Inr (), if vals s k = None then ks_put k (RString v) s else s)),
     r_SETEX = (\<lambda>k v dur s. (Inr (),
       if 0 < dur then ks_ttl k (dur div second_ns) (ks_put k (RString v) s) else ks_put k (RString v) s)),
     r_INCR = (\<lambda>k s. case vals s k of
         None \<Rightarrow> (Inr 1, ks_upd k (RString (format_int 1)) s)
       | Some (RString v) \<Rightarrow>
           (case dec_val v of None \<Rightarrow> (Inl NotInteger, s)
            | Some n \<Rightarrow> if n < 2 ^ 63 - 1 then (Inr (n + 1), ks_upd k (RString (format_int (n + 1))) s)
                        else (Inl NotInteger, s))
       | Some _ \<Rightarrow> (Inl WrongType, s)),
     r_DEL = (\<lambda>k s. (Inr (), ks_del k s)),
     r_EXPIRE = (\<lambda>k dur s. (Inr (),
       if vals s k = None then s else if 0 < dur then ks_ttl k (dur div second_ns) s else ks_del k s)),
     r_SADD = (\<lambda>k m s. if is_set (vals s k) then (Inr (), ks_set k (insert m (as_set (vals s k))) s) else (Inl WrongType, s)),
     r_SREM = (\<lambda>k m s. if is_set (vals s k) then (Inr (), ks_set k (as_set (vals s k) - {m}) s) else (Inl WrongType, s)),
     r_ZADD = (\<lambda>k m s. if is_zset (vals s k) then (Inr (), ks_zset k (insert m (as_zset (vals s k))) s) else (Inl WrongType, s)),
     r_ZREM = (\<lambda>k m s. if is_zset (vals s k) then (Inr (), ks_zset k (as_zset (vals s k) - {m}) s) else (Inl WrongType, s)),
     r_XADD = (\<lambda>k fs s. if is_stream (vals s k)
       then (Inr (sid_str (ref_newid k s)), ks_upd k (RStream (as_stream (vals s k) @ [(ref_newid k s, fs)])) s)
       else (Inl WrongType, s)),
     r_elapse = ks_elapse\<rparr>"

lemma ref_newid_max:
  "e \<in> set (es :: entry list) \<Longrightarrow> fst (fst e) \<le> foldr (\<lambda>e m. max (fst (fst e)) m) es 0"
  by (induction es) auto

lemma ref_newid_greater: "e \<in> set (as_stream (vals s k)) \<Longrightarrow> fst e < ref_newid k s"
  using ref_newid_max[of e "as_stream (vals s k)"]
  by (cases "fst e") (simp add: ref_newid_def)

interpretation refr: redis_nil_server ref_redis id ref_newid
  by unfold_locales
    (auto simp: ref_redis_def ref_newid_greater intro!: arg_cong[where f = sorted_list_of_set],
     simp add: ref_newid_def)

end
