(* ===== verification/Codec.thy ===== *)
theory Codec
  imports RedisApi
begin

text \<open>
  Values and events of \<open>store/redis.go\<close>: the records \<open>KeyValue\<close> and \<open>Event\<close>,
  the binary blob under which a key is stored, and the two ways an event is built: from a stream
  entry read back (\<open>parseStreamEvent\<close>) and from the reply of a write script
  (\<open>makeEvent\<close>).  The lemmas are the round trip of the blob between the Lua encoder and the Go
  and Lua decoders, and what each event builder makes of the entries the scripts append.
\<close>

section \<open>Values\<close>

record KeyValue =
  Key :: bytes
  Value :: bytes
  CreateRevision :: int
  ModRevision :: int
  Version :: int
  Lease :: int

definition decodeKV :: "bytes \<Rightarrow> bytes \<Rightarrow> KeyValue option" where
  "decodeKV key data =
     (if length data < 32 then None
      else Some \<lparr>Key = key,
                 Value = drop 32 data,
                 CreateRevision = wrap64 (be_uint64 (take 8 data)),
                 ModRevision = wrap64 (be_uint64 (take 8 (drop 8 data))),
                 Version = wrap64 (be_uint64 (take 8 (drop 16 data))),
                 Lease = wrap64 (be_uint64 (take 8 (drop 24 data)))\<rparr>)"

text \<open>The blob both scripts write:
  \<open>enc64(create_rev) .. enc64(new_rev) .. enc64(version) .. enc64(lease) .. ARGV[2]\<close>.\<close>

definition encBlob :: "int \<Rightarrow> int \<Rightarrow> int \<Rightarrow> int \<Rightarrow> bytes \<Rightarrow> bytes" where
  "encBlob create_rev new_rev version lease val =
     enc64 create_rev @ enc64 new_rev @ enc64 version @ enc64 lease @ val"

section \<open>Events\<close>

record Event =
  EvType :: string
  EvKey :: bytes
  EvRev :: int
  EvKV :: "KeyValue option"
  EvPrevKV :: "KeyValue option"
  EvCreatedMs :: int
  EvID :: string

text \<open>
  A stream message as the client library delivers it: its ID and its field map.  Every field is a
  string or absent, so \<open>streamString\<close> of an absent field is the empty string.
\<close>

record XMessage =
  XID :: string
  XValues :: "string \<rightharpoonup> bytes"

definition xmessage :: "entry \<Rightarrow> XMessage" where
  "xmessage e = \<lparr>XID = sid_str (fst e), XValues = map_of (rev (snd e))\<rparr>"

definition streamString :: "bytes option \<Rightarrow> bytes" where
  "streamString v = (case v of Some s \<Rightarrow> s | None \<Rightarrow> [])"

text \<open>\<open>strings.IndexByte\<close>, and the millisecond prefix of a stream ID, 0 where there is none.\<close>

definition IndexByte :: "bytes \<Rightarrow> char \<Rightarrow> int" where
  "IndexByte s c = (if c \<in> set s then int (length (takeWhile (\<lambda>x. x \<noteq> c) s)) else - 1)"

definition created_ms :: "string \<Rightarrow> int" where
  "created_ms sid =
     (let dash = IndexByte sid (CHR ''-'')
      in if 0 < dash
         then (case ParseInt (take (nat dash) sid) of (ms, err) \<Rightarrow> if err = None then ms else 0)
         else 0)"

definition parseStreamEvent :: "XMessage \<Rightarrow> parse_error + Event" where
  "parseStreamEvent msg =
     (let typ = streamString (XValues msg ''type'');
          key = streamString (XValues msg ''key'');
          (rv, err) = ParseInt (streamString (XValues msg ''rev''))
      in case err of Some e \<Rightarrow> Inl e
         | None \<Rightarrow> Inr
             \<lparr>EvType = typ, EvKey = key, EvRev = rv,
              EvKV = (if typ = ''PUT''
                      then (case XValues msg ''data'' of Some dataRaw \<Rightarrow> decodeKV key dataRaw | None \<Rightarrow> None)
                      else None),
              EvPrevKV = (case XValues msg ''prev_data'' of
                            Some prevStr \<Rightarrow> if prevStr \<noteq> [] then decodeKV key prevStr else None
                          | None \<Rightarrow> None),
              EvCreatedMs = created_ms (XID msg),
              EvID = XID msg\<rparr>)"

definition makeEvent :: "string \<Rightarrow> bytes \<Rightarrow> int \<Rightarrow> bytes \<Rightarrow> bytes \<Rightarrow> string \<Rightarrow> Event" where
  "makeEvent typ key rv newBlob prevBlob sid =
     \<lparr>EvType = typ, EvKey = key, EvRev = rv,
      EvKV = (if typ = ''PUT'' \<and> 32 \<le> length newBlob then decodeKV key newBlob else None),
      EvPrevKV = (if 32 \<le> length prevBlob then decodeKV key prevBlob else None),
      EvCreatedMs = created_ms sid,
      EvID = sid\<rparr>"

section \<open>Script replies\<close>

datatype reply = RInt int | RBulk bytes

definition scriptStr :: "reply list \<Rightarrow> nat \<Rightarrow> bytes" where
  "scriptStr res i =
     (if i < length res then (case res ! i of RBulk s \<Rightarrow> s | RInt _ \<Rightarrow> []) else [])"

definition scriptRev :: "reply list \<Rightarrow> int" where
  "scriptRev res =
     (case res of [] \<Rightarrow> 0 | RBulk v # _ \<Rightarrow> fst (ParseInt v) | RInt v # _ \<Rightarrow> v)"

section \<open>Lemmas\<close>

lemma length_encBlob [simp]: "length (encBlob c m v l val) = 32 + length val"
  by (simp add: encBlob_def)

lemma be_uint64_take [simp]: "be_uint64 (take 8 (enc64 v @ rest)) = be_uint64 (enc64 v @ rest)"
  by (simp add: be_uint64_def)

lemma drop_enc64 [simp]:
  "8 \<le> n \<Longrightarrow> drop n (enc64 v @ rest) = drop (n - 8) rest"
  by simp

lemma decodeKV_encBlob:
  "decodeKV key (encBlob c m v l val) =
     Some \<lparr>Key = key, Value = val, CreateRevision = wrap64 c, ModRevision = wrap64 m,
           Version = wrap64 v, Lease = wrap64 l\<rparr>"
  by (simp add: decodeKV_def encBlob_def int64_be_enc64 be_uint64_enc64 wrap64_mod
      int64_be_enc64[where rest = "[]", simplified])

lemma dec64_encBlob:
  "0 \<le> c \<Longrightarrow> c \<le> 2 ^ 53 \<Longrightarrow> dec64 (encBlob c m v l val) 1 = c"
  "0 \<le> m \<Longrightarrow> m \<le> 2 ^ 53 \<Longrightarrow> dec64 (encBlob c m v l val) 9 = m"
  "0 \<le> v \<Longrightarrow> v \<le> 2 ^ 53 \<Longrightarrow> dec64 (encBlob c m v l val) 17 = v"
  "0 \<le> l \<Longrightarrow> l \<le> 2 ^ 53 \<Longrightarrow> dec64 (encBlob c m v l val) 25 = l"
  using dec64_enc64[of c "[]" 1] dec64_enc64[of m "enc64 c" 9]
    dec64_enc64[of v "enc64 c @ enc64 m" 17] dec64_enc64[of l "enc64 c @ enc64 m @ enc64 v" 25]
  by (simp_all add: encBlob_def)

lemma decodeKV_None: "decodeKV key data = None \<longleftrightarrow> length data < 32"
  by (simp add: decodeKV_def)

lemma decodeKV_Key: "decodeKV key data = Some kv \<Longrightarrow> Key kv = key"
  by (auto simp: decodeKV_def split: if_splits)

lemma created_ms_sid:
  assumes "fst i < 2 ^ 63"
  shows "created_ms (sid_str i) = int (fst i)"
proof -
  have "takeWhile (\<lambda>x. x \<noteq> CHR ''-'') (sid_str i) = dec_nat (fst i)"
    using takeWhile_dec_nat by (simp add: sid_str_def)
  moreover have "CHR ''-'' \<in> set (sid_str i)" by (simp add: sid_str_def)
  moreover have "0 < length (dec_nat (fst i))" by simp
  moreover have "ParseInt (dec_nat (fst i)) = (int (fst i), None)"
    using assms by (simp add: ParseInt_def)
  moreover have "take (length (dec_nat (fst i))) (sid_str i) = dec_nat (fst i)"
    by (simp add: sid_str_def)
  ultimately show ?thesis by (simp add: created_ms_def IndexByte_def)
qed

end
