(* ===== verification/Scripts.thy ===== *)
theory Scripts
  imports Codec
begin

text \<open>
  The two Lua scripts, \<open>store/write.lua\<close> and \<open>store/txn.lua\<close>, over an arbitrary
  Redis \<open>R\<close>.  \<open>KEYS[1..4]\<close> are the arguments \<open>key\<close>, \<open>revk\<close>,
  \<open>strm\<close> and \<open>idx\<close>; \<open>ARGV\<close> are strings.  A failing \<open>redis.call\<close> stops
  the script and keeps what was written before it, which is what \<open>bindE\<close> does.  Lua's
  \<open>false\<close> for a nil reply is \<open>None\<close>.
\<close>

text \<open>\<open>tonumber(redis.call('GET', KEYS[2]) or '0') or 0\<close>\<close>

definition lua_counter :: "bytes option \<Rightarrow> int" where
  "lua_counter g = (case lua_tonumber (case g of Some s \<Rightarrow> s | None \<Rightarrow> ''0'') of
     Some n \<Rightarrow> n | None \<Rightarrow> 0)"

text \<open>\<open>'lease:keys:' .. lease\<close>, a number turned into a string by concatenation.\<close>

definition lua_lease_key :: "int \<Rightarrow> string" where
  "lua_lease_key l = ''lease:keys:'' @ lua_tostring l"

definition del_fields :: "bytes \<Rightarrow> int \<Rightarrow> bytes \<Rightarrow> (string \<times> bytes) list" where
  "del_fields k rv prev =
     [(''type'', ''DELETE''), (''key'', k), (''rev'', lua_tostring rv), (''prev_data'', prev)]"

definition put_fields :: "bytes \<Rightarrow> int \<Rightarrow> bytes \<Rightarrow> bytes option \<Rightarrow> (string \<times> bytes) list" where
  "put_fields k rv new prev =
     [(''type'', ''PUT''), (''key'', k), (''rev'', lua_tostring rv), (''data'', new)] @
     (case prev of Some p \<Rightarrow> [(''prev_data'', p)] | None \<Rightarrow> [])"

text \<open>
  The fields the scripts decode from the current value: its lease and, for a put, the create
  revision and version of the new value (\<open>write.lua\<close>); the create revision, modification
  revision and version (\<open>txn.lua\<close>).
\<close>

definition cur_lease_of :: "bytes option \<Rightarrow> int" where
  "cur_lease_of current_raw =
     (case current_raw of Some b \<Rightarrow> if 32 \<le> length b then dec64 b 25 else 0 | None \<Rightarrow> 0)"

definition put_meta :: "bytes option \<Rightarrow> int \<Rightarrow> int \<times> int" where
  "put_meta current_raw new_rev =
     (case current_raw of
        Some b \<Rightarrow> if 32 \<le> length b then (dec64 b 1, dbl (dec64 b 17 + 1)) else (new_rev, 1)
      | None \<Rightarrow> (new_rev, 1))"

definition txn_meta :: "bytes option \<Rightarrow> int \<times> int \<times> int" where
  "txn_meta current_raw =
     (case current_raw of
        Some b \<Rightarrow> if 32 \<le> length b then (dec64 b 1, dec64 b 9, dec64 b 17) else (0, 0, 0)
      | None \<Rightarrow> (0, 0, 0))"

text \<open>
  The compare step of \<open>txn.lua\<close>, and the create revision and version it gives a new value.
\<close>

definition txn_rejects :: "bytes option \<Rightarrow> string \<Rightarrow> bool" where
  "txn_rejects current_raw expectedArg =
     (let (_, current_mod_rev, _) = txn_meta current_raw; expected = lua_tonumber expectedArg
      in if expected = Some (- 1) then current_raw \<noteq> None else Some current_mod_rev \<noteq> expected)"

definition txn_put_meta :: "bytes option \<Rightarrow> int \<Rightarrow> int \<times> int" where
  "txn_put_meta current_raw new_rev =
     (let (current_create_rev, _, current_version) = txn_meta current_raw
      in (if current_raw \<noteq> None then current_create_rev else new_rev,
          if current_raw \<noteq> None then dbl (current_version + 1) else 1))"

text \<open>The global revision as a string, clamped to at least 1.\<close>

definition cur_global_rev :: "bytes option \<Rightarrow> string" where
  "cur_global_rev g = lua_tostring (if lua_counter g < 1 then 1 else lua_counter g)"

text \<open>\<open>tonumber(ARGV[n]) or 0\<close>\<close>

definition num_or_0 :: "string \<Rightarrow> int" where
  "num_or_0 a = (case lua_tonumber a of Some l \<Rightarrow> l | None \<Rightarrow> 0)"

definition write_lua ::
  "'d redis \<Rightarrow> string \<Rightarrow> string \<Rightarrow> string \<Rightarrow> string \<Rightarrow> string \<Rightarrow> bytes \<Rightarrow> string \<Rightarrow> ('d, rerr, reply list) cmd"
where
  "write_lua R key revk strm idx op val leaseArg =
     bindE (readE (r_GET R key)) (\<lambda>current_raw.
     let etcd_key = drop 3 key;
         cur_lease = cur_lease_of current_raw
     in if op = ''DELETE'' then
          (case current_raw of
             None \<Rightarrow>
               bindE (readE (r_GET R revk)) (\<lambda>g.
               retE [RBulk (lua_tostring (lua_counter g)), RBulk [], RBulk [], RBulk []])
           | Some b \<Rightarrow>
               bindE (r_INCR R revk) (\<lambda>n.
               let new_rev = dbl n in
               bindE (r_DEL R key) (\<lambda>_.
               bindE (r_ZREM R idx etcd_key) (\<lambda>_.
               bindE (if cur_lease \<noteq> 0 then r_SREM R (lua_lease_key cur_lease) etcd_key else retE ()) (\<lambda>_.
               bindE (r_XADD R strm (del_fields etcd_key new_rev b)) (\<lambda>sid.
               retE [RBulk (lua_tostring new_rev), RBulk b, RBulk [], RBulk sid]))))))
        else
          bindE (r_INCR R revk) (\<lambda>n.
          let new_rev = dbl n;
              (create_rev, version) = put_meta current_raw new_rev;
              lease = num_or_0 leaseArg;
              new_blob = encBlob create_rev new_rev version lease val
          in
          bindE (r_SET R key new_blob) (\<lambda>_.
          bindE (r_ZADD R idx etcd_key) (\<lambda>_.
          bindE (if cur_lease \<noteq> 0 \<and> cur_lease \<noteq> lease
                 then r_SREM R (lua_lease_key cur_lease) etcd_key else retE ()) (\<lambda>_.
          bindE (if lease \<noteq> 0 then r_SADD R (lua_lease_key lease) etcd_key else retE ()) (\<lambda>_.
          bindE (r_XADD R strm (put_fields etcd_key new_rev new_blob current_raw)) (\<lambda>sid.
          retE [RBulk (lua_tostring new_rev),
                RBulk (case current_raw of Some b \<Rightarrow> b | None \<Rightarrow> []),
                RBulk new_blob, RBulk sid])))))))"

text \<open>
  \<open>txn.lua\<close>.  The delete branch passes \<open>current_raw\<close> to \<open>XADD\<close> without asking
  whether it is \<open>false\<close>; \<open>redis.call\<close> refuses an argument that is neither a string
  nor an integer, after the counter, the key and the index have been changed.
\<close>

definition txn_lua ::
  "'d redis \<Rightarrow> string \<Rightarrow> string \<Rightarrow> string \<Rightarrow> string \<Rightarrow> string \<Rightarrow> bytes \<Rightarrow> string \<Rightarrow> string \<Rightarrow> ('d, rerr, reply list) cmd"
where
  "txn_lua R key revk strm idx expectedArg val op leaseArg =
     bindE (readE (r_GET R revk)) (\<lambda>g.
     bindE (readE (r_GET R key)) (\<lambda>current_raw.
     let current = (case current_raw of Some b \<Rightarrow> b | None \<Rightarrow> [])
     in if txn_rejects current_raw expectedArg
        then retE [RInt 0, RBulk current, RBulk (cur_global_rev g)]
        else
          bindE (r_INCR R revk) (\<lambda>n.
          let new_rev = dbl n; etcd_key = drop 3 key in
          if op = ''DELETE'' then
            bindE (r_DEL R key) (\<lambda>_.
            bindE (r_ZREM R idx etcd_key) (\<lambda>_.
            case current_raw of
              None \<Rightarrow> failE BadArgument
            | Some b \<Rightarrow>
                bindE (r_XADD R strm (del_fields etcd_key new_rev b)) (\<lambda>sid.
                retE [RInt 1, RBulk current, RBulk (lua_tostring new_rev), RBulk [], RBulk sid])))
          else
            let (create_rev, version) = txn_put_meta current_raw new_rev;
                lease = num_or_0 leaseArg;
                new_blob = encBlob create_rev new_rev version lease val
            in
            bindE (r_SET R key new_blob) (\<lambda>_.
            bindE (r_ZADD R idx etcd_key) (\<lambda>_.
            bindE (r_XADD R strm (put_fields etcd_key new_rev new_blob current_raw)) (\<lambda>sid.
            retE [RInt 1, RBulk current, RBulk (lua_tostring new_rev), RBulk new_blob, RBulk sid]))))))"

lemma lua_counter_format: "0 \<le> n \<Longrightarrow> n \<le> 2 ^ 53 \<Longrightarrow> lua_counter (Some (format_int n)) = n"
  by (simp add: lua_counter_def lua_tonumber_format_int dbl_exact)

end
