(* ===== verification/StoreSpec.thy ===== *)
theory StoreSpec
  imports Scripts
begin

text \<open>
  The abstract store: what the Redis-backed store promises its callers, without blobs, scripts or
  Redis types.  \<open>mvcc\<close> holds the current value of every key, the revision counter, the log
  of all changes and, for every lease, the keys attached to it.  \<open>mvcc_put\<close>,
  \<open>mvcc_delete\<close> and \<open>mvcc_cas\<close> are the three ways to change it.

  \<open>mvcc_inv\<close> is its invariant: the log holds exactly one event per revision, in revision
  order, every event has the shape of its type, and the current values are what replaying the log gives.
\<close>

section \<open>The abstract state and its operations\<close>

record mvcc =
  m_kv :: "bytes \<rightharpoonup> KeyValue"
  m_rev :: int
  m_log :: "Event list"
  m_att :: "int \<Rightarrow> bytes set"

text \<open>An event without the stream ID and time stamp the server picks.\<close>

definition strip :: "Event \<Rightarrow> Event" where
  "strip ev = ev\<lparr>EvCreatedMs := 0, EvID := []\<rparr>"

definition mk_event :: "string \<Rightarrow> bytes \<Rightarrow> int \<Rightarrow> KeyValue option \<Rightarrow> KeyValue option \<Rightarrow> Event" where
  "mk_event typ k rv new prev =
     \<lparr>EvType = typ, EvKey = k, EvRev = rv, EvKV = new, EvPrevKV = prev, EvCreatedMs = 0, EvID = []\<rparr>"

definition lease_of :: "KeyValue option \<Rightarrow> int" where
  "lease_of kv = (case kv of Some v \<Rightarrow> Lease v | None \<Rightarrow> 0)"

text \<open>Moving a key from one lease to another; lease 0 is no lease.\<close>

definition att_move :: "bytes \<Rightarrow> int \<Rightarrow> int \<Rightarrow> (int \<Rightarrow> bytes set) \<Rightarrow> (int \<Rightarrow> bytes set)" where
  "att_move k src dst att =
     (let att' = (if src \<noteq> 0 \<and> src \<noteq> dst then att(src := att src - {k}) else att)
      in if dst \<noteq> 0 then att'(dst := insert k (att' dst)) else att')"

definition next_kv :: "bytes \<Rightarrow> bytes \<Rightarrow> int \<Rightarrow> mvcc \<Rightarrow> KeyValue" where
  "next_kv k v l m =
     \<lparr>Key = k, Value = v,
      CreateRevision = (case m_kv m k of Some old \<Rightarrow> CreateRevision old | None \<Rightarrow> m_rev m + 1),
      ModRevision = m_rev m + 1,
      Version = (case m_kv m k of Some old \<Rightarrow> Version old + 1 | None \<Rightarrow> 1),
      Lease = l\<rparr>"

definition mvcc_write :: "bytes \<Rightarrow> bytes \<Rightarrow> int \<Rightarrow> mvcc \<Rightarrow> mvcc" where
  "mvcc_write k v l m =
     m\<lparr>m_kv := (m_kv m)(k \<mapsto> next_kv k v l m), m_rev := m_rev m + 1,
       m_log := m_log m @ [mk_event ''PUT'' k (m_rev m + 1) (Some (next_kv k v l m)) (m_kv m k)]\<rparr>"

definition mvcc_put :: "bytes \<Rightarrow> bytes \<Rightarrow> int \<Rightarrow> mvcc \<Rightarrow> mvcc" where
  "mvcc_put k v l m = (mvcc_write k v l m)\<lparr>m_att := att_move k (lease_of (m_kv m k)) l (m_att m)\<rparr>"

definition mvcc_remove :: "bytes \<Rightarrow> mvcc \<Rightarrow> mvcc" where
  "mvcc_remove k m =
     m\<lparr>m_kv := (m_kv m)(k := None), m_rev := m_rev m + 1,
       m_log := m_log m @ [mk_event ''DELETE'' k (m_rev m + 1) None (m_kv m k)]\<rparr>"

definition mvcc_delete :: "bytes \<Rightarrow> mvcc \<Rightarrow> mvcc" where
  "mvcc_delete k m =
     (case m_kv m k of None \<Rightarrow> m
      | Some old \<Rightarrow> (mvcc_remove k m)\<lparr>m_att := att_move k (Lease old) 0 (m_att m)\<rparr>)"

text \<open>
  Compare-and-swap.  \<open>expected = -1\<close> asks for an absent key, any other value for that
  modification revision (0 for an absent key).  The write does not touch the lease attachments:
  \<open>txn.lua\<close> has no counterpart of the \<open>SADD\<close>/\<open>SREM\<close> of \<open>write.lua\<close>.
\<close>

definition mod_of :: "KeyValue option \<Rightarrow> int" where
  "mod_of kv = (case kv of Some v \<Rightarrow> ModRevision v | None \<Rightarrow> 0)"

definition cas_ok :: "int \<Rightarrow> KeyValue option \<Rightarrow> bool" where
  "cas_ok expected cur = (if expected = - 1 then cur = None else mod_of cur = expected)"

definition mvcc_cas :: "bytes \<Rightarrow> int \<Rightarrow> bytes \<Rightarrow> int \<Rightarrow> mvcc \<Rightarrow> mvcc" where
  "mvcc_cas k expected v l m = (if cas_ok expected (m_kv m k) then mvcc_write k v l m else m)"

section \<open>The invariant\<close>

text \<open>Replaying the log: the value of a key is the one of its last event.\<close>

definition replay_step :: "(bytes \<rightharpoonup> KeyValue) \<Rightarrow> Event \<Rightarrow> (bytes \<rightharpoonup> KeyValue)" where
  "replay_step s ev = s(EvKey ev := EvKV ev)"

definition replay :: "Event list \<Rightarrow> (bytes \<rightharpoonup> KeyValue)" where
  "replay log = foldl replay_step Map.empty log"

definition kv_ok :: "int \<Rightarrow> bytes \<Rightarrow> KeyValue \<Rightarrow> bool" where
  "kv_ok n k kv \<longleftrightarrow> Key kv = k \<and> 1 \<le> CreateRevision kv \<and> CreateRevision kv \<le> ModRevision kv \<and>
     ModRevision kv \<le> n \<and> 1 \<le> Version kv \<and>
     Version kv \<le> ModRevision kv - CreateRevision kv + 1 \<and> 0 \<le> Lease kv \<and> Lease kv < 10 ^ 14"

text \<open>A PUT event carries the new value of its key, stamped with its revision, a DELETE event none.\<close>

definition typed_event :: "Event \<Rightarrow> bool" where
  "typed_event ev \<longleftrightarrow>
     EvType ev = ''PUT'' \<and> (\<exists>kv. EvKV ev = Some kv \<and> Key kv = EvKey ev \<and> ModRevision kv = EvRev ev) \<or>
     EvType ev = ''DELETE'' \<and> EvKV ev = None"

definition mvcc_inv :: "mvcc \<Rightarrow> bool" where
  "mvcc_inv m \<longleftrightarrow>
     0 \<le> m_rev m \<and> m_rev m \<le> rev_limit \<and>
     map EvRev (m_log m) = [1..m_rev m] \<and> list_all typed_event (m_log m) \<and>
     m_kv m = replay (m_log m) \<and>
     (\<forall>k kv. m_kv m k = Some kv \<longrightarrow> kv_ok (m_rev m) k kv)"

definition lease_ok :: "int \<Rightarrow> bool" where
  "lease_ok l \<longleftrightarrow> 0 \<le> l \<and> l < 10 ^ 14"

lemma replay_snoc: "replay (log @ [ev]) = (replay log)(EvKey ev := EvKV ev)"
  by (simp add: replay_def replay_step_def)

lemma upto_snoc: "0 \<le> n \<Longrightarrow> [1..n] @ [n + 1] = [1..n + 1]"
  using upto_rec2[of 1 "n + 1"] by simp

lemma kv_ok_mono: "kv_ok n k kv \<Longrightarrow> n \<le> n' \<Longrightarrow> kv_ok n' k kv"
  by (auto simp: kv_ok_def)

lemma kv_ok_Suc [intro]: "kv_ok n k kv \<Longrightarrow> kv_ok (n + 1) k kv"
  by (rule kv_ok_mono) auto

lemma mvcc_invD: "mvcc_inv m \<Longrightarrow> m_kv m k = Some kv \<Longrightarrow> kv_ok (m_rev m) k kv"
  by (simp add: mvcc_inv_def)

lemma next_kv_ok:
  assumes "mvcc_inv m" and "lease_ok l"
  shows "kv_ok (m_rev m + 1) k (next_kv k v l m)"
proof (cases "m_kv m k")
  case None
  with assms show ?thesis by (simp add: mvcc_inv_def kv_ok_def next_kv_def lease_ok_def)
next
  case (Some old)
  with assms(1) have "kv_ok (m_rev m) k old" by (rule mvcc_invD)
  with Some assms(2) show ?thesis by (auto simp: kv_ok_def next_kv_def lease_ok_def)
qed

lemma mvcc_write_inv:
  assumes "mvcc_inv m" and "m_rev m < rev_limit" and "lease_ok l"
  shows "mvcc_inv (mvcc_write k v l m)"
  using assms next_kv_ok[OF assms(1,3), of k v] upto_snoc[of "m_rev m"]
  by (auto simp: mvcc_inv_def mvcc_write_def mk_event_def replay_snoc typed_event_def next_kv_def)

lemma mvcc_remove_inv:
  assumes "mvcc_inv m" and "m_rev m < rev_limit"
  shows "mvcc_inv (mvcc_remove k m)"
  using assms upto_snoc[of "m_rev m"]
  by (auto simp: mvcc_inv_def mvcc_remove_def mk_event_def replay_snoc typed_event_def)

lemma mvcc_inv_att: "mvcc_inv (m\<lparr>m_att := a\<rparr>) = mvcc_inv m"
  by (simp add: mvcc_inv_def)

lemma mvcc_put_inv:
  "mvcc_inv m \<Longrightarrow> m_rev m < rev_limit \<Longrightarrow> lease_ok l \<Longrightarrow> mvcc_inv (mvcc_put k v l m)"
  by (simp add: mvcc_put_def mvcc_inv_att mvcc_write_inv)

lemma mvcc_delete_inv: "mvcc_inv m \<Longrightarrow> m_rev m < rev_limit \<Longrightarrow> mvcc_inv (mvcc_delete k m)"
  by (auto simp: mvcc_delete_def mvcc_inv_att mvcc_remove_inv split: option.splits)

lemma mvcc_cas_inv:
  "mvcc_inv m \<Longrightarrow> m_rev m < rev_limit \<Longrightarrow> lease_ok l \<Longrightarrow> mvcc_inv (mvcc_cas k e v l m)"
  by (simp add: mvcc_cas_def mvcc_write_inv)

section \<open>Deleting several keys\<close>

lemma fold_delete:
  assumes "distinct ks" and "\<forall>k\<in>set ks. m_kv m k \<noteq> None"
  shows "m_kv (fold mvcc_delete ks m) = (\<lambda>k. if k \<in> set ks then None else m_kv m k) \<and>
    m_rev (fold mvcc_delete ks m) = m_rev m + int (length ks) \<and>
    map EvKey (m_log (fold mvcc_delete ks m)) = map EvKey (m_log m) @ ks"
  using assms
proof (induction ks arbitrary: m)
  case (Cons k ks)
  then obtain old where old: "m_kv m k = Some old" by auto
  then have d: "m_kv (mvcc_delete k m) = (m_kv m)(k := None)" "m_rev (mvcc_delete k m) = m_rev m + 1"
    "map EvKey (m_log (mvcc_delete k m)) = map EvKey (m_log m) @ [k]"
    by (simp_all add: mvcc_delete_def mvcc_remove_def mk_event_def)
  from Cons.prems have "distinct ks" "\<forall>x\<in>set ks. m_kv (mvcc_delete k m) x \<noteq> None" by (auto simp: d)
  with Cons.IH[of "mvcc_delete k m"] d show ?case by (auto simp: fun_eq_iff)
qed simp

lemma m_rev_delete_le: "m_rev (mvcc_delete k m) \<le> m_rev m + 1"
  by (simp add: mvcc_delete_def mvcc_remove_def split: option.splits)

lemma Key_stored: "mvcc_inv m \<Longrightarrow> m_kv m k = Some kv \<Longrightarrow> Key kv = k"
  using mvcc_invD[of m k kv] by (simp add: kv_ok_def)

section \<open>Lease attachments\<close>

text \<open>
  The attachment sets agree with the leases in the values.  Puts and deletes keep this; a
  compare-and-swap does not.
\<close>

definition att_inv :: "mvcc \<Rightarrow> bool" where
  "att_inv m \<longleftrightarrow> (\<forall>k l. l \<noteq> 0 \<longrightarrow> (k \<in> m_att m l \<longleftrightarrow> lease_of (m_kv m k) = l))"

lemma att_inv_put: "att_inv m \<Longrightarrow> att_inv (mvcc_put k v l m)"
  by (auto simp: att_inv_def mvcc_put_def mvcc_write_def att_move_def lease_of_def next_kv_def Let_def)

lemma att_inv_delete: "att_inv m \<Longrightarrow> att_inv (mvcc_delete k m)"
  by (auto simp: att_inv_def mvcc_delete_def mvcc_remove_def att_move_def lease_of_def split: option.splits)

lemma att_inv_fold_delete: "att_inv m \<Longrightarrow> att_inv (fold mvcc_delete ks m)"
  by (induction ks arbitrary: m) (simp_all add: att_inv_delete)

lemma att_present: "att_inv m \<Longrightarrow> l \<noteq> 0 \<Longrightarrow> k \<in> m_att m l \<Longrightarrow> m_kv m k \<noteq> None"
  by (auto simp: att_inv_def lease_of_def split: option.splits)

text \<open>Deleting present keys trades each for one revision.\<close>

definition budget :: "mvcc \<Rightarrow> int" where
  "budget m = m_rev m + int (card (dom (m_kv m)))"

lemma budget_delete:
  assumes "finite (dom (m_kv m))"
  shows "budget (mvcc_delete k m) = budget m"
proof (cases "m_kv m k")
  case (Some old)
  then have "card (dom (m_kv m)) = Suc (card (dom (m_kv m) - {k}))"
    using assms by (intro card.remove) auto
  with Some show ?thesis by (simp add: budget_def mvcc_delete_def mvcc_remove_def)
qed (simp add: budget_def mvcc_delete_def)

end
