(* ===== verification/StoreState.thy ===== *)
theory StoreState
  imports StoreSpec
begin

text \<open>
  How the store lies in the Redis keyspace (the key names of \<open>store/redis.go\<close> and
  \<open>store/lease.go\<close>), the representation invariant \<open>rep_ok\<close> of that layout, the
  abstraction \<open>abs\<close> from a keyspace to the abstract store, and what one run of a write script
  does to the keyspace (\<open>ks_commit\<close>) and hence to the abstract store.
\<close>

section \<open>Layout\<close>

definition revisionKey :: string where
  "revisionKey = ''global:revision''"

definition eventStream :: string where
  "eventStream = ''events''"

definition keyIndex :: string where
  "keyIndex = ''keyindex''"

definition redisKey :: "bytes \<Rightarrow> string" where
  "redisKey key = ''kv:'' @ key"

definition lk :: "string \<Rightarrow> string" where
  "lk x = ''lease:keys:'' @ x"

definition leaseKeysSetKey :: "int \<Rightarrow> string" where
  "leaseKeysSetKey l = lk (format_int l)"

definition rev_of :: "keyspace \<Rightarrow> int" where
  "rev_of s = (case as_str (vals s revisionKey) of None \<Rightarrow> 0
     | Some v \<Rightarrow> (case dec_val v of Some n \<Rightarrow> n | None \<Rightarrow> 0))"

definition raw_of :: "keyspace \<Rightarrow> bytes \<Rightarrow> bytes option" where
  "raw_of s k = as_str (vals s (redisKey k))"

definition kv_at :: "keyspace \<Rightarrow> bytes \<Rightarrow> KeyValue option" where
  "kv_at s k = (case raw_of s k of Some b \<Rightarrow> decodeKV k b | None \<Rightarrow> None)"

definition stream_of :: "keyspace \<Rightarrow> entry list" where
  "stream_of s = as_stream (vals s eventStream)"

definition entry_event :: "entry \<Rightarrow> Event" where
  "entry_event e = projr (parseStreamEvent (xmessage e))"

definition abs_store :: "keyspace \<Rightarrow> mvcc" where
  "abs_store s = \<lparr>m_kv = kv_at s, m_rev = rev_of s,
     m_log = map (strip \<circ> entry_event) (stream_of s),
     m_att = (\<lambda>l. as_set (vals s (leaseKeysSetKey l)))\<rparr>"

definition entry_ok :: "entry \<Rightarrow> bool" where
  "entry_ok e \<longleftrightarrow> (0, 0) < fst e \<and> \<not> isl (parseStreamEvent (xmessage e))"

definition rep_ok :: "keyspace \<Rightarrow> bool" where
  "rep_ok s \<longleftrightarrow>
     vals s revisionKey = Some (RString (format_int (rev_of s))) \<and>
     (\<forall>k. is_str (vals s (redisKey k)) \<and> (\<forall>b. raw_of s k = Some b \<longrightarrow> 32 \<le> length b)) \<and>
     is_zset (vals s keyIndex) \<and> finite (as_zset (vals s keyIndex)) \<and>
     as_zset (vals s keyIndex) = {k. raw_of s k \<noteq> None} \<and>
     is_stream (vals s eventStream) \<and> sorted_wrt (<) (map fst (stream_of s)) \<and>
     list_all entry_ok (stream_of s) \<and>
     (\<forall>x. is_set (vals s (lk x)) \<and> finite (as_set (vals s (lk x))))"

definition store_inv :: "keyspace \<Rightarrow> bool" where
  "store_inv s \<longleftrightarrow> rep_ok s \<and> mvcc_inv (abs_store s)"

text \<open>The keyspace of a new database after \<open>NewRedisStore\<close>.\<close>

definition init_keyspace :: keyspace where
  "init_keyspace = \<lparr>vals = [revisionKey \<mapsto> RString (format_int 0)], ttls = Map.empty\<rparr>"

section \<open>One committed write\<close>

definition lease_ks :: "bytes \<Rightarrow> int \<Rightarrow> int \<Rightarrow> keyspace \<Rightarrow> keyspace" where
  "lease_ks k src dst s =
     (let s' = (if src \<noteq> 0 \<and> src \<noteq> dst
                then ks_set (lua_lease_key src) (as_set (vals s (lua_lease_key src)) - {k}) s else s)
      in if dst \<noteq> 0 then ks_set (lua_lease_key dst) (insert k (as_set (vals s' (lua_lease_key dst)))) s' else s')"

definition ks_commit :: "bytes \<Rightarrow> bytes option \<Rightarrow> int \<Rightarrow> int \<Rightarrow> entry \<Rightarrow> keyspace \<Rightarrow> keyspace" where
  "ks_commit k nb src dst e s =
     (let s1 = ks_upd revisionKey (RString (format_int (rev_of s + 1))) s;
          s2 = (case nb of
                  Some b \<Rightarrow> ks_zset keyIndex (insert k (as_zset (vals s keyIndex))) (ks_put (redisKey k) (RString b) s1)
                | None \<Rightarrow> ks_zset keyIndex (as_zset (vals s keyIndex) - {k}) (ks_del (redisKey k) s1));
          s3 = lease_ks k src dst s2
      in ks_upd eventStream (RStream (stream_of s @ [e])) s3)"

section \<open>Distinct keys\<close>

lemmas key_defs = revisionKey_def eventStream_def keyIndex_def redisKey_def leaseKeysSetKey_def
  lua_lease_key_def lk_def

lemma keys_distinct [simp]:
  "redisKey k \<noteq> revisionKey" "redisKey k \<noteq> eventStream" "redisKey k \<noteq> keyIndex"
  "redisKey k \<noteq> leaseKeysSetKey l" "redisKey k \<noteq> lua_lease_key l"
  "redisKey k \<noteq> lk x"
  "revisionKey \<noteq> redisKey k" "eventStream \<noteq> redisKey k" "keyIndex \<noteq> redisKey k"
  "leaseKeysSetKey l \<noteq> redisKey k" "lua_lease_key l \<noteq> redisKey k"
  "lk x \<noteq> redisKey k"
  "revisionKey \<noteq> eventStream" "revisionKey \<noteq> keyIndex" "eventStream \<noteq> keyIndex"
  "eventStream \<noteq> revisionKey" "keyIndex \<noteq> revisionKey" "keyIndex \<noteq> eventStream"
  "revisionKey \<noteq> leaseKeysSetKey l" "eventStream \<noteq> leaseKeysSetKey l" "keyIndex \<noteq> leaseKeysSetKey l"
  "leaseKeysSetKey l \<noteq> revisionKey" "leaseKeysSetKey l \<noteq> eventStream" "leaseKeysSetKey l \<noteq> keyIndex"
  "revisionKey \<noteq> lua_lease_key l" "eventStream \<noteq> lua_lease_key l" "keyIndex \<noteq> lua_lease_key l"
  "lua_lease_key l \<noteq> revisionKey" "lua_lease_key l \<noteq> eventStream" "lua_lease_key l \<noteq> keyIndex"
  "revisionKey \<noteq> lk x" "eventStream \<noteq> lk x" "keyIndex \<noteq> lk x"
  "lk x \<noteq> revisionKey" "lk x \<noteq> eventStream" "lk x \<noteq> keyIndex"
  by (simp_all add: key_defs)

lemma redisKey_inject [simp]: "redisKey a = redisKey b \<longleftrightarrow> a = b"
  by (simp add: redisKey_def)

lemma lk_inject [simp]: "lk a = lk b \<longleftrightarrow> a = b"
  by (simp add: lk_def)

lemma leaseKeysSetKey_inject [simp]: "leaseKeysSetKey a = leaseKeysSetKey b \<longleftrightarrow> a = b"
  by (simp add: leaseKeysSetKey_def)

lemma lua_lease_key_lk: "lua_lease_key l = lk (lua_tostring l)"
  by (simp add: lua_lease_key_def lk_def)

lemma drop_redisKey [simp]: "drop 3 (redisKey k) = k"
  by (simp add: redisKey_def)

lemma lua_lease_key_exact: "lease_ok l \<Longrightarrow> lua_lease_key l = leaseKeysSetKey l"
  by (simp add: lua_lease_key_lk leaseKeysSetKey_def lease_ok_def lua_tostring_exact)

section \<open>The Lua decoder on stored blobs\<close>

lemma of_char_nonneg [simp]: "0 \<le> (of_char c :: int)"
  by (metis of_nat_0_le_iff of_nat_of_char)

lemma of_char_less [simp]: "(of_char c :: int) < 256"
  using nat_of_char_less_256[of c] by (metis of_nat_less_numeral_iff of_nat_of_char)

lemma foldl_be_bounds:
  "0 \<le> foldl (\<lambda>v c. v * 256 + of_char c) (0 :: int) xs \<and>
   foldl (\<lambda>v c. v * 256 + of_char c) (0 :: int) xs < 256 ^ length xs"
proof (induction xs rule: rev_induct)
  case (snoc x xs)
  define v where "v = foldl (\<lambda>v c. v * 256 + of_char c) (0 :: int) xs"
  define p where "p = (256 :: int) ^ length xs"
  have "0 \<le> v" "v < p" using snoc by (simp_all add: v_def p_def)
  then have "0 \<le> v * 256 + of_char x \<and> v * 256 + of_char x < 256 * p"
    using of_char_nonneg[of x] of_char_less[of x] by linarith
  then show ?case by (simp add: v_def p_def)
qed simp

lemma foldl_dbl_be:
  "foldl (\<lambda>v c. v * 256 + of_char c) (0 :: int) xs \<le> 2 ^ 53 \<Longrightarrow>
   foldl (\<lambda>v c. dbl (v * 256 + of_char c)) 0 xs = foldl (\<lambda>v c. v * 256 + of_char c) 0 xs"
proof (induction xs rule: rev_induct)
  case (snoc x xs)
  let ?v = "foldl (\<lambda>v c. v * 256 + of_char c) (0 :: int) xs"
  have v: "0 \<le> ?v" using foldl_be_bounds by blast
  moreover have "?v * 256 + of_char x \<le> 2 ^ 53" using snoc.prems by simp
  moreover from this v have "?v \<le> 2 ^ 53" using of_char_nonneg[of x] by linarith
  ultimately show ?case using snoc.IH by (simp add: dbl_exact)
qed simp

lemma wrap64_nonneg:
  assumes "0 \<le> u" and "u < 2 ^ 64" and "0 \<le> wrap64 u"
  shows "wrap64 u = u"
proof (cases "u < 2 ^ 63")
  case False
  have "(u + 2 ^ 63) mod 2 ^ 64 = ((u - 2 ^ 63) + 2 ^ 64) mod 2 ^ 64" by (simp add: add.commute)
  also have "\<dots> = u - 2 ^ 63" using False assms(2) by (simp only: mod_add_self2) simp
  finally have "wrap64 u < 0" using assms(2) by (simp add: wrap64_def)
  with assms(3) show ?thesis by simp
qed (use assms(1) in \<open>simp add: wrap64_def\<close>)

lemma dec64_field:
  assumes "wrap64 (be_uint64 (take 8 (drop n b))) = r" and "0 \<le> r" and "r \<le> 2 ^ 53" and "n + 8 \<le> length b"
  shows "dec64 b (Suc n) = r"
proof -
  let ?u = "foldl (\<lambda>v c. v * 256 + of_char c) (0 :: int) (take 8 (drop n b))"
  have u: "be_uint64 (take 8 (drop n b)) = ?u" by (simp add: be_uint64_def)
  have "0 \<le> ?u" "?u < 2 ^ 64" using foldl_be_bounds[of "take 8 (drop n b)"] assms(4) by simp_all
  with assms u have "?u = r" using wrap64_nonneg[of ?u] by simp
  with assms(3) show ?thesis using foldl_dbl_be[of "take 8 (drop n b)"] by (simp add: dec64_def)
qed

lemma decodeKV_fields:
  assumes "decodeKV k b = Some kv"
  shows "wrap64 (be_uint64 (take 8 (drop 0 b))) = CreateRevision kv"
    and "wrap64 (be_uint64 (take 8 (drop 8 b))) = ModRevision kv"
    and "wrap64 (be_uint64 (take 8 (drop 16 b))) = Version kv"
    and "wrap64 (be_uint64 (take 8 (drop 24 b))) = Lease kv"
    and "32 \<le> length b" and "Value kv = drop 32 b"
  using assms by (auto simp: decodeKV_def split: if_splits)

lemma dec64_decodeKV:
  assumes "decodeKV k b = Some kv" and "kv_ok n k kv" and "n \<le> rev_limit"
  shows "dec64 b (Suc 0) = CreateRevision kv" and "dec64 b 9 = ModRevision kv"
    and "dec64 b 17 = Version kv" and "dec64 b 25 = Lease kv"
  using dec64_field[OF decodeKV_fields(1)[OF assms(1)]] dec64_field[OF decodeKV_fields(2)[OF assms(1)]]
    dec64_field[OF decodeKV_fields(3)[OF assms(1)]] dec64_field[OF decodeKV_fields(4)[OF assms(1)]]
    decodeKV_fields(5)[OF assms(1)] assms(2,3)
  by (simp_all add: kv_ok_def rev_limit_def)

section \<open>What a commit changes\<close>

lemma vals_lease_ks_other [simp]:
  "(\<And>l. x \<noteq> lua_lease_key l) \<Longrightarrow> vals (lease_ks k src dst s) x = vals s x"
  by (simp add: lease_ks_def Let_def)

lemma lease_ks_none [simp]: "lease_ks k 0 0 s = s"
  by (simp add: lease_ks_def)

lemma is_set_ks_set: "is_set (vals s x) \<Longrightarrow> is_set (vals (ks_set y S s) x)"
  by (cases "x = y") auto

lemma finite_ks_set: "finite (as_set (vals s x)) \<Longrightarrow> finite S \<Longrightarrow> finite (as_set (vals (ks_set y S s) x))"
  by (cases "x = y") auto

lemma lease_ks_sets:
  assumes "\<And>x. is_set (vals s (lk x)) \<and> finite (as_set (vals s (lk x)))"
  shows "is_set (vals (lease_ks k src dst s) (lk x)) \<and>
    finite (as_set (vals (lease_ks k src dst s) (lk x)))"
proof -
  have f: "finite (as_set (vals s (lua_lease_key l)))" for l
    using assms by (simp add: lua_lease_key_lk)
  show ?thesis
    using assms f by (auto simp: lease_ks_def Let_def intro!: is_set_ks_set finite_ks_set)
qed

lemma att_lease_ks:
  assumes "lease_ok src" and "lease_ok dst"
  shows "(\<lambda>l. as_set (vals (lease_ks k src dst s) (leaseKeysSetKey l))) =
    att_move k src dst (\<lambda>l. as_set (vals s (leaseKeysSetKey l)))"
proof
  fix l
  show "as_set (vals (lease_ks k src dst s) (leaseKeysSetKey l)) =
    att_move k src dst (\<lambda>l. as_set (vals s (leaseKeysSetKey l))) l"
    by (cases "l = src"; cases "l = dst"; cases "src = dst"; cases "dst = 0")
      (simp_all add: lease_ks_def att_move_def Let_def lua_lease_key_exact[OF assms(1)]
        lua_lease_key_exact[OF assms(2)])
qed

lemma vals_ks_commit [simp]:
  "vals (ks_commit k nb src dst e s) revisionKey = Some (RString (format_int (rev_of s + 1)))"
  "vals (ks_commit k nb src dst e s) eventStream = Some (RStream (stream_of s @ [e]))"
  "vals (ks_commit k nb src dst e s) (redisKey k') =
     (if k' = k then map_option RString nb else vals s (redisKey k'))"
  by (auto simp: ks_commit_def Let_def split: option.splits)

lemma keyIndex_ks_commit [simp]:
  "is_zset (vals (ks_commit k nb src dst e s) keyIndex)"
  "as_zset (vals (ks_commit k nb src dst e s) keyIndex) =
     (case nb of Some b \<Rightarrow> insert k (as_zset (vals s keyIndex)) | None \<Rightarrow> as_zset (vals s keyIndex) - {k})"
  by (auto simp: ks_commit_def Let_def split: option.splits)

lemma raw_of_commit [simp]: "raw_of (ks_commit k nb src dst e s) k' = (if k' = k then nb else raw_of s k')"
  by (cases nb) (simp_all add: raw_of_def)

lemma rev_of_commit [simp]: "rev_of (ks_commit k nb src dst e s) = rev_of s + 1"
  by (simp add: rev_of_def)

lemma stream_of_commit [simp]: "stream_of (ks_commit k nb src dst e s) = stream_of s @ [e]"
  by (simp add: stream_of_def)

lemma lease_ks_cong:
  "(\<And>y. vals t (lk y) = vals s (lk y)) \<Longrightarrow> vals (lease_ks k src dst t) (lk x) = vals (lease_ks k src dst s) (lk x)"
  by (simp add: lease_ks_def Let_def ks_set_def lua_lease_key_lk)

lemma vals_lease_commit:
  "vals (ks_commit k nb src dst e s) (lk x) = vals (lease_ks k src dst s) (lk x)"
  by (auto simp: ks_commit_def Let_def split: option.splits intro!: lease_ks_cong)

lemma rep_ok_commit:
  assumes "rep_ok s" and "entry_ok e" and "\<forall>x\<in>set (stream_of s). fst x < fst e"
    and "\<And>b. nb = Some b \<Longrightarrow> 32 \<le> length b"
  shows "rep_ok (ks_commit k nb src dst e s)"
proof -
  have "is_set (vals (ks_commit k nb src dst e s) (lk x)) \<and>
      finite (as_set (vals (ks_commit k nb src dst e s) (lk x)))" for x
    unfolding vals_lease_commit
    by (rule lease_ks_sets) (use assms(1) in \<open>simp add: rep_ok_def\<close>)
  moreover have "is_str (vals (ks_commit k nb src dst e s) (redisKey k'))" for k'
    using assms(1) by (cases nb) (auto simp: rep_ok_def)
  ultimately show ?thesis
    using assms by (auto simp: rep_ok_def sorted_wrt_append split: option.splits if_splits)
qed

lemma abs_store_commit:
  assumes "lease_ok src" and "lease_ok dst" and "parseStreamEvent (xmessage e) = Inr ev"
  shows "abs_store (ks_commit k nb src dst e s) =
    \<lparr>m_kv = (kv_at s)(k := case nb of Some b \<Rightarrow> decodeKV k b | None \<Rightarrow> None),
     m_rev = rev_of s + 1,
     m_log = m_log (abs_store s) @ [strip ev],
     m_att = att_move k src dst (m_att (abs_store s))\<rparr>"
proof -
  have "m_att (abs_store (ks_commit k nb src dst e s)) = att_move k src dst (m_att (abs_store s))"
    using att_lease_ks[OF assms(1,2), of k s]
    by (simp add: abs_store_def leaseKeysSetKey_def vals_lease_commit)
  then show ?thesis
    using assms(3) by (auto simp: abs_store_def kv_at_def entry_event_def split: option.splits)
qed

end
