(* ===== verification/ScriptFacts.thy ===== *)
theory ScriptFacts
  imports StoreState
begin

text \<open>
  What a run of \<open>write.lua\<close> or \<open>txn.lua\<close> returns and leaves behind, on any Redis that
  obeys the laws and holds a store in good order.
\<close>

section \<open>Stream entries read back\<close>

lemma field_names [simp]:
  "map_of (rev (put_fields k rv new prev)) ''type'' = Some ''PUT''"
  "map_of (rev (put_fields k rv new prev)) ''key'' = Some k"
  "map_of (rev (put_fields k rv new prev)) ''rev'' = Some (lua_tostring rv)"
  "map_of (rev (put_fields k rv new prev)) ''data'' = Some new"
  "map_of (rev (put_fields k rv new prev)) ''prev_data'' = prev"
  "map_of (rev (del_fields k rv old)) ''type'' = Some ''DELETE''"
  "map_of (rev (del_fields k rv old)) ''key'' = Some k"
  "map_of (rev (del_fields k rv old)) ''rev'' = Some (lua_tostring rv)"
  "map_of (rev (del_fields k rv old)) ''data'' = None"
  "map_of (rev (del_fields k rv old)) ''prev_data'' = Some old"
  by (auto simp: put_fields_def del_fields_def split: option.splits)

lemma parse_put_fields:
  assumes "\<bar>rv\<bar> < 10 ^ 14"
  shows "parseStreamEvent (xmessage (i, put_fields k rv new prev)) =
    Inr (makeEvent ''PUT'' k rv new (case prev of Some p \<Rightarrow> p | None \<Rightarrow> []) (sid_str i))"
  using assms
  by (auto simp: parseStreamEvent_def xmessage_def streamString_def makeEvent_def decodeKV_def
      lua_tostring_exact ParseInt_format_int split: option.splits)

lemma parse_del_fields:
  assumes "\<bar>rv\<bar> < 10 ^ 14"
  shows "parseStreamEvent (xmessage (i, del_fields k rv old)) =
    Inr (makeEvent ''DELETE'' k rv [] old (sid_str i))"
  using assms
  by (auto simp: parseStreamEvent_def xmessage_def streamString_def makeEvent_def decodeKV_def
      lua_tostring_exact ParseInt_format_int split: option.splits)

section \<open>Stored values\<close>

lemma store_invD:
  assumes "store_inv s"
  shows "rep_ok s" "mvcc_inv (abs_store s)" "0 \<le> rev_of s" "rev_of s \<le> rev_limit"
  using assms by (auto simp: store_inv_def mvcc_inv_def abs_store_def)

lemma stored_value:
  assumes "store_inv s" and "raw_of s k = Some b"
  obtains kv where "decodeKV k b = Some kv" "kv_at s k = Some kv" "kv_ok (rev_of s) k kv" "32 \<le> length b"
proof -
  have len: "32 \<le> length b" using assms by (auto simp: store_inv_def rep_ok_def)
  then obtain kv where kv: "decodeKV k b = Some kv" by (cases "decodeKV k b") (auto simp: decodeKV_None)
  with assms(2) have at: "kv_at s k = Some kv" by (simp add: kv_at_def)
  with store_invD(2)[OF assms(1)] have "kv_ok (rev_of s) k kv"
    using mvcc_invD[of "abs_store s" k kv] by (simp add: abs_store_def)
  with kv at len show ?thesis using that by blast
qed

lemma absent_value: "raw_of s k = None \<Longrightarrow> kv_at s k = None"
  by (simp add: kv_at_def)

lemma GET_redisKey:
  "rep_ok s \<Longrightarrow> is_str (vals s (redisKey k)) \<and> as_str (vals s (redisKey k)) = raw_of s k"
  by (simp add: rep_ok_def raw_of_def)

text \<open>The blob and the previous blob a successful put hands back.\<close>

definition put_blob :: "bytes \<Rightarrow> bytes \<Rightarrow> int \<Rightarrow> keyspace \<Rightarrow> bytes" where
  "put_blob k v l s =
     (let kv = next_kv k v l (abs_store s)
      in encBlob (CreateRevision kv) (ModRevision kv) (Version kv) (Lease kv) v)"

abbreviation raw_or_empty :: "keyspace \<Rightarrow> bytes \<Rightarrow> bytes" where
  "raw_or_empty s k \<equiv> (case raw_of s k of Some b \<Rightarrow> b | None \<Rightarrow> [])"

section \<open>What the scripts decode\<close>

lemma cur_lease_of_stored:
  assumes "store_inv s"
  shows "cur_lease_of (raw_of s k) = lease_of (kv_at s k)" and "lease_ok (lease_of (kv_at s k))"
proof -
  have "cur_lease_of (raw_of s k) = lease_of (kv_at s k) \<and> lease_ok (lease_of (kv_at s k))"
  proof (cases "raw_of s k")
    case None
    then show ?thesis by (simp add: cur_lease_of_def lease_of_def absent_value lease_ok_def)
  next
    case (Some b)
    with assms obtain kv where "decodeKV k b = Some kv" "kv_at s k = Some kv" "kv_ok (rev_of s) k kv" "32 \<le> length b"
      by (rule stored_value)
    with Some store_invD(4)[OF assms] dec64_decodeKV[of k b kv "rev_of s"] show ?thesis
      by (simp add: cur_lease_of_def lease_of_def lease_ok_def kv_ok_def)
  qed
  then show "cur_lease_of (raw_of s k) = lease_of (kv_at s k)" "lease_ok (lease_of (kv_at s k))" by auto
qed

lemma put_meta_stored:
  assumes "store_inv s"
  shows "put_meta (raw_of s k) (rev_of s + 1) =
    (CreateRevision (next_kv k v l (abs_store s)), Version (next_kv k v l (abs_store s)))"
proof (cases "raw_of s k")
  case None
  then show ?thesis by (simp add: put_meta_def next_kv_def abs_store_def absent_value)
next
  case (Some b)
  with assms obtain kv where kv: "decodeKV k b = Some kv" "kv_at s k = Some kv" "kv_ok (rev_of s) k kv" "32 \<le> length b"
    by (rule stored_value)
  then have "Version kv + 1 \<le> 2 ^ 53" "1 \<le> Version kv" using store_invD(4)[OF assms]
    by (auto simp: kv_ok_def rev_limit_def)
  with Some kv store_invD(4)[OF assms] dec64_decodeKV[OF kv(1,3)] show ?thesis
    by (simp add: put_meta_def next_kv_def abs_store_def dbl_exact)
qed

lemma txn_meta_stored:
  assumes "store_inv s"
  shows "txn_meta (raw_of s k) = (case kv_at s k of
      Some kv \<Rightarrow> (CreateRevision kv, ModRevision kv, Version kv) | None \<Rightarrow> (0, 0, 0))"
proof (cases "raw_of s k")
  case None
  then show ?thesis by (simp add: txn_meta_def absent_value)
next
  case (Some b)
  with assms obtain kv where "decodeKV k b = Some kv" "kv_at s k = Some kv" "kv_ok (rev_of s) k kv" "32 \<le> length b"
    by (rule stored_value)
  with Some store_invD(4)[OF assms] dec64_decodeKV[of k b kv "rev_of s"] show ?thesis
    by (simp add: txn_meta_def)
qed

lemma lease_ok_0 [simp]: "lease_ok 0"
  by (simp add: lease_ok_def)

lemma num_or_0_lease: "lease_ok l \<Longrightarrow> num_or_0 (format_int l) = l"
  by (simp add: num_or_0_def lua_tonumber_format_int dbl_exact lease_ok_def)

lemma rev_exact:
  assumes "store_inv s" and "rev_of s < rev_limit"
  shows "dbl (rev_of s + 1) = rev_of s + 1" and "lua_tostring (rev_of s + 1) = format_int (rev_of s + 1)"
    and "rev_of s < 9223372036854775807"
  using store_invD[OF assms(1)] assms(2) by (simp_all add: dbl_exact lua_tostring_exact rev_limit_def)

lemma store_types:
  assumes "store_inv s"
  shows "is_str (vals s (redisKey k))" "as_str (vals s (redisKey k)) = raw_of s k"
    "vals s revisionKey = Some (RString (format_int (rev_of s)))"
    "is_zset (vals s keyIndex)" "is_stream (vals s eventStream)" "is_set (vals s (lua_lease_key l))"
  using assms by (simp_all add: store_inv_def rep_ok_def raw_of_def lua_lease_key_lk)

text \<open>
  The comparison of \<open>txn.lua\<close> is the abstract one for every expected revision: one that does
  not fit in a double is rounded, but never onto a revision in use.
\<close>

lemma dbl_shift_spec:
  "\<exists>t. dbl_shift m j = j + t \<and> m div 2 ^ t < 2 ^ 53 \<and> (2 ^ 53 \<le> m \<longrightarrow> 1 \<le> t \<and> 2 ^ 52 \<le> m div 2 ^ t)"
proof (induction m j rule: dbl_shift.induct)
  case (1 m k)
  show ?case
  proof (cases "m < 2 ^ 53")
    case True
    then show ?thesis by (intro exI[of _ 0]) (simp add: dbl_shift.simps[of m])
  next
    case False
    then obtain t where t: "dbl_shift (m div 2) (Suc k) = Suc k + t" "m div 2 div 2 ^ t < 2 ^ 53"
      "2 ^ 53 \<le> m div 2 \<longrightarrow> 1 \<le> t \<and> 2 ^ 52 \<le> m div 2 div 2 ^ t"
      using 1 by blast
    have "2 ^ 52 \<le> m div 2 div 2 ^ t"
    proof (cases "2 ^ 53 \<le> m div 2")
      case True
      then show ?thesis using t by blast
    next
      case small: False
      then have "dbl_shift (m div 2) (Suc k) = Suc k" by (simp add: dbl_shift.simps[of "m div 2"])
      with t(1) have "t = 0" by simp
      with False show ?thesis by simp
    qed
    moreover have "dbl_shift m k = k + Suc t" using False t(1) by (simp add: dbl_shift.simps[of m])
    ultimately show ?thesis using t(2) by (intro exI[of _ "Suc t"]) (simp add: div_mult2_eq)
  qed
qed

lemma dbl_large: "2 ^ 53 < \<bar>e\<bar> \<Longrightarrow> 2 ^ 53 \<le> \<bar>dbl e\<bar>"
proof -
  assume e: "2 ^ 53 < \<bar>e\<bar>"
  define m where "m = nat \<bar>e\<bar>"
  have m: "2 ^ 53 \<le> m" using e by (simp add: m_def)
  obtain t where t: "dbl_shift m 0 = t" "1 \<le> t" "2 ^ 52 \<le> m div 2 ^ t"
    using dbl_shift_spec[of m 0] m by auto
  define q where "q = m div 2 ^ t"
  define q' where "q' = (if 2 ^ t < 2 * (m mod 2 ^ t) \<or> (2 * (m mod 2 ^ t) = 2 ^ t \<and> odd q) then q + 1 else q)"
  have "2 ^ 52 \<le> q'" using t(3) by (simp add: q_def q'_def)
  moreover have "(2 :: nat) \<le> 2 ^ t" using t(2) by (metis one_le_numeral power_increasing power_one_right)
  ultimately have "2 ^ 52 * 2 \<le> q' * 2 ^ t" by (rule mult_le_mono)
  then have "int (2 ^ 52 * 2) \<le> int (q' * 2 ^ t)" by (rule of_nat_mono)
  then have "(2 :: int) ^ 53 \<le> int (q' * 2 ^ t)" by simp
  moreover have "dbl e = sgn e * int (q' * 2 ^ t)"
    using e t(1) by (simp add: dbl_def Let_def m_def[symmetric] q_def[symmetric] q'_def)
  ultimately show ?thesis using e by (simp add: abs_mult abs_sgn_eq)
qed

lemma mod_of_bounds: "store_inv s \<Longrightarrow> 0 \<le> mod_of (kv_at s k) \<and> mod_of (kv_at s k) < 2 ^ 53"
  using mvcc_invD[of "abs_store s" k] store_invD[of s]
  by (cases "kv_at s k") (auto simp: mod_of_def abs_store_def kv_ok_def rev_limit_def)

lemma txn_meta_mod: "store_inv s \<Longrightarrow> fst (snd (txn_meta (raw_of s k))) = mod_of (kv_at s k)"
  by (simp add: txn_meta_stored mod_of_def split: option.splits)

lemma raw_kv_None: "store_inv s \<Longrightarrow> raw_of s k = None \<longleftrightarrow> kv_at s k = None"
  by (metis absent_value not_None_eq stored_value)

lemma txn_rejects_stored:
  assumes "store_inv s"
  shows "txn_rejects (raw_of s k) (format_int e) = (\<not> cas_ok e (kv_at s k))"
proof -
  obtain c m u where meta: "txn_meta (raw_of s k) = (c, m, u)" by (metis prod_cases3)
  then have m: "m = mod_of (kv_at s k)" using txn_meta_mod[OF assms, of k] by simp
  show ?thesis
  proof (cases "\<bar>e\<bar> \<le> 2 ^ 53")
    case True
    then show ?thesis using assms
      by (auto simp: txn_rejects_def meta m lua_tonumber_format_int dbl_exact cas_ok_def raw_kv_None)
  next
    case False
    then have "2 ^ 53 \<le> \<bar>dbl e\<bar>" using dbl_large by simp
    then have "dbl e \<noteq> - 1" "dbl e \<noteq> mod_of (kv_at s k)" "e \<noteq> - 1" "e \<noteq> mod_of (kv_at s k)"
      using mod_of_bounds[OF assms, of k] False by auto
    then show ?thesis by (simp add: txn_rejects_def meta m lua_tonumber_format_int cas_ok_def)
  qed
qed

lemma txn_put_meta_stored:
  assumes "store_inv s"
  shows "txn_put_meta (raw_of s k) (rev_of s + 1) =
    (CreateRevision (next_kv k v l (abs_store s)), Version (next_kv k v l (abs_store s)))"
proof (cases "kv_at s k")
  case None
  then show ?thesis
    using assms by (simp add: txn_put_meta_def txn_meta_stored raw_kv_None next_kv_def abs_store_def)
next
  case (Some kv)
  then have "kv_ok (rev_of s) k kv" using mvcc_invD[of "abs_store s" k kv] store_invD(2)[OF assms]
    by (simp add: abs_store_def)
  then have "dbl (Version kv + 1) = Version kv + 1"
    using store_invD(4)[OF assms] by (simp add: kv_ok_def rev_limit_def dbl_exact)
  then show ?thesis
    using assms Some
    by (simp add: txn_put_meta_def txn_meta_stored raw_kv_None next_kv_def abs_store_def)
qed

lemma cur_global_rev_stored:
  "store_inv s \<Longrightarrow> cur_global_rev (Some (format_int (rev_of s))) = format_int (max 1 (rev_of s))"
  using store_invD[of s]
  by (auto simp: cur_global_rev_def lua_counter_format lua_tostring_exact rev_limit_def max_def)

lemma put_blob_enc:
  "encBlob (CreateRevision (next_kv k v l (abs_store s))) (rev_of s + 1)
      (Version (next_kv k v l (abs_store s))) l v = put_blob k v l s"
  by (simp add: put_blob_def Let_def next_kv_def abs_store_def)

section \<open>The scripts\<close>

definition fresh_id :: "sid \<Rightarrow> keyspace \<Rightarrow> bool" where
  "fresh_id i s \<longleftrightarrow> (0, 0) < i \<and> (\<forall>x\<in>set (stream_of s). fst x < i)"

text \<open>What a committed write is to the abstract store.\<close>

lemma decode_put_blob:
  assumes "store_inv s" and "rev_of s < rev_limit" and "lease_ok l"
  shows "decodeKV k (put_blob k v l s) = Some (next_kv k v l (abs_store s))"
proof -
  define kv where "kv = next_kv k v l (abs_store s)"
  have "kv_ok (rev_of s + 1) k kv"
    using next_kv_ok[OF store_invD(2)[OF assms(1)] assms(3), of k v] by (simp add: abs_store_def kv_def)
  then have "wrap64 (CreateRevision kv) = CreateRevision kv" "wrap64 (ModRevision kv) = ModRevision kv"
    "wrap64 (Version kv) = Version kv" "wrap64 (Lease kv) = Lease kv" "Key kv = k"
    using assms(2) by (auto simp: kv_ok_def rev_limit_def intro!: wrap64_id)
  moreover have "Value kv = v" by (simp add: kv_def next_kv_def)
  ultimately show ?thesis
    unfolding put_blob_def kv_def[symmetric] by (simp add: Let_def decodeKV_encBlob)
qed

lemma decode_raw: "store_inv s \<Longrightarrow> raw_of s k = Some b \<Longrightarrow> decodeKV k b = kv_at s k"
  by (simp add: kv_at_def)

lemma prev_event:
  assumes "store_inv s"
  shows "(if 32 \<le> length (raw_or_empty s k) then decodeKV k (raw_or_empty s k) else None) = kv_at s k"
proof (cases "raw_of s k")
  case None
  then show ?thesis by (simp add: absent_value)
next
  case (Some b)
  with assms have "32 \<le> length b" by (metis stored_value)
  with Some show ?thesis by (simp add: kv_at_def)
qed

lemma strip_put_event:
  assumes "store_inv s" and "rev_of s < rev_limit" and "lease_ok l"
  shows "strip (makeEvent ''PUT'' k (rev_of s + 1) (put_blob k v l s) (raw_or_empty s k) sid) =
    mk_event ''PUT'' k (rev_of s + 1) (Some (next_kv k v l (abs_store s))) (kv_at s k)"
  using decode_put_blob[OF assms, of k v] prev_event[OF assms(1), of k]
  by (simp add: strip_def makeEvent_def mk_event_def put_blob_def Let_def)

lemma strip_del_event:
  assumes "store_inv s" and "raw_of s k = Some b"
  shows "strip (makeEvent ''DELETE'' k rv [] b sid) = mk_event ''DELETE'' k rv None (kv_at s k)"
  using prev_event[OF assms(1), of k] assms(2)
  by (cases "32 \<le> length b") (simp_all add: strip_def makeEvent_def mk_event_def)

lemma rev_below: "store_inv s \<Longrightarrow> rev_of s < rev_limit \<Longrightarrow> \<bar>rev_of s + 1\<bar> < 10 ^ 14"
  using store_invD[of s] by (simp add: rev_limit_def)

lemma abs_commit_put:
  assumes "store_inv s" and "rev_of s < rev_limit" and "lease_ok l" and "lease_ok src" and "lease_ok dst"
  shows "abs_store (ks_commit k (Some (put_blob k v l s)) src dst
      (i, put_fields k (rev_of s + 1) (put_blob k v l s) (raw_of s k)) s) =
    (mvcc_write k v l (abs_store s))\<lparr>m_att := att_move k src dst (m_att (abs_store s))\<rparr>"
  using abs_store_commit[OF assms(4,5) parse_put_fields[OF rev_below[OF assms(1,2)], of i k "put_blob k v l s" "raw_of s k"],
      of k "Some (put_blob k v l s)" s]
    strip_put_event[OF assms(1-3)] decode_put_blob[OF assms(1-3)]
  by (simp add: mvcc_write_def) (simp add: abs_store_def)

lemma abs_commit_del:
  assumes "store_inv s" and "rev_of s < rev_limit" and "raw_of s k = Some b" and "lease_ok src" and "lease_ok dst"
  shows "abs_store (ks_commit k None src dst (i, del_fields k (rev_of s + 1) b) s) =
    (mvcc_remove k (abs_store s))\<lparr>m_att := att_move k src dst (m_att (abs_store s))\<rparr>"
  using abs_store_commit[OF assms(4,5) parse_del_fields[OF rev_below[OF assms(1,2)], of i k b], of k None s]
    strip_del_event[OF assms(1,3)]
  by (simp add: mvcc_remove_def) (simp add: abs_store_def)

lemma inv_commit_put:
  assumes "store_inv s" and "rev_of s < rev_limit" and "lease_ok l" and "lease_ok src" and "lease_ok dst"
    and "fresh_id i s"
  shows "store_inv (ks_commit k (Some (put_blob k v l s)) src dst
      (i, put_fields k (rev_of s + 1) (put_blob k v l s) (raw_of s k)) s)"
  unfolding store_inv_def abs_commit_put[OF assms(1-5)]
proof
  show "rep_ok (ks_commit k (Some (put_blob k v l s)) src dst
      (i, put_fields k (rev_of s + 1) (put_blob k v l s) (raw_of s k)) s)"
    using assms parse_put_fields[OF rev_below[OF assms(1,2)]]
    by (intro rep_ok_commit) (auto simp: store_inv_def entry_ok_def fresh_id_def put_blob_def Let_def)
  show "mvcc_inv ((mvcc_write k v l (abs_store s))\<lparr>m_att := att_move k src dst (m_att (abs_store s))\<rparr>)"
    using assms by (simp add: mvcc_inv_att mvcc_write_inv store_inv_def abs_store_def)
qed

lemma inv_commit_del:
  assumes "store_inv s" and "rev_of s < rev_limit" and "raw_of s k = Some b" and "lease_ok src" and "lease_ok dst"
    and "fresh_id i s"
  shows "store_inv (ks_commit k None src dst (i, del_fields k (rev_of s + 1) b) s)"
  unfolding store_inv_def abs_commit_del[OF assms(1-5)]
proof
  show "rep_ok (ks_commit k None src dst (i, del_fields k (rev_of s + 1) b) s)"
    using assms parse_del_fields[OF rev_below[OF assms(1,2)]]
    by (intro rep_ok_commit) (auto simp: store_inv_def entry_ok_def fresh_id_def)
  show "mvcc_inv ((mvcc_remove k (abs_store s))\<lparr>m_att := att_move k src dst (m_att (abs_store s))\<rparr>)"
    using assms by (simp add: mvcc_inv_att mvcc_remove_inv store_inv_def abs_store_def)
qed

lemma store_inv_init: "store_inv init_keyspace"
proof -
  have "vals init_keyspace x = None" if "x \<noteq> revisionKey" for x
    using that by (simp add: init_keyspace_def)
  moreover have "vals init_keyspace revisionKey = Some (RString (format_int 0))"
    by (simp add: init_keyspace_def)
  ultimately show ?thesis
    by (auto simp: store_inv_def rep_ok_def mvcc_inv_def abs_store_def rev_of_def raw_of_def kv_at_def
        stream_of_def rev_limit_def replay_def fun_eq_iff)
qed

context redis_server
begin

lemma fresh_newid:
  "vals (view d) eventStream = vals s eventStream \<Longrightarrow> fresh_id (newid eventStream d) s"
  using newid_greater newid_pos by (auto simp: fresh_id_def stream_of_def)

lemma write_lua_put:
  assumes inv: "store_inv (view d)" and lim: "rev_of (view d) < rev_limit" and l: "lease_ok l"
  shows "\<exists>i d'. write_lua R (redisKey k) revisionKey eventStream keyIndex ''PUT'' v (format_int l) d =
      (Inr [RBulk (format_int (rev_of (view d) + 1)), RBulk (raw_or_empty (view d) k),
            RBulk (put_blob k v l (view d)), RBulk (sid_str i)], d') \<and>
    view d' = ks_commit k (Some (put_blob k v l (view d))) (lease_of (kv_at (view d) k)) l
      (i, put_fields k (rev_of (view d) + 1) (put_blob k v l (view d)) (raw_of (view d) k)) (view d) \<and>
    fresh_id i (view d)"
proof -
  note facts = store_types[OF inv] rev_exact[OF inv lim] cur_lease_of_stored[OF inv]
    put_meta_stored[OF inv, of k v l] num_or_0_lease l
  define src where "src = lease_of (kv_at (view d) k)"
  show ?thesis
    by (cases "src = 0"; cases "src = l"; cases "l = 0")
     (simp_all add: write_lua_def step Let_def facts put_blob_enc src_def[symmetric] GET INCR SET ZADD SADD SREM XADD
        ks_commit_def lease_ks_def stream_of_def fresh_newid is_set_ks_set)
qed

lemma write_lua_delete:
  assumes inv: "store_inv (view d)" and lim: "rev_of (view d) < rev_limit" and raw: "raw_of (view d) k = Some b"
  shows "\<exists>i d'. write_lua R (redisKey k) revisionKey eventStream keyIndex ''DELETE'' v l d =
      (Inr [RBulk (format_int (rev_of (view d) + 1)), RBulk b, RBulk [], RBulk (sid_str i)], d') \<and>
    view d' = ks_commit k None (lease_of (kv_at (view d) k)) 0
      (i, del_fields k (rev_of (view d) + 1) b) (view d) \<and>
    fresh_id i (view d)"
proof -
  have c: "cur_lease_of (Some b) = lease_of (kv_at (view d) k)"
    using cur_lease_of_stored(1)[OF inv, of k] raw by simp
  note facts = store_types[OF inv] rev_exact[OF inv lim] raw c
  define src where "src = lease_of (kv_at (view d) k)"
  show ?thesis
    by (cases "src = 0")
     (simp_all add: write_lua_def step Let_def facts src_def[symmetric] GET INCR DEL ZREM SREM XADD
        ks_commit_def lease_ks_def stream_of_def fresh_newid is_set_ks_set)
qed

lemma write_lua_delete_absent:
  assumes inv: "store_inv (view d)" and raw: "raw_of (view d) k = None"
  shows "write_lua R (redisKey k) revisionKey eventStream keyIndex ''DELETE'' v l d =
      (Inr [RBulk (format_int (rev_of (view d))), RBulk [], RBulk [], RBulk []], d)"
proof -
  have b: "lua_counter (Some (format_int (rev_of (view d)))) = rev_of (view d)"
    "lua_tostring (rev_of (view d)) = format_int (rev_of (view d))"
    using store_invD[OF inv] by (simp_all add: lua_counter_format lua_tostring_exact rev_limit_def)
  show ?thesis
    by (simp add: write_lua_def step Let_def store_types[OF inv] raw GET b)
qed

lemma txn_lua_fail:
  assumes inv: "store_inv (view d)" and no: "\<not> cas_ok e (kv_at (view d) k)"
  shows "txn_lua R (redisKey k) revisionKey eventStream keyIndex (format_int e) v op l d =
      (Inr [RInt 0, RBulk (raw_or_empty (view d) k), RBulk (format_int (max 1 (rev_of (view d))))], d)"
  using no by (simp add: txn_lua_def step Let_def store_types[OF inv] GET txn_rejects_stored[OF inv]
      cur_global_rev_stored[OF inv])

lemma txn_lua_put:
  assumes inv: "store_inv (view d)" and lim: "rev_of (view d) < rev_limit" and l: "lease_ok l"
    and yes: "cas_ok e (kv_at (view d) k)"
  shows "\<exists>i d'. txn_lua R (redisKey k) revisionKey eventStream keyIndex (format_int e) v ''PUT'' (format_int l) d =
      (Inr [RInt 1, RBulk (raw_or_empty (view d) k), RBulk (format_int (rev_of (view d) + 1)),
            RBulk (put_blob k v l (view d)), RBulk (sid_str i)], d') \<and>
    view d' = ks_commit k (Some (put_blob k v l (view d))) 0 0
      (i, put_fields k (rev_of (view d) + 1) (put_blob k v l (view d)) (raw_of (view d) k)) (view d) \<and>
    fresh_id i (view d)"
proof -
  note facts = store_types[OF inv] rev_exact[OF inv lim] num_or_0_lease[OF l] txn_rejects_stored[OF inv]
    txn_put_meta_stored[OF inv, of k v l] put_blob_enc
  show ?thesis
    using yes by (simp add: txn_lua_def step Let_def facts GET INCR SET ZADD XADD
        ks_commit_def stream_of_def fresh_newid)
qed

lemma txn_lua_delete:
  assumes inv: "store_inv (view d)" and lim: "rev_of (view d) < rev_limit"
    and yes: "cas_ok e (kv_at (view d) k)" and raw: "raw_of (view d) k = Some b"
  shows "\<exists>i d'. txn_lua R (redisKey k) revisionKey eventStream keyIndex (format_int e) v ''DELETE'' l d =
      (Inr [RInt 1, RBulk b, RBulk (format_int (rev_of (view d) + 1)), RBulk [], RBulk (sid_str i)], d') \<and>
    view d' = ks_commit k None 0 0 (i, del_fields k (rev_of (view d) + 1) b) (view d) \<and>
    fresh_id i (view d)"
proof -
  note facts = store_types[OF inv] rev_exact[OF inv lim] txn_rejects_stored[OF inv, of k, unfolded raw]
  show ?thesis
    using yes by (simp add: txn_lua_def step Let_def facts raw GET INCR DEL ZREM XADD
        ks_commit_def stream_of_def fresh_newid)
qed

text \<open>
  Deleting an absent key through \<open>txn.lua\<close> (expected revision 0 or -1): the script fails at
  \<open>XADD\<close> with the revision already consumed and no event in the stream.
\<close>

lemma txn_lua_delete_absent:
  assumes inv: "store_inv (view d)" and lim: "rev_of (view d) < rev_limit"
    and e: "e = 0 \<or> e = - 1" and raw: "raw_of (view d) k = None"
  shows "\<exists>d'. txn_lua R (redisKey k) revisionKey eventStream keyIndex (format_int e) v ''DELETE'' l d = (Inl BadArgument, d') \<and>
    rev_of (view d') = rev_of (view d) + 1 \<and> stream_of (view d') = stream_of (view d)"
proof -
  have yes: "cas_ok e (kv_at (view d) k)" using e raw by (auto simp: cas_ok_def mod_of_def absent_value)
  have after: "rev_of (ks_zset keyIndex S (ks_del (redisKey k) (ks_upd revisionKey (RString (format_int n)) s))) = n"
    "stream_of (ks_zset keyIndex S (ks_del (redisKey k) (ks_upd revisionKey v s))) = stream_of s" for S n v s
    by (simp_all add: rev_of_def stream_of_def)
  note facts = store_types[OF inv] rev_exact[OF inv lim] txn_rejects_stored[OF inv, of k, unfolded raw]
  show ?thesis
    using yes by (simp add: txn_lua_def step Let_def facts raw GET INCR DEL ZREM after)
qed

end

end
