(* ===== verification/RedisStore.thy ===== *)
theory RedisStore
  imports ScriptFacts
begin

text \<open>
  The Redis-backed store of \<open>store/redis.go\<close>: the record \<open>RedisStore\<close>, its client calls
  and one definition per method, over a \<open>world\<close> holding the Redis server's state, the state of
  the network and the state of the event sink.

  A client call is a round trip.  The network (a parameter, \<open>rs_net\<close>) decides for every
  request whether its reply arrives (\<open>Answer\<close>) or the call fails (\<open>Fail\<close>), and lists the
  attempts whose reply was lost on the way, each with the number of commands of the request that the
  server executed in it: the client library resends a request whose connection broke, and a failed
  call may have been executed.
\<close>

section \<open>World, errors, client calls\<close>

datatype outcome = Answer "nat list" | Fail "nat list"

record ('d, 'n, 'x) world =
  db :: 'd
  net :: 'n
  snk :: 'x

record ('d, 'n, 'x) RedisStore =
  rs_redis :: "'d redis"
  rs_net :: "'n \<Rightarrow> outcome \<times> 'n"
  rs_sink :: "(Event \<Rightarrow> 'x \<Rightarrow> 'x) option"

text \<open>
  Go errors: a Redis reply, a broken connection, a failed \<open>ParseInt\<close>, an error of the context,
  \<open>fmt.Errorf("lease %d not found", id)\<close>, a wrapped error \<open>fmt.Errorf("...: %w", err)\<close>, and
  a run-time panic (an index or type assertion that fails).
\<close>

datatype gerr =
    Redis rerr
  | ConnLost
  | BadInt parse_error
  | CtxErr
  | LeaseNotFound int
  | Wrap string gerr
  | Panic

text \<open>
  \<open>roundtrip r pre c\<close> sends a request \<open>c\<close>; \<open>pre j\<close> is the effect of its first
  \<open>j\<close> commands alone.
\<close>

definition roundtrip ::
  "('d, 'n, 'x) RedisStore \<Rightarrow> (nat \<Rightarrow> 'd \<Rightarrow> 'd) \<Rightarrow> ('d, rerr, 'a) cmd \<Rightarrow> (('d, 'n, 'x) world, gerr, 'a) cmd"
where
  "roundtrip r pre c w =
     (case rs_net r (net w) of
        (Answer js, n) \<Rightarrow> let (res, d) = c (fold pre js (db w)) in (map_sum Redis id res, w\<lparr>db := d, net := n\<rparr>)
      | (Fail js, n) \<Rightarrow> (Inl ConnLost, w\<lparr>db := fold pre js (db w), net := n\<rparr>))"

definition call :: "('d, 'n, 'x) RedisStore \<Rightarrow> ('d, rerr, 'a) cmd \<Rightarrow> (('d, 'n, 'x) world, gerr, 'a) cmd" where
  "call r c = roundtrip r (\<lambda>j d. if j = 0 then d else snd (c d)) c"

text \<open>A pipeline runs every command, whether or not an earlier one failed.\<close>

definition pipe2 :: "('d, rerr, 'a) cmd \<Rightarrow> ('d, rerr, 'b) cmd \<Rightarrow> ('d, rerr, (rerr + 'a) \<times> (rerr + 'b)) cmd" where
  "pipe2 c1 c2 d = (let (r1, d1) = c1 d; (r2, d2) = c2 d1 in (Inr (r1, r2), d2))"

definition pipeline2 :: "('d, 'n, 'x) RedisStore \<Rightarrow> ('d, rerr, 'a) cmd \<Rightarrow> ('d, rerr, 'b) cmd \<Rightarrow>
    (('d, 'n, 'x) world, gerr, (rerr + 'a) \<times> (rerr + 'b)) cmd" where
  "pipeline2 r c1 c2 =
     roundtrip r (\<lambda>j d. if j = 0 then d else if j = 1 then snd (c1 d) else snd (c2 (snd (c1 d)))) (pipe2 c1 c2)"

section \<open>Reading the event stream\<close>

text \<open>The loop over the messages: the last ID advances even past a message that does not parse.\<close>

fun readMessages :: "XMessage list \<Rightarrow> Event list \<Rightarrow> string \<Rightarrow> Event list \<times> string" where
  "readMessages [] events newLastID = (events, newLastID)"
| "readMessages (msg # msgs) events newLastID =
     (case parseStreamEvent msg of
        Inl _ \<Rightarrow> readMessages msgs events (XID msg)
      | Inr ev \<Rightarrow> readMessages msgs (events @ [ev]) (XID msg))"

definition ReadEvents ::
  "('d, 'n, 'x) RedisStore \<Rightarrow> string \<Rightarrow> int \<Rightarrow> int \<Rightarrow> (('d, 'n, 'x) world, gerr, Event list \<times> string) cmd"
where
  "ReadEvents r lastID blockMs maxCount =
     bindE (mapErr (Wrap ''xread'') (call r (readE (r_XREAD (rs_redis r) eventStream lastID maxCount 0)))) (\<lambda>results.
     retE (readMessages (map xmessage results) [] lastID))"

text \<open>
  \<open>ctxErr\<close> is \<open>ctx.Err() \<noteq> nil\<close> after the call.  The block limit is the literal 500 of the
  source, a \<open>time.Duration\<close> and hence nanoseconds.
\<close>

definition BlockReadEvents ::
  "('d, 'n, 'x) RedisStore \<Rightarrow> bool \<Rightarrow> string \<Rightarrow> int \<Rightarrow> (('d, 'n, 'x) world, gerr, Event list \<times> string) cmd"
where
  "BlockReadEvents r ctxErr lastID maxCount =
     bindE (mapErr (\<lambda>e. if ctxErr then CtxErr else Wrap ''xread block'' e)
       (call r (readE (r_XREAD (rs_redis r) eventStream lastID maxCount 500)))) (\<lambda>results.
     retE (readMessages (map xmessage results) [] lastID))"

section \<open>The event sink\<close>

definition SetEventSink :: "(Event \<Rightarrow> 'x \<Rightarrow> 'x) option \<Rightarrow> ('d, 'n, 'x) RedisStore \<Rightarrow> ('d, 'n, 'x) RedisStore" where
  "SetEventSink sink r = r\<lparr>rs_sink := sink\<rparr>"

definition emit ::
  "('d, 'n, 'x) RedisStore \<Rightarrow> string \<Rightarrow> bytes \<Rightarrow> int \<Rightarrow> bytes \<Rightarrow> bytes \<Rightarrow> string \<Rightarrow> (('d, 'n, 'x) world, gerr, unit) cmd"
where
  "emit r typ key rv newBlob prevBlob sid =
     (case rs_sink r of
        None \<Rightarrow> retE ()
      | Some sink \<Rightarrow> if sid = [] \<or> rv \<le> 0 then retE ()
          else execE (\<lambda>w. w\<lparr>snk := sink (makeEvent typ key rv newBlob prevBlob sid) (snk w)\<rparr>))"

text \<open>A round trip whose command changes nothing.\<close>

definition Ping :: "('d, 'n, 'x) RedisStore \<Rightarrow> (('d, 'n, 'x) world, gerr, unit) cmd" where
  "Ping r = call r (retE ())"

section \<open>Revision\<close>

definition RawRevision :: "('d, 'n, 'x) RedisStore \<Rightarrow> (('d, 'n, 'x) world, gerr, int) cmd" where
  "RawRevision r =
     bindE (call r (readE (r_GET (rs_redis r) revisionKey))) (\<lambda>val.
     case val of None \<Rightarrow> retE 0
     | Some s \<Rightarrow> (case ParseInt s of (n, err) \<Rightarrow> retE (if err \<noteq> None \<or> n < 0 then 0 else n)))"

definition CurrentRevision :: "('d, 'n, 'x) RedisStore \<Rightarrow> (('d, 'n, 'x) world, gerr, int) cmd" where
  "CurrentRevision r =
     bindE (call r (readE (r_GET (rs_redis r) revisionKey))) (\<lambda>val.
     case val of None \<Rightarrow> retE 1
     | Some s \<Rightarrow> (case ParseInt s of
                    (_, Some e) \<Rightarrow> failE (BadInt e)
                  | (rv, None) \<Rightarrow> retE (if rv < 1 then 1 else rv)))"

section \<open>Opening the store\<close>

text \<open>
  \<open>migrateKeyIndex\<close> ignores every error.  Its pipeline is \<open>DEL\<close> and, when there were
  members, one \<open>ZADD\<close> of all of them.
\<close>

definition zadd_all :: "'d redis \<Rightarrow> string \<Rightarrow> bytes list \<Rightarrow> ('d, rerr, unit) cmd" where
  "zadd_all R k ms = foldr (\<lambda>m c. bindE (r_ZADD R k m) (\<lambda>_. c)) ms (retE ())"

definition migrateKeyIndex :: "('d, 'n, 'x) RedisStore \<Rightarrow> ('d, 'n, 'x) world \<Rightarrow> ('d, 'n, 'x) world" where
  "migrateKeyIndex r w =
     (case call r (readE (r_TYPE (rs_redis r) keyIndex)) w of
        (Inl _, w1) \<Rightarrow> w1
      | (Inr typ, w1) \<Rightarrow>
          if typ \<noteq> ''set'' then w1
          else (case call r (readE (r_SMEMBERS (rs_redis r) keyIndex)) w1 of
                  (Inl _, w2) \<Rightarrow> w2
                | (Inr members, w2) \<Rightarrow>
                    if members = [] then snd (call r (r_DEL (rs_redis r) keyIndex) w2)
                    else snd (pipeline2 r (r_DEL (rs_redis r) keyIndex) (zadd_all (rs_redis r) keyIndex members) w2)))"

text \<open>The client options: \<open>Network\<close>, \<open>Addr\<close>, \<open>DB\<close>.\<close>

record Options =
  Network :: string
  Addr :: string
  DB :: int

definition redis_options :: "string \<Rightarrow> int \<Rightarrow> Options" where
  "redis_options addr n =
     (if prefix ''unix://'' addr then \<lparr>Network = ''unix'', Addr = drop 7 addr, DB = n\<rparr>
      else \<lparr>Network = '''', Addr = addr, DB = n\<rparr>)"

text \<open>\<open>connect\<close> is \<open>redis.NewClient\<close>: the server and network the options reach.\<close>

definition NewRedisStoreDB ::
  "(Options \<Rightarrow> 'd redis \<times> ('n \<Rightarrow> outcome \<times> 'n)) \<Rightarrow> string \<Rightarrow> int \<Rightarrow> ('d, 'n, 'x) world \<Rightarrow>
     ('d, 'n, 'x) RedisStore \<times> ('d, 'n, 'x) world"
where
  "NewRedisStoreDB connect addr n w =
     (let client = connect (redis_options addr n);
          r = \<lparr>rs_redis = fst client, rs_net = snd client, rs_sink = None\<rparr>;
          w1 = snd (call r (r_SETNX (rs_redis r) revisionKey (format_int 0)) w)
      in (r, migrateKeyIndex r w1))"

definition NewRedisStore ::
  "(Options \<Rightarrow> 'd redis \<times> ('n \<Rightarrow> outcome \<times> 'n)) \<Rightarrow> string \<Rightarrow> ('d, 'n, 'x) world \<Rightarrow>
     ('d, 'n, 'x) RedisStore \<times> ('d, 'n, 'x) world"
where
  "NewRedisStore connect addr = NewRedisStoreDB connect addr 0"

section \<open>Keys\<close>

definition writeScript ::
  "('d, 'n, 'x) RedisStore \<Rightarrow> bytes \<Rightarrow> string \<Rightarrow> bytes \<Rightarrow> int \<Rightarrow> (('d, 'n, 'x) world, gerr, reply list) cmd"
where
  "writeScript r key op val leaseID =
     call r (write_lua (rs_redis r) (redisKey key) revisionKey eventStream keyIndex op val (format_int leaseID))"

definition Put ::
  "('d, 'n, 'x) RedisStore \<Rightarrow> bytes \<Rightarrow> bytes \<Rightarrow> int \<Rightarrow> (('d, 'n, 'x) world, gerr, int \<times> KeyValue option) cmd"
where
  "Put r key val leaseID =
     bindE (mapErr (Wrap ''put script'') (writeScript r key ''PUT'' val leaseID)) (\<lambda>res.
     let rv = scriptRev res;
         existingBlob = scriptStr res 1;
         newBlob = scriptStr res 2;
         sid = scriptStr res 3
     in bindE (emit r ''PUT'' key rv newBlob existingBlob sid) (\<lambda>_.
        retE (rv, if existingBlob \<noteq> [] then decodeKV key existingBlob else None)))"

definition get :: "('d, 'n, 'x) RedisStore \<Rightarrow> bytes \<Rightarrow> (('d, 'n, 'x) world, gerr, KeyValue option) cmd" where
  "get r key =
     bindE (mapErr (Wrap (''get '' @ key)) (call r (readE (r_GET (rs_redis r) (redisKey key))))) (\<lambda>data.
     case data of None \<Rightarrow> retE None | Some b \<Rightarrow> retE (decodeKV key b))"

definition Get :: "('d, 'n, 'x) RedisStore \<Rightarrow> bytes \<Rightarrow> (('d, 'n, 'x) world, gerr, KeyValue option) cmd" where
  "Get r key = get r key"

text \<open>The revision \<open>Range\<close> reports: 1 unless the counter parses to at least 1.\<close>

definition range_rev :: "rerr + bytes option \<Rightarrow> int" where
  "range_rev revCmd =
     (case revCmd of
        Inr (Some revStr) \<Rightarrow> (case ParseInt revStr of (v, err) \<Rightarrow> if err = None \<and> 1 \<le> v then v else 1)
      | _ \<Rightarrow> 1)"

definition range_results :: "bytes list \<Rightarrow> bytes option list \<Rightarrow> KeyValue list" where
  "range_results matched vs =
     List.map_filter (\<lambda>(k, v). case v of None \<Rightarrow> None | Some str \<Rightarrow> decodeKV k str) (zip matched vs)"

text \<open>\<open>Range\<close> in its two round trips: the pipeline of the index scan and the revision, then the
  values.\<close>

definition range_scan ::
  "('d, 'n, 'x) RedisStore \<Rightarrow> bytes \<Rightarrow> (('d, 'n, 'x) world, gerr, (rerr + bytes list) \<times> (rerr + bytes option)) cmd"
where
  "range_scan r pfx =
     (let (mn, mx) = prefixLexRange pfx in
      mapErr (Wrap ''zrangebylex keyindex'')
        (pipeline2 r (readE (r_ZRANGEBYLEX (rs_redis r) keyIndex mn mx)) (readE (r_GET (rs_redis r) revisionKey))))"

definition range_fetch ::
  "('d, 'n, 'x) RedisStore \<Rightarrow> (rerr + bytes list) \<times> (rerr + bytes option) \<Rightarrow> (('d, 'n, 'x) world, gerr, int \<times> KeyValue list) cmd"
where
  "range_fetch r = (\<lambda>(rangeCmd, revCmd).
     let rv = range_rev revCmd in
     case rangeCmd of
       Inl e \<Rightarrow> failE (Wrap ''zrangebylex keyindex'' (Redis e))
     | Inr matched \<Rightarrow>
         if matched = [] then retE (rv, [])
         else
           bindE (mapErr (Wrap ''mget'') (call r (readE (r_MGET (rs_redis r) (map redisKey matched))))) (\<lambda>vs.
           retE (rv, range_results matched vs)))"

definition Range ::
  "('d, 'n, 'x) RedisStore \<Rightarrow> bytes \<Rightarrow> (('d, 'n, 'x) world, gerr, int \<times> KeyValue list) cmd"
where
  "Range r pfx = bindE (range_scan r pfx) (range_fetch r)"

definition Delete ::
  "('d, 'n, 'x) RedisStore \<Rightarrow> bytes \<Rightarrow> (('d, 'n, 'x) world, gerr, int \<times> KeyValue option) cmd"
where
  "Delete r key =
     bindE (mapErr (Wrap ''delete script'') (writeScript r key ''DELETE'' [] 0)) (\<lambda>res.
     let rv = scriptRev res;
         prevBlob = scriptStr res 1;
         sid = scriptStr res 3
     in bindE (emit r ''DELETE'' key rv [] prevBlob sid) (\<lambda>_.
        retE (rv, if prevBlob \<noteq> [] then decodeKV key prevBlob else None)))"

record TxnResult =
  Succeeded :: bool
  Revision :: int
  Current :: "KeyValue option"

text \<open>\<open>res[0].(int64) == 1\<close>, and \<open>res[1]\<close> on a failed compare; both panic when the reply
  does not have that shape.\<close>

definition txn_succeeded :: "reply list \<Rightarrow> bool option" where
  "txn_succeeded res = (case res of RInt n # _ \<Rightarrow> Some (n = 1) | _ \<Rightarrow> None)"

definition txn_current :: "bytes \<Rightarrow> reply list \<Rightarrow> KeyValue option" where
  "txn_current key res = (case res ! 1 of RBulk b \<Rightarrow> decodeKV key b | RInt _ \<Rightarrow> None)"

definition txn_revision :: "reply list \<Rightarrow> int" where
  "txn_revision res =
     (if 3 \<le> length res
      then (case res ! 2 of
              RBulk revStr \<Rightarrow> (case ParseInt revStr of (v, err) \<Rightarrow> if err = None then v else 0)
            | RInt _ \<Rightarrow> 0)
      else 0)"

definition Txn ::
  "('d, 'n, 'x) RedisStore \<Rightarrow> bytes \<Rightarrow> int \<Rightarrow> string \<Rightarrow> bytes \<Rightarrow> int \<Rightarrow> (('d, 'n, 'x) world, gerr, TxnResult) cmd"
where
  "Txn r key expectedModRevision successOp newValue leaseID =
     bindE (mapErr (Wrap ''txn script'')
       (call r (txn_lua (rs_redis r) (redisKey key) revisionKey eventStream keyIndex
                 (format_int expectedModRevision) newValue successOp (format_int leaseID)))) (\<lambda>res.
     case txn_succeeded res of
       None \<Rightarrow> failE Panic
     | Some succeeded \<Rightarrow>
         if \<not> succeeded \<and> length res < 2 then failE Panic
         else
           let current = (if succeeded then None else txn_current key res) in
           bindE (if txn_revision res = 0
                  then (\<lambda>w. case CurrentRevision r w of (Inl _, w') \<Rightarrow> (Inr 0, w') | (Inr rv, w') \<Rightarrow> (Inr rv, w'))
                  else retE (txn_revision res)) (\<lambda>revision.
           bindE (if succeeded
                  then emit r successOp key revision (scriptStr res 3) (scriptStr res 1) (scriptStr res 4)
                  else retE ()) (\<lambda>_.
           retE \<lparr>Succeeded = succeeded, Revision = revision, Current = current\<rparr>)))"

end
