(* ===== verification/StoreFacts.thy ===== *)
theory StoreFacts
  imports RedisStore
begin

text \<open>
  The store methods against the abstract store: on a network that answers every request
  (\<open>redis_store\<close>), each method returns what the abstract operation says, changes the abstract
  store by that operation, keeps \<open>store_inv\<close> and hands the sink exactly the event it appended to
  the stream.
\<close>

definition events_of :: "keyspace \<Rightarrow> Event list" where
  "events_of s = map entry_event (stream_of s)"

definition feed :: "('d, 'n, 'x) RedisStore \<Rightarrow> Event \<Rightarrow> 'x \<Rightarrow> 'x" where
  "feed r ev x = (case rs_sink r of None \<Rightarrow> x | Some sink \<Rightarrow> sink ev x)"

text \<open>One committed write: the new stream event \<open>ev\<close> is the one the sink receives.\<close>

definition committed ::
  "('d, 'n, 'x) RedisStore \<Rightarrow> ('d \<Rightarrow> keyspace) \<Rightarrow> (mvcc \<Rightarrow> mvcc) \<Rightarrow> ('d, 'n, 'x) world \<Rightarrow> ('d, 'n, 'x) world \<Rightarrow> bool"
where
  "committed r view f w w' \<longleftrightarrow>
     store_inv (view (db w')) \<and> abs_store (view (db w')) = f (abs_store (view (db w))) \<and>
     (\<exists>ev. events_of (view (db w')) = events_of (view (db w)) @ [ev] \<and>
        EvRev ev = rev_of (view (db w)) + 1 \<and> snk w' = feed r ev (snk w))"

text \<open>A call that changes neither the store nor the sink.\<close>

definition untouched :: "('d \<Rightarrow> keyspace) \<Rightarrow> ('d, 'n, 'x) world \<Rightarrow> ('d, 'n, 'x) world \<Rightarrow> bool" where
  "untouched view w w' \<longleftrightarrow> view (db w') = view (db w) \<and> snk w' = snk w"

lemma EvRev_makeEvent [simp]: "EvRev (makeEvent t k rv nb pb sid) = rv"
  by (simp add: makeEvent_def)

lemma events_of_commit:
  "parseStreamEvent (xmessage e) = Inr ev \<Longrightarrow> events_of (ks_commit k nb src dst e s) = events_of s @ [ev]"
  by (simp add: events_of_def entry_event_def)

lemma scriptRev_format: "\<bar>n\<bar> < 10 ^ 14 \<Longrightarrow> scriptRev (RBulk (format_int n) # rest) = n"
  by (simp add: scriptRev_def ParseInt_format_int)

lemma decode_raw_or_empty:
  assumes "store_inv s"
  shows "(raw_or_empty s k \<noteq> [] \<longrightarrow> decodeKV k (raw_or_empty s k) = kv_at s k) \<and>
    (raw_or_empty s k = [] \<longrightarrow> None = kv_at s k)"
proof (cases "raw_of s k")
  case None
  then show ?thesis by (simp add: absent_value)
next
  case (Some b)
  then have "b \<noteq> []" using stored_value[OF assms Some] by force
  with Some show ?thesis by (simp add: kv_at_def)
qed

text \<open>The values of all keys with a prefix, in key order.\<close>

definition range_of :: "keyspace \<Rightarrow> bytes \<Rightarrow> KeyValue list" where
  "range_of s p = map (\<lambda>k. the (kv_at s k)) (sorted_list_of_set {k. kv_at s k \<noteq> None \<and> prefix p k})"

lemma range_results_stored:
  "range_results ks (map (\<lambda>k. as_str (vals s (redisKey k))) ks) = List.map_filter (kv_at s) ks"
  by (induction ks) (auto simp: range_results_def List.map_filter_simps kv_at_def raw_of_def split: option.splits)

lemma map_filter_total: "\<forall>x\<in>set xs. f x \<noteq> None \<Longrightarrow> List.map_filter f xs = map (\<lambda>x. the (f x)) xs"
  by (induction xs) (auto simp: List.map_filter_simps)

lemma finite_kvs: "store_inv s \<Longrightarrow> finite {k. kv_at s k \<noteq> None \<and> P k}"
proof -
  assume inv: "store_inv s"
  then have "finite {k. raw_of s k \<noteq> None}" by (auto simp: store_inv_def rep_ok_def)
  then show ?thesis by (rule finite_subset[rotated]) (auto simp: raw_kv_None[OF inv])
qed

lemma emit_committed:
  assumes "0 < rv" and "sid \<noteq> []"
  shows "emit r t k rv nb pb sid w = (Inr (), w\<lparr>snk := feed r (makeEvent t k rv nb pb sid) (snk w)\<rparr>)"
  using assms by (simp add: emit_def feed_def step split: option.splits)

lemma emit_silent: "emit r t k rv nb pb [] w = (Inr (), w)"
  by (simp add: emit_def step split: option.splits)

locale redis_store = redis_server "rs_redis r" view newid
  for r :: "('d, 'n, 'x) RedisStore" and view :: "'d \<Rightarrow> keyspace" and newid :: "string \<Rightarrow> 'd \<Rightarrow> sid" +
  assumes net_answers: "fst (rs_net r n) = Answer []"
begin

lemma roundtrip_ok:
  "roundtrip r pre c w =
     (map_sum Redis id (fst (c (db w))), w\<lparr>db := snd (c (db w)), net := snd (rs_net r (net w))\<rparr>)"
  using net_answers[of "net w"] by (cases "rs_net r (net w)") (simp add: roundtrip_def split_beta)

lemma call_ok:
  "call r c w = (map_sum Redis id (fst (c (db w))), w\<lparr>db := snd (c (db w)), net := snd (rs_net r (net w))\<rparr>)"
  by (simp add: call_def roundtrip_ok)

lemma Put_ok:
  assumes inv: "store_inv (view (db w))" and lim: "rev_of (view (db w)) < rev_limit" and l: "lease_ok l"
  shows "fst (Put r k v l w) = Inr (rev_of (view (db w)) + 1, kv_at (view (db w)) k)"
    and "committed r view (mvcc_put k v l) w (snd (Put r k v l w))"
proof -
  define s where "s = view (db w)"
  obtain i d' where run: "write_lua (rs_redis r) (redisKey k) revisionKey eventStream keyIndex ''PUT'' v (format_int l) (db w) =
      (Inr [RBulk (format_int (rev_of s + 1)), RBulk (raw_or_empty s k),
            RBulk (put_blob k v l s), RBulk (sid_str i)], d')"
    and d': "view d' = ks_commit k (Some (put_blob k v l s)) (lease_of (kv_at s k)) l
      (i, put_fields k (rev_of s + 1) (put_blob k v l s) (raw_of s k)) s"
    and i: "fresh_id i s"
    using write_lua_put[OF inv lim l, of k v] by (auto simp: s_def)
  note inv' = inv[folded s_def] and lim' = lim[folded s_def]
  define ev where "ev = makeEvent ''PUT'' k (rev_of s + 1) (put_blob k v l s) (raw_or_empty s k) (sid_str i)"
  note b = rev_below[OF inv' lim'] store_invD(3)[OF inv']
  have res: "Put r k v l w = (Inr (rev_of s + 1, kv_at s k),
      w\<lparr>db := d', net := snd (rs_net r (net w)), snk := feed r ev (snk w)\<rparr>)"
    using b decode_raw_or_empty[OF inv', of k]
    by (simp add: Put_def step writeScript_def call_ok run scriptRev_format scriptStr_def Let_def
        emit_committed ev_def del: One_nat_def)
  show "fst (Put r k v l w) = Inr (rev_of (view (db w)) + 1, kv_at (view (db w)) k)"
    using res by (simp add: s_def)
  have "events_of (view d') = events_of s @ [ev]"
    unfolding d' ev_def by (intro events_of_commit parse_put_fields b)
  then show "committed r view (mvcc_put k v l) w (snd (Put r k v l w))"
    using res d' abs_commit_put[OF inv' lim' l cur_lease_of_stored(2)[OF inv', of k] l, of k v i]
      inv_commit_put[OF inv' lim' l cur_lease_of_stored(2)[OF inv', of k] l i, of k v]
    by (auto simp: committed_def s_def[symmetric] mvcc_put_def ev_def abs_store_def)
qed

lemma Delete_ok:
  assumes inv: "store_inv (view (db w))" and lim: "rev_of (view (db w)) < rev_limit"
    and kv: "kv_at (view (db w)) k = Some kv"
  shows "fst (Delete r k w) = Inr (rev_of (view (db w)) + 1, Some kv)"
    and "committed r view (mvcc_delete k) w (snd (Delete r k w))"
proof -
  define s where "s = view (db w)"
  note inv' = inv[folded s_def] and lim' = lim[folded s_def] and kv' = kv[folded s_def]
  obtain b where raw: "raw_of s k = Some b" using raw_kv_None[OF inv', of k] kv' by auto
  obtain i d' where run: "write_lua (rs_redis r) (redisKey k) revisionKey eventStream keyIndex ''DELETE'' [] (format_int 0) (db w) =
      (Inr [RBulk (format_int (rev_of s + 1)), RBulk b, RBulk [], RBulk (sid_str i)], d')"
    and d': "view d' = ks_commit k None (lease_of (kv_at s k)) 0 (i, del_fields k (rev_of s + 1) b) s"
    and i: "fresh_id i s"
    using write_lua_delete[OF inv lim, of k b "[]" "format_int 0"] raw by (auto simp: s_def)
  define ev where "ev = makeEvent ''DELETE'' k (rev_of s + 1) [] b (sid_str i)"
  note b = rev_below[OF inv' lim'] store_invD(3)[OF inv']
  have "b \<noteq> []" "decodeKV k b = Some kv"
    using decode_raw_or_empty[OF inv', of k] raw kv' by (auto split: if_splits)
  then have res: "Delete r k w = (Inr (rev_of s + 1, Some kv),
      w\<lparr>db := d', net := snd (rs_net r (net w)), snk := feed r ev (snk w)\<rparr>)"
    using b by (simp add: Delete_def step writeScript_def call_ok run scriptRev_format scriptStr_def Let_def
        emit_committed ev_def del: One_nat_def)
  show "fst (Delete r k w) = Inr (rev_of (view (db w)) + 1, Some kv)"
    using res by (simp add: s_def)
  have "events_of (view d') = events_of s @ [ev]"
    unfolding d' ev_def by (intro events_of_commit parse_del_fields b)
  then show "committed r view (mvcc_delete k) w (snd (Delete r k w))"
    using res d' kv' abs_commit_del[OF inv' lim' raw cur_lease_of_stored(2)[OF inv', of k] lease_ok_0, of i]
      inv_commit_del[OF inv' lim' raw cur_lease_of_stored(2)[OF inv', of k] lease_ok_0 i]
    by (auto simp: committed_def s_def[symmetric] mvcc_delete_def ev_def abs_store_def lease_of_def)
qed

lemma Delete_absent:
  assumes inv: "store_inv (view (db w))" and kv: "kv_at (view (db w)) k = None"
  shows "fst (Delete r k w) = Inr (rev_of (view (db w)), None)"
    and "untouched view w (snd (Delete r k w))"
proof -
  have raw: "raw_of (view (db w)) k = None" using raw_kv_None[OF inv] kv by simp
  have b: "\<bar>rev_of (view (db w))\<bar> < 10 ^ 14" using store_invD[OF inv] by (simp add: rev_limit_def)
  show "fst (Delete r k w) = Inr (rev_of (view (db w)), None)" "untouched view w (snd (Delete r k w))"
    using write_lua_delete_absent[OF inv raw, of "[]" "format_int 0"] b
    by (simp_all add: Delete_def step writeScript_def call_ok scriptRev_format scriptStr_def Let_def
        emit_silent untouched_def del: One_nat_def)
qed

lemma CurrentRevision_ok:
  assumes inv: "store_inv (view (db w))"
  shows "fst (CurrentRevision r w) = Inr (max 1 (rev_of (view (db w))))"
    and "untouched view w (snd (CurrentRevision r w))"
  using store_types[OF inv] store_invD[OF inv]
  by (simp_all add: CurrentRevision_def step call_ok GET ParseInt_format_int rev_limit_def untouched_def)

lemma RawRevision_ok:
  assumes inv: "store_inv (view (db w))"
  shows "fst (RawRevision r w) = Inr (rev_of (view (db w)))"
    and "untouched view w (snd (RawRevision r w))"
  using store_types[OF inv] store_invD[OF inv]
  by (simp_all add: RawRevision_def step call_ok GET ParseInt_format_int rev_limit_def untouched_def)

lemma Get_ok:
  assumes inv: "store_inv (view (db w))"
  shows "fst (Get r k w) = Inr (kv_at (view (db w)) k)" and "untouched view w (snd (Get r k w))"
  using store_types[OF inv] store_invD[OF inv]
  by (simp_all add: Get_def get_def step call_ok GET kv_at_def untouched_def split: option.splits)

lemma range_scan_ok:
  assumes inv: "store_inv (view (db w))"
  shows "fst (range_scan r p w) =
      Inr (Inr (sorted_list_of_set {k. kv_at (view (db w)) k \<noteq> None \<and> prefix p k}), Inr (Some (format_int (rev_of (view (db w))))))"
    and "untouched view w (snd (range_scan r p w))"
proof -
  define s where "s = view (db w)"
  note inv' = inv[folded s_def]
  obtain mn mx where b: "prefixLexRange p = (mn, mx)" by fastforce
  have "{m \<in> as_zset (vals s keyIndex). lex_ge mn m \<and> lex_le mx m} = {k. kv_at s k \<noteq> None \<and> prefix p k}"
    using inv' b prefixLexRange_exact[of p] by (auto simp: store_inv_def rep_ok_def raw_kv_None[OF inv'])
  moreover have z: "is_zset (vals s keyIndex)" "finite (as_zset (vals s keyIndex))"
    using inv' unfolding store_inv_def rep_ok_def by blast+
  ultimately have scan: "r_ZRANGEBYLEX (rs_redis r) keyIndex mn mx (db w) = Inr (sorted_list_of_set {k. kv_at s k \<noteq> None \<and> prefix p k})"
    using ZRANGEBYLEX[of "db w" keyIndex mn mx, folded s_def, OF z] prefixLexRange_bounds[OF b] by simp
  show "fst (range_scan r p w) =
      Inr (Inr (sorted_list_of_set {k. kv_at (view (db w)) k \<noteq> None \<and> prefix p k}), Inr (Some (format_int (rev_of (view (db w))))))"
    "untouched view w (snd (range_scan r p w))"
    using store_types[OF inv']
    by (simp_all add: range_scan_def b step pipeline2_def pipe2_def roundtrip_ok scan GET s_def[symmetric] untouched_def Let_def)
qed

lemma range_fetch_ok:
  assumes "0 \<le> n" and "n \<le> rev_limit"
  shows "fst (range_fetch r (Inr ks, Inr (Some (format_int n))) w) = Inr (max 1 n, List.map_filter (kv_at (view (db w))) ks)"
    and "untouched view w (snd (range_fetch r (Inr ks, Inr (Some (format_int n))) w))"
proof -
  have rv: "range_rev (Inr (Some (format_int n))) = max 1 n"
    using assms by (simp add: range_rev_def ParseInt_format_int rev_limit_def)
  show "fst (range_fetch r (Inr ks, Inr (Some (format_int n))) w) = Inr (max 1 n, List.map_filter (kv_at (view (db w))) ks)"
    "untouched view w (snd (range_fetch r (Inr ks, Inr (Some (format_int n))) w))"
    using range_results_stored[of ks "view (db w)"]
    by (cases "ks = []"; simp add: range_fetch_def rv step call_ok MGET untouched_def comp_def Let_def List.map_filter_simps)+
qed

lemma Range_ok:
  assumes inv: "store_inv (view (db w))"
  shows "fst (Range r p w) = Inr (max 1 (rev_of (view (db w))), range_of (view (db w)) p)"
    and "untouched view w (snd (Range r p w))"
proof -
  let ?ks = "sorted_list_of_set {k. kv_at (view (db w)) k \<noteq> None \<and> prefix p k}"
  let ?n = "rev_of (view (db w))"
  note sc = range_scan_ok[OF inv, of p]
  have "0 \<le> ?n" "?n \<le> rev_limit" using store_invD[OF inv] by auto
  note fe = range_fetch_ok[OF this, where ks = ?ks and w = "snd (range_scan r p w)"]
  have v: "view (db (snd (range_scan r p w))) = view (db w)" using sc(2) by (simp add: untouched_def)
  have "List.map_filter (kv_at (view (db w))) ?ks = range_of (view (db w)) p"
    using set_sorted_list_of_set[OF finite_kvs[OF inv, of "prefix p"]] by (simp add: map_filter_total range_of_def)
  with fe sc show "fst (Range r p w) = Inr (max 1 ?n, range_of (view (db w)) p)" "untouched view w (snd (Range r p w))"
    by (simp_all add: Range_def bindE_Inr[where f = "range_scan r p" and s = w, OF sc(1)] v untouched_def)
qed

lemma Txn_fail:
  assumes inv: "store_inv (view (db w))" and no: "\<not> cas_ok e (kv_at (view (db w)) k)"
  shows "fst (Txn r k e op v l w) =
      Inr \<lparr>Succeeded = False, Revision = max 1 (rev_of (view (db w))), Current = kv_at (view (db w)) k\<rparr>"
    and "untouched view w (snd (Txn r k e op v l w))"
proof -
  have b: "\<bar>max 1 (rev_of (view (db w)))\<bar> < 10 ^ 14" "max 1 (rev_of (view (db w))) \<noteq> 0"
    using store_invD[OF inv] by (auto simp: rev_limit_def)
  have cur: "decodeKV k (raw_or_empty (view (db w)) k) = kv_at (view (db w)) k"
    using decode_raw_or_empty[OF inv, of k] by (cases "raw_or_empty (view (db w)) k = []") (auto simp: decodeKV_def)
  show "fst (Txn r k e op v l w) =
      Inr \<lparr>Succeeded = False, Revision = max 1 (rev_of (view (db w))), Current = kv_at (view (db w)) k\<rparr>"
    "untouched view w (snd (Txn r k e op v l w))"
    using txn_lua_fail[OF inv no, of v op "format_int l"] b cur
    by (simp_all add: Txn_def step call_ok txn_succeeded_def txn_current_def txn_revision_def
        ParseInt_format_int untouched_def Let_def del: max.bounded_iff)
qed

lemma Txn_put:
  assumes inv: "store_inv (view (db w))" and lim: "rev_of (view (db w)) < rev_limit" and l: "lease_ok l"
    and yes: "cas_ok e (kv_at (view (db w)) k)"
  shows "fst (Txn r k e ''PUT'' v l w) =
      Inr \<lparr>Succeeded = True, Revision = rev_of (view (db w)) + 1, Current = None\<rparr>"
    and "committed r view (mvcc_write k v l) w (snd (Txn r k e ''PUT'' v l w))"
proof -
  define s where "s = view (db w)"
  note inv' = inv[folded s_def] and lim' = lim[folded s_def]
  obtain i d' where run: "txn_lua (rs_redis r) (redisKey k) revisionKey eventStream keyIndex (format_int e) v ''PUT'' (format_int l) (db w) =
      (Inr [RInt 1, RBulk (raw_or_empty s k), RBulk (format_int (rev_of s + 1)),
            RBulk (put_blob k v l s), RBulk (sid_str i)], d')"
    and d': "view d' = ks_commit k (Some (put_blob k v l s)) 0 0
      (i, put_fields k (rev_of s + 1) (put_blob k v l s) (raw_of s k)) s"
    and i: "fresh_id i s"
    using txn_lua_put[OF inv lim l yes, of v] by (auto simp: s_def)
  define ev where "ev = makeEvent ''PUT'' k (rev_of s + 1) (put_blob k v l s) (raw_or_empty s k) (sid_str i)"
  note b = rev_below[OF inv' lim'] store_invD(3)[OF inv']
  have res: "Txn r k e ''PUT'' v l w = (Inr \<lparr>Succeeded = True, Revision = rev_of s + 1, Current = None\<rparr>,
      w\<lparr>db := d', net := snd (rs_net r (net w)), snk := feed r ev (snk w)\<rparr>)"
    using b by (simp add: Txn_def step call_ok run txn_succeeded_def txn_revision_def ParseInt_format_int
        scriptStr_def Let_def emit_committed ev_def)
  show "fst (Txn r k e ''PUT'' v l w) =
      Inr \<lparr>Succeeded = True, Revision = rev_of (view (db w)) + 1, Current = None\<rparr>"
    using res by (simp add: s_def)
  have "events_of (view d') = events_of s @ [ev]"
    unfolding d' ev_def by (intro events_of_commit parse_put_fields b)
  then show "committed r view (mvcc_write k v l) w (snd (Txn r k e ''PUT'' v l w))"
    using res d' abs_commit_put[OF inv' lim' l lease_ok_0 lease_ok_0, of k v i]
      inv_commit_put[OF inv' lim' l lease_ok_0 lease_ok_0 i, of k v]
    by (auto simp: committed_def s_def[symmetric] ev_def att_move_def mvcc_write_def)
qed

lemma Txn_delete:
  assumes inv: "store_inv (view (db w))" and lim: "rev_of (view (db w)) < rev_limit"
    and yes: "cas_ok e (kv_at (view (db w)) k)" and kv: "kv_at (view (db w)) k = Some kv"
  shows "fst (Txn r k e ''DELETE'' v l w) =
      Inr \<lparr>Succeeded = True, Revision = rev_of (view (db w)) + 1, Current = None\<rparr>"
    and "committed r view (mvcc_remove k) w (snd (Txn r k e ''DELETE'' v l w))"
proof -
  define s where "s = view (db w)"
  note inv' = inv[folded s_def] and lim' = lim[folded s_def] and kv' = kv[folded s_def]
  obtain b where raw: "raw_of s k = Some b" using raw_kv_None[OF inv', of k] kv' by auto
  obtain i d' where run: "txn_lua (rs_redis r) (redisKey k) revisionKey eventStream keyIndex (format_int e) v ''DELETE'' (format_int l) (db w) =
      (Inr [RInt 1, RBulk b, RBulk (format_int (rev_of s + 1)), RBulk [], RBulk (sid_str i)], d')"
    and d': "view d' = ks_commit k None 0 0 (i, del_fields k (rev_of s + 1) b) s"
    and i: "fresh_id i s"
    using txn_lua_delete[OF inv lim yes, of b v "format_int l"] raw by (auto simp: s_def)
  define ev where "ev = makeEvent ''DELETE'' k (rev_of s + 1) [] b (sid_str i)"
  note b = rev_below[OF inv' lim'] store_invD(3)[OF inv']
  have res: "Txn r k e ''DELETE'' v l w = (Inr \<lparr>Succeeded = True, Revision = rev_of s + 1, Current = None\<rparr>,
      w\<lparr>db := d', net := snd (rs_net r (net w)), snk := feed r ev (snk w)\<rparr>)"
    using b by (simp add: Txn_def step call_ok run txn_succeeded_def txn_revision_def ParseInt_format_int
        scriptStr_def Let_def emit_committed ev_def)
  show "fst (Txn r k e ''DELETE'' v l w) =
      Inr \<lparr>Succeeded = True, Revision = rev_of (view (db w)) + 1, Current = None\<rparr>"
    using res by (simp add: s_def)
  have "events_of (view d') = events_of s @ [ev]"
    unfolding d' ev_def by (intro events_of_commit parse_del_fields b)
  then show "committed r view (mvcc_remove k) w (snd (Txn r k e ''DELETE'' v l w))"
    using res d' abs_commit_del[OF inv' lim' raw lease_ok_0 lease_ok_0, of i]
      inv_commit_del[OF inv' lim' raw lease_ok_0 lease_ok_0 i]
    by (auto simp: committed_def s_def[symmetric] ev_def att_move_def mvcc_remove_def)
qed

lemma Txn_delete_absent:
  assumes inv: "store_inv (view (db w))" and lim: "rev_of (view (db w)) < rev_limit"
    and e: "e = 0 \<or> e = - 1" and kv: "kv_at (view (db w)) k = None"
  shows "fst (Txn r k e ''DELETE'' v l w) = Inl (Wrap ''txn script'' (Redis BadArgument))"
    and "rev_of (view (db (snd (Txn r k e ''DELETE'' v l w)))) = rev_of (view (db w)) + 1"
    and "events_of (view (db (snd (Txn r k e ''DELETE'' v l w)))) = events_of (view (db w))"
    and "snk (snd (Txn r k e ''DELETE'' v l w)) = snk w"
proof -
  have raw: "raw_of (view (db w)) k = None" using raw_kv_None[OF inv] kv by simp
  obtain d' where "txn_lua (rs_redis r) (redisKey k) revisionKey eventStream keyIndex (format_int e) v ''DELETE'' (format_int l) (db w) =
      (Inl BadArgument, d')" "rev_of (view d') = rev_of (view (db w)) + 1" "stream_of (view d') = stream_of (view (db w))"
    using txn_lua_delete_absent[OF inv lim e raw] by blast
  then show "fst (Txn r k e ''DELETE'' v l w) = Inl (Wrap ''txn script'' (Redis BadArgument))"
    "rev_of (view (db (snd (Txn r k e ''DELETE'' v l w)))) = rev_of (view (db w)) + 1"
    "events_of (view (db (snd (Txn r k e ''DELETE'' v l w)))) = events_of (view (db w))"
    "snk (snd (Txn r k e ''DELETE'' v l w)) = snk w"
    by (simp_all add: Txn_def step call_ok events_of_def)
qed

end

end
