(* ===== verification/StoreApi.thy ===== *)
theory StoreApi
  imports StoreFacts
begin

text \<open>
  The interface \<open>Store\<close> of \<open>server/types.go\<close>, as the record of its methods, and what the
  server layer may rely on: the locales \<open>mvcc_store\<close> (reads and writes against the abstract
  store) and \<open>event_store\<close> (reading back the event log).  The Redis store implements both; the
  services of the following theories are verified against the locales.

  \<open>SetEventSink\<close> acts on the store object and not on its state; it is a function on
  \<open>RedisStore\<close>.  \<open>st_RawRevision\<close> is the optional method the dispatcher looks for.
\<close>

section \<open>The interface\<close>

record 'w Store =
  st_Put :: "bytes \<Rightarrow> bytes \<Rightarrow> int \<Rightarrow> ('w, gerr, int \<times> KeyValue option) cmd"
  st_Get :: "bytes \<Rightarrow> ('w, gerr, KeyValue option) cmd"
  st_Range :: "bytes \<Rightarrow> ('w, gerr, int \<times> KeyValue list) cmd"
  st_Delete :: "bytes \<Rightarrow> ('w, gerr, int \<times> KeyValue option) cmd"
  st_Txn :: "bytes \<Rightarrow> int \<Rightarrow> string \<Rightarrow> bytes \<Rightarrow> int \<Rightarrow> ('w, gerr, TxnResult) cmd"
  st_CurrentRevision :: "('w, gerr, int) cmd"
  st_BlockReadEvents :: "bool \<Rightarrow> string \<Rightarrow> int \<Rightarrow> ('w, gerr, Event list \<times> string) cmd"
  st_RawRevision :: "('w, gerr, int) cmd option"

definition redis_Store :: "('d, 'n, 'x) RedisStore \<Rightarrow> ('d, 'n, 'x) world Store" where
  "redis_Store r =
    \<lparr>st_Put = Put r, st_Get = Get r, st_Range = Range r, st_Delete = Delete r, st_Txn = Txn r,
     st_CurrentRevision = CurrentRevision r, st_BlockReadEvents = BlockReadEvents r,
     st_RawRevision = Some (RawRevision r)\<rparr>"

section \<open>The contract of reads and writes\<close>

definition mvcc_range :: "bytes \<Rightarrow> mvcc \<Rightarrow> KeyValue list" where
  "mvcc_range p m =
     map (\<lambda>k. the (m_kv m k)) (sorted_list_of_set {k. m_kv m k \<noteq> None \<and> prefix p k})"

abbreviation room :: "mvcc \<Rightarrow> bool" where
  "room m \<equiv> m_rev m < rev_limit"

locale mvcc_store =
  fixes S :: "'w Store" and A :: "'w \<Rightarrow> mvcc" and I :: "'w \<Rightarrow> bool"
  assumes inv: "I w \<Longrightarrow> mvcc_inv (A w)"
    and fin: "I w \<Longrightarrow> finite (dom (m_kv (A w)))"
    and Put: "I w \<Longrightarrow> room (A w) \<Longrightarrow> lease_ok l \<Longrightarrow> fst (st_Put S k v l w) = Inr (m_rev (A w) + 1, m_kv (A w) k)"
      "I w \<Longrightarrow> room (A w) \<Longrightarrow> lease_ok l \<Longrightarrow> A (snd (st_Put S k v l w)) = mvcc_put k v l (A w)"
      "I w \<Longrightarrow> room (A w) \<Longrightarrow> lease_ok l \<Longrightarrow> I (snd (st_Put S k v l w))"
    and Delete: "I w \<Longrightarrow> room (A w) \<Longrightarrow> fst (st_Delete S k w) = Inr (m_rev (mvcc_delete k (A w)), m_kv (A w) k)"
      "I w \<Longrightarrow> room (A w) \<Longrightarrow> A (snd (st_Delete S k w)) = mvcc_delete k (A w)"
      "I w \<Longrightarrow> room (A w) \<Longrightarrow> I (snd (st_Delete S k w))"
    and Txn: "I w \<Longrightarrow> room (A w) \<Longrightarrow> lease_ok l \<Longrightarrow> fst (st_Txn S k e ''PUT'' v l w) =
        Inr (if cas_ok e (m_kv (A w) k)
             then \<lparr>Succeeded = True, Revision = m_rev (A w) + 1, Current = None\<rparr>
             else \<lparr>Succeeded = False, Revision = max 1 (m_rev (A w)), Current = m_kv (A w) k\<rparr>)"
      "I w \<Longrightarrow> room (A w) \<Longrightarrow> lease_ok l \<Longrightarrow> A (snd (st_Txn S k e ''PUT'' v l w)) = mvcc_cas k e v l (A w)"
      "I w \<Longrightarrow> room (A w) \<Longrightarrow> lease_ok l \<Longrightarrow> I (snd (st_Txn S k e ''PUT'' v l w))"
    and Get: "I w \<Longrightarrow> fst (st_Get S k w) = Inr (m_kv (A w) k)"
      "I w \<Longrightarrow> A (snd (st_Get S k w)) = A w" "I w \<Longrightarrow> I (snd (st_Get S k w))"
    and Range: "I w \<Longrightarrow> fst (st_Range S p w) = Inr (max 1 (m_rev (A w)), mvcc_range p (A w))"
      "I w \<Longrightarrow> A (snd (st_Range S p w)) = A w" "I w \<Longrightarrow> I (snd (st_Range S p w))"
    and CurrentRevision: "I w \<Longrightarrow> fst (st_CurrentRevision S w) = Inr (max 1 (m_rev (A w)))"
      "I w \<Longrightarrow> A (snd (st_CurrentRevision S w)) = A w" "I w \<Longrightarrow> I (snd (st_CurrentRevision S w))"
begin

lemmas laws = Put Delete Txn Get Range CurrentRevision

lemma fin_range: "I w \<Longrightarrow> finite {k. m_kv (A w) k \<noteq> None \<and> P k}"
  using fin[of w] by (rule finite_subset[rotated]) auto

end

section \<open>The contract of the event log\<close>

text \<open>The events after an ID: \<open>0\<close> is before all of them.\<close>

definition events_after :: "string \<Rightarrow> Event list \<Rightarrow> Event list" where
  "events_after lastID evs =
     (if lastID = ''0'' then evs else tl (dropWhile (\<lambda>ev. EvID ev \<noteq> lastID) evs))"

definition known_id :: "string \<Rightarrow> Event list \<Rightarrow> bool" where
  "known_id lastID evs \<longleftrightarrow> lastID = ''0'' \<or> lastID \<in> EvID ` set evs"

locale event_store =
  fixes S :: "'w Store" and A :: "'w \<Rightarrow> mvcc" and I :: "'w \<Rightarrow> bool" and E :: "'w \<Rightarrow> Event list"
  assumes ev_inv: "I w \<Longrightarrow> mvcc_inv (A w)"
    and ev_log: "I w \<Longrightarrow> map strip (E w) = m_log (A w)"
    and ev_ids: "I w \<Longrightarrow> distinct (map EvID (E w))" "I w \<Longrightarrow> ''0'' \<notin> EvID ` set (E w)"
    and read_some: "I w \<Longrightarrow> known_id lastID (E w) \<Longrightarrow> 0 < cnt \<Longrightarrow> events_after lastID (E w) \<noteq> [] \<Longrightarrow>
      fst (st_BlockReadEvents S c lastID cnt w) =
        Inr (take (nat cnt) (events_after lastID (E w)), EvID (last (take (nat cnt) (events_after lastID (E w)))))"
    and read_none: "I w \<Longrightarrow> known_id lastID (E w) \<Longrightarrow> 0 < cnt \<Longrightarrow> events_after lastID (E w) = [] \<Longrightarrow>
      fst (st_BlockReadEvents S c lastID cnt w) = Inr res \<Longrightarrow> res = ([], lastID)"
    and read_keeps: "I w \<Longrightarrow> I (snd (st_BlockReadEvents S c lastID cnt w))"
      "I w \<Longrightarrow> E (snd (st_BlockReadEvents S c lastID cnt w)) = E w"
      "I w \<Longrightarrow> A (snd (st_BlockReadEvents S c lastID cnt w)) = A w"

section \<open>The Redis store keeps the contract\<close>

lemma readMessages_ok:
  "list_all entry_ok es \<Longrightarrow> readMessages (map xmessage es) acc lastID =
     (acc @ map entry_event es, if es = [] then lastID else sid_str (fst (last es)))"
proof (induction es arbitrary: acc lastID)
  case (Cons e es)
  then obtain ev where "parseStreamEvent (xmessage e) = Inr ev"
    by (cases "parseStreamEvent (xmessage e)") (auto simp: entry_ok_def)
  with Cons show ?case by (simp add: entry_event_def xmessage_def)
qed simp

lemma EvID_entry_event: "entry_ok e \<Longrightarrow> EvID (entry_event e) = sid_str (fst e)"
  by (cases "parseStreamEvent (xmessage e)")
    (auto simp: entry_ok_def entry_event_def parseStreamEvent_def xmessage_def Let_def
      split: option.splits prod.splits)

lemma sid_str_not_zero [simp]: "sid_str i \<noteq> ''0''" "''0'' \<noteq> sid_str i"
  by (cases "dec_nat (fst i)"; auto simp: sid_str_def)+

lemma filter_after:
  assumes "sorted_wrt (<) (map fst es)" and "(i :: sid) \<in> fst ` set es"
  shows "filter (\<lambda>e. i < fst e) es = tl (dropWhile (\<lambda>e. fst e \<noteq> i) es)"
  using assms
proof (induction es)
  case (Cons e es)
  show ?case
  proof (cases "fst e = i")
    case True
    with Cons.prems(1) show ?thesis by (auto simp: filter_id_conv)
  next
    case False
    with Cons.prems have "i \<in> fst ` set es" "fst e < i" by auto
    with Cons False show ?thesis by auto
  qed
qed simp

lemma events_after_stream:
  assumes inv: "store_inv s" and id: "known_id lastID (events_of s)"
  obtains i where "parse_sid lastID = Some i"
    and "events_after lastID (events_of s) = map entry_event (filter (\<lambda>e. i < fst e) (stream_of s))"
proof (cases "lastID = ''0''")
  case True
  have "\<forall>e\<in>set (stream_of s). (0, 0) < fst e"
    using inv by (auto simp: store_inv_def rep_ok_def list_all_iff entry_ok_def)
  then have "filter (\<lambda>e. (0, 0) < fst e) (stream_of s) = stream_of s" by simp
  with True that[of "(0, 0)"] show ?thesis by (simp add: events_after_def events_of_def)
next
  case False
  have ok: "\<forall>e\<in>set (stream_of s). entry_ok e" and srt: "sorted_wrt (<) (map fst (stream_of s))"
    using inv by (auto simp: store_inv_def rep_ok_def list_all_iff)
  from False id ok obtain e where e: "e \<in> set (stream_of s)" "lastID = sid_str (fst e)"
    by (auto simp: known_id_def events_of_def EvID_entry_event)
  have "dropWhile (\<lambda>ev. EvID ev \<noteq> lastID) (map entry_event es) = map entry_event (dropWhile (\<lambda>x. fst x \<noteq> fst e) es)"
    if "\<forall>e\<in>set es. entry_ok e" for es
    using that by (induction es) (auto simp: EvID_entry_event e(2))
  with ok False filter_after[OF srt, of "fst e"] e
  have "events_after lastID (events_of s) = map entry_event (filter (\<lambda>x. fst e < fst x) (stream_of s))"
    by (simp add: events_after_def events_of_def map_tl)
  with e(2) that[of "fst e"] show ?thesis by simp
qed

lemma events_of_ids:
  assumes "store_inv s"
  shows "distinct (map EvID (events_of s))" and "''0'' \<notin> EvID ` set (events_of s)"
proof -
  have ok: "\<forall>e\<in>set (stream_of s). entry_ok e" and srt: "sorted_wrt (<) (map fst (stream_of s))"
    using assms by (auto simp: store_inv_def rep_ok_def list_all_iff)
  have "map EvID (events_of s) = map sid_str (map fst (stream_of s))"
    using ok by (simp add: events_of_def EvID_entry_event)
  moreover have "distinct (map fst (stream_of s))"
    using srt by (simp add: strict_sorted_iff)
  ultimately show "distinct (map EvID (events_of s))"
    by (metis distinct_map inj_onI sid_str_inject)
  show "''0'' \<notin> EvID ` set (events_of s)"
    using ok by (auto simp: events_of_def EvID_entry_event)
qed

lemma events_of_log: "map strip (events_of s) = m_log (abs_store s)"
  by (simp add: events_of_def abs_store_def)

context redis_store
begin

lemma BlockReadEvents_untouched: "untouched view w (snd (BlockReadEvents r c lastID cnt w))"
  by (simp add: BlockReadEvents_def step call_ok untouched_def split: sum.splits)

lemma BlockReadEvents_some:
  assumes inv: "store_inv (view (db w))" and id: "known_id lastID (events_of (view (db w)))" and "0 < cnt"
    and "events_after lastID (events_of (view (db w))) \<noteq> []"
  shows "fst (BlockReadEvents r c lastID cnt w) =
    (let es = take (nat cnt) (events_after lastID (events_of (view (db w)))) in Inr (es, EvID (last es)))"
proof -
  define s where "s = view (db w)"
  obtain i where i: "parse_sid lastID = Some i"
    "events_after lastID (events_of s) = map entry_event (filter (\<lambda>e. i < fst e) (stream_of s))"
    using events_after_stream[OF inv id] by (auto simp: s_def)
  define es where "es = take (nat cnt) (filter (\<lambda>e. i < fst e) (stream_of s))"
  have ok: "\<forall>e\<in>set (stream_of s). entry_ok e" and stm: "is_stream (vals s eventStream)"
    using inv by (auto simp: store_inv_def rep_ok_def list_all_iff s_def)
  have ne: "es \<noteq> []" using assms(3,4) i(2) by (simp add: es_def s_def[symmetric])
  have "list_all entry_ok es" using ok by (auto simp: es_def list_all_iff dest!: in_set_takeD)
  note rm = readMessages_ok[OF this] EvID_entry_event[of "last es"]
  have "entry_ok (last es)" using ne \<open>list_all entry_ok es\<close> by (simp add: list_all_iff)
  moreover have "r_XREAD (rs_redis r) eventStream lastID cnt 500 (db w) = Inr es"
    using XREAD[of "db w" eventStream lastID i cnt 500] stm i assms(3,4)
    by (simp add: s_def[symmetric] es_def stream_of_def)
  ultimately show ?thesis
    using ne i(2) rm by (simp add: BlockReadEvents_def step call_ok s_def[symmetric] Let_def last_map take_map es_def[symmetric])
qed

lemma BlockReadEvents_none:
  assumes inv: "store_inv (view (db w))" and id: "known_id lastID (events_of (view (db w)))"
    and "events_after lastID (events_of (view (db w))) = []"
    and "fst (BlockReadEvents r c lastID cnt w) = Inr res"
  shows "res = ([], lastID)"
proof -
  obtain i where i: "parse_sid lastID = Some i"
    "events_after lastID (events_of (view (db w))) = map entry_event (filter (\<lambda>e. i < fst e) (stream_of (view (db w))))"
    using events_after_stream[OF inv id] by blast
  have stm: "is_stream (vals (view (db w)) eventStream)" using inv by (simp add: store_inv_def rep_ok_def)
  have "r_XREAD (rs_redis r) eventStream lastID cnt 500 (db w) = Inr es \<Longrightarrow> es = []" for es
    using XREAD_none[of "db w" eventStream lastID i cnt 500 es] stm i assms(3) by (simp add: stream_of_def)
  with assms(4) show ?thesis
    by (cases "r_XREAD (rs_redis r) eventStream lastID cnt 500 (db w)") (simp_all add: BlockReadEvents_def step call_ok)
qed

end

text \<open>Every Redis store on a network that answers is an \<open>mvcc_store\<close> and an \<open>event_store\<close>.\<close>

lemma abs_store_sel [simp]:
  "m_kv (abs_store s) = kv_at s" "m_rev (abs_store s) = rev_of s"
  by (simp_all add: abs_store_def)

sublocale redis_store \<subseteq> mvcc_store "redis_Store r" "\<lambda>w. abs_store (view (db w))" "\<lambda>w. store_inv (view (db w))"
proof
  fix w :: "('d, 'n, 'x) world" and k v :: bytes and l e :: int and p :: bytes
  let ?s = "view (db w)"
  assume inv: "store_inv ?s"
  show "mvcc_inv (abs_store ?s)" using inv by (simp add: store_inv_def)
  show "finite (dom (m_kv (abs_store ?s)))" using finite_kvs[OF inv, of "\<lambda>_. True"] by (simp add: dom_def)
  note unt = untouched_def
  show "fst (st_Get (redis_Store r) k w) = Inr (m_kv (abs_store ?s) k)"
    "abs_store (view (db (snd (st_Get (redis_Store r) k w)))) = abs_store ?s"
    "store_inv (view (db (snd (st_Get (redis_Store r) k w))))"
    using Get_ok[OF inv, of k] inv by (simp_all add: redis_Store_def unt)
  show "fst (st_Range (redis_Store r) p w) = Inr (max 1 (m_rev (abs_store ?s)), mvcc_range p (abs_store ?s))"
    "abs_store (view (db (snd (st_Range (redis_Store r) p w)))) = abs_store ?s"
    "store_inv (view (db (snd (st_Range (redis_Store r) p w))))"
    using Range_ok[OF inv, of p] inv by (simp_all add: redis_Store_def unt mvcc_range_def range_of_def)
  show "fst (st_CurrentRevision (redis_Store r) w) = Inr (max 1 (m_rev (abs_store ?s)))"
    "abs_store (view (db (snd (st_CurrentRevision (redis_Store r) w)))) = abs_store ?s"
    "store_inv (view (db (snd (st_CurrentRevision (redis_Store r) w))))"
    using CurrentRevision_ok[OF inv] inv by (simp_all add: redis_Store_def unt)
  assume lim: "room (abs_store ?s)"
  then have lim': "rev_of ?s < rev_limit" by simp
  have del: "fst (Delete r k w) = Inr (m_rev (mvcc_delete k (abs_store ?s)), m_kv (abs_store ?s) k) \<and>
    abs_store (view (db (snd (Delete r k w)))) = mvcc_delete k (abs_store ?s) \<and>
    store_inv (view (db (snd (Delete r k w))))"
    using Delete_ok[OF inv lim', of k] Delete_absent[OF inv, of k] inv
    by (cases "kv_at ?s k") (simp_all add: committed_def unt mvcc_delete_def mvcc_remove_def)
  then show "fst (st_Delete (redis_Store r) k w) = Inr (m_rev (mvcc_delete k (abs_store ?s)), m_kv (abs_store ?s) k)"
    "abs_store (view (db (snd (st_Delete (redis_Store r) k w)))) = mvcc_delete k (abs_store ?s)"
    "store_inv (view (db (snd (st_Delete (redis_Store r) k w))))"
    by (simp_all add: redis_Store_def)
  assume l: "lease_ok l"
  show "fst (st_Put (redis_Store r) k v l w) = Inr (m_rev (abs_store ?s) + 1, m_kv (abs_store ?s) k)"
    "abs_store (view (db (snd (st_Put (redis_Store r) k v l w)))) = mvcc_put k v l (abs_store ?s)"
    "store_inv (view (db (snd (st_Put (redis_Store r) k v l w))))"
    using Put_ok[OF inv lim' l, of k v] by (simp_all add: redis_Store_def committed_def)
  have txn: "fst (Txn r k e ''PUT'' v l w) =
        Inr (if cas_ok e (m_kv (abs_store ?s) k)
             then \<lparr>Succeeded = True, Revision = m_rev (abs_store ?s) + 1, Current = None\<rparr>
             else \<lparr>Succeeded = False, Revision = max 1 (m_rev (abs_store ?s)), Current = m_kv (abs_store ?s) k\<rparr>) \<and>
    abs_store (view (db (snd (Txn r k e ''PUT'' v l w)))) = mvcc_cas k e v l (abs_store ?s) \<and>
    store_inv (view (db (snd (Txn r k e ''PUT'' v l w))))"
    using Txn_put[OF inv lim' l, of e k v] Txn_fail[OF inv, of e k "''PUT''" v l] inv
    by (cases "cas_ok e (kv_at ?s k)") (simp_all add: committed_def unt mvcc_cas_def)
  then show "fst (st_Txn (redis_Store r) k e ''PUT'' v l w) =
        Inr (if cas_ok e (m_kv (abs_store ?s) k)
             then \<lparr>Succeeded = True, Revision = m_rev (abs_store ?s) + 1, Current = None\<rparr>
             else \<lparr>Succeeded = False, Revision = max 1 (m_rev (abs_store ?s)), Current = m_kv (abs_store ?s) k\<rparr>)"
    "abs_store (view (db (snd (st_Txn (redis_Store r) k e ''PUT'' v l w)))) = mvcc_cas k e v l (abs_store ?s)"
    "store_inv (view (db (snd (st_Txn (redis_Store r) k e ''PUT'' v l w))))"
    by (simp_all add: redis_Store_def)
qed

sublocale redis_store \<subseteq> event_store "redis_Store r" "\<lambda>w. abs_store (view (db w))"
  "\<lambda>w. store_inv (view (db w))" "\<lambda>w. events_of (view (db w))"
  by unfold_locales
    (use BlockReadEvents_some BlockReadEvents_none BlockReadEvents_untouched in
      \<open>auto simp: redis_Store_def store_inv_def events_of_ids[unfolded store_inv_def] events_of_log untouched_def Let_def\<close>)

context redis_store
begin

lemma is_mvcc_store:
  "mvcc_store (redis_Store r) (\<lambda>w. abs_store (view (db w))) (\<lambda>w. store_inv (view (db w)))"
  by (rule mvcc_store_axioms)

lemma is_event_store:
  "event_store (redis_Store r) (\<lambda>w. abs_store (view (db w))) (\<lambda>w. store_inv (view (db w))) (\<lambda>w. events_of (view (db w)))"
  by (rule event_store_axioms)

end

section \<open>A reference store\<close>

text \<open>The reference Redis on a perfect network, with a sink that records what it is given.\<close>

definition ref_store :: "(keyspace, unit, Event list) RedisStore" where
  "ref_store = \<lparr>rs_redis = ref_redis, rs_net = (\<lambda>n. (Answer [], n)), rs_sink = Some (\<lambda>ev x. x @ [ev])\<rparr>"

definition ref_world :: "(keyspace, unit, Event list) world" where
  "ref_world = \<lparr>db = init_keyspace, net = (), snk = []\<rparr>"

lemma init_sel [simp]:
  "kv_at init_keyspace k = None" "rev_of init_keyspace = 0" "stream_of init_keyspace = []"
  "events_of init_keyspace = []"
proof -
  have other: "vals init_keyspace x = None" if "x \<noteq> revisionKey" for x
    using that by (simp add: init_keyspace_def)
  have "vals init_keyspace revisionKey = Some (RString (format_int 0))"
    by (simp add: init_keyspace_def)
  with other show "kv_at init_keyspace k = None" "rev_of init_keyspace = 0" "stream_of init_keyspace = []"
    "events_of init_keyspace = []"
    by (simp_all add: kv_at_def raw_of_def rev_of_def stream_of_def events_of_def)
qed

lemma ref_world_sel [simp]: "db ref_world = init_keyspace" "snk ref_world = []"
  by (simp_all add: ref_world_def)

lemma ref_redis_store:
  "redis_store \<lparr>rs_redis = ref_redis, rs_net = \<lambda>n. (Answer [], n), rs_sink = sink\<rparr> id ref_newid"
  using refr.redis_server_axioms by (simp add: redis_store_def redis_store_axioms_def)

interpretation refs: redis_store ref_store id ref_newid
  unfolding ref_store_def by (rule ref_redis_store)

end
