(* ===== verification/Dispatcher.thy ===== *)
theory Dispatcher
  imports StoreApi "HOL-Library.AList"
begin

text \<open>
  \<open>server/dispatcher.go\<close>: the in-process fan-out of events to watchers.

  The Go map \<open>subs\<close> holds pointers; the watch goroutine keeps its own pointer to the same object.
  The model therefore separates the two: \<open>d_objs\<close> is the heap of all \<open>watchSub\<close> objects ever
  created, by registration ID, and \<open>d_subs\<close> lists the IDs that are keys of the map.  An object
  stays readable by its watch goroutine after the dispatcher dropped it from the map.  The order of
  the list stands for the iteration order of the map; \<open>releaseLocked_obj\<close> and
  \<open>releaseLocked_subs\<close> show that it does not matter.

  A channel is the list of buffered events; \<open>pending\<close>, a Go map from revisions to events, is an
  association list.  Both locks make each operation atomic, so an operation is a function on the
  state.  Revisions and IDs are integers: revisions are bounded by \<open>rev_limit\<close> and IDs count
  registrations, so no \<open>int64\<close> here can overflow.
\<close>

section \<open>Data\<close>

definition subChanBuffer :: nat where
  "subChanBuffer = 8192"

definition readBatchSize :: int where
  "readBatchSize = 1000"

definition maxReaderErrors :: nat where
  "maxReaderErrors = 30"

definition checkpointEvery :: int where
  "checkpointEvery = 512"

definition maxPendingEvents :: nat where
  "maxPendingEvents = 4096"

record checkpoint =
  ck_rev :: int
  ck_id :: string

record watchSub =
  sub_key :: bytes
  sub_rangeEnd :: bytes
  sub_ch :: "Event list"
  sub_cancelled :: bool

definition signalCancel :: "watchSub \<Rightarrow> watchSub" where
  "signalCancel s = s\<lparr>sub_cancelled := True\<rparr>"

record eventDispatcher =
  d_subs :: "int list"
  d_objs :: "int \<rightharpoonup> watchSub"
  d_nextID :: int
  d_latestRev :: int
  d_ckCounter :: int
  d_nextRev :: int
  d_pending :: "(int \<times> Event) list"
  d_checkpoints :: "checkpoint list"
  d_flushes :: nat

definition newEventDispatcher :: eventDispatcher where
  "newEventDispatcher =
     \<lparr>d_subs = [], d_objs = Map.empty, d_nextID = 0, d_latestRev = 0, d_ckCounter = 0, d_nextRev = 0,
      d_pending = [], d_checkpoints = [], d_flushes = 0\<rparr>"

section \<open>Operations\<close>

text \<open>\<open>prime\<close> asks the store for the clamped revision and, where the store offers it, for the raw
  one.\<close>

definition prime :: "'w Store \<Rightarrow> eventDispatcher \<Rightarrow> 'w \<Rightarrow> eventDispatcher \<times> 'w" where
  "prime S d w =
     (let (res, w1) = st_CurrentRevision S w;
          latest = (case res of Inl _ \<Rightarrow> 1 | Inr rv \<Rightarrow> if rv < 1 then 1 else rv);
          next0 = (case res of Inl _ \<Rightarrow> 1 | Inr rv \<Rightarrow> rv + 1);
          (next1, w2) = (case st_RawRevision S of
                           None \<Rightarrow> (next0, w1)
                         | Some raw \<Rightarrow> (case raw w1 of (Inr n, w2) \<Rightarrow> (n + 1, w2) | (Inl _, w2) \<Rightarrow> (next0, w2)))
      in (d\<lparr>d_latestRev := latest, d_nextRev := (if next1 < 1 then 1 else next1)\<rparr>, w2))"

text \<open>\<open>register\<close> returns the ID, which also names the new object, and the boundary.\<close>

definition register :: "bytes \<Rightarrow> bytes \<Rightarrow> eventDispatcher \<Rightarrow> (int \<times> int) \<times> eventDispatcher" where
  "register key rangeEnd d =
     (let i = d_nextID d + 1
      in ((i, d_latestRev d),
          d\<lparr>d_nextID := i,
            d_objs := (d_objs d)(i \<mapsto> \<lparr>sub_key = key, sub_rangeEnd = rangeEnd, sub_ch = [], sub_cancelled = False\<rparr>),
            d_subs := d_subs d @ [i]\<rparr>))"

definition deregister :: "int \<Rightarrow> eventDispatcher \<Rightarrow> eventDispatcher" where
  "deregister i d = d\<lparr>d_subs := removeAll i (d_subs d)\<rparr>"

definition currentRev :: "eventDispatcher \<Rightarrow> int" where
  "currentRev d = d_latestRev d"

definition maybeCheckpoint :: "Event \<Rightarrow> eventDispatcher \<Rightarrow> eventDispatcher" where
  "maybeCheckpoint ev d =
     (if EvID ev = [] then d
      else let c = d_ckCounter d + 1 in
        if d_checkpoints d \<noteq> [] \<and> c < checkpointEvery then d\<lparr>d_ckCounter := c\<rparr>
        else d\<lparr>d_ckCounter := 0,
               d_checkpoints :=
                 (if d_checkpoints d = [] \<or> ck_rev (last (d_checkpoints d)) < EvRev ev
                  then d_checkpoints d @ [\<lparr>ck_rev = EvRev ev, ck_id = EvID ev\<rparr>] else d_checkpoints d)\<rparr>)"

text \<open>The body of the loop over the subscribers: a non-blocking send, or the cut.\<close>

definition send_or_cut :: "Event \<Rightarrow> int \<Rightarrow> eventDispatcher \<Rightarrow> eventDispatcher" where
  "send_or_cut ev i d =
     (case d_objs d i of
        None \<Rightarrow> d
      | Some sub \<Rightarrow>
          if \<not> matchesWatch (EvKey ev) (sub_key sub) (sub_rangeEnd sub) then d
          else if length (sub_ch sub) < subChanBuffer
          then d\<lparr>d_objs := (d_objs d)(i \<mapsto> sub\<lparr>sub_ch := sub_ch sub @ [ev]\<rparr>)\<rparr>
          else d\<lparr>d_objs := (d_objs d)(i \<mapsto> signalCancel sub), d_subs := removeAll i (d_subs d)\<rparr>)"

definition releaseLocked :: "Event \<Rightarrow> eventDispatcher \<Rightarrow> eventDispatcher" where
  "releaseLocked ev d =
     (let d1 = (if d_latestRev d < EvRev ev then d\<lparr>d_latestRev := EvRev ev\<rparr> else d);
          d2 = maybeCheckpoint ev d1
      in fold (send_or_cut ev) (d_subs d2) d2)"

section \<open>Frame of a release\<close>

lemma maybeCheckpoint_frame [simp]:
  "d_pending (maybeCheckpoint ev d) = d_pending d" "d_nextRev (maybeCheckpoint ev d) = d_nextRev d"
  "d_subs (maybeCheckpoint ev d) = d_subs d" "d_objs (maybeCheckpoint ev d) = d_objs d"
  "d_nextID (maybeCheckpoint ev d) = d_nextID d" "d_latestRev (maybeCheckpoint ev d) = d_latestRev d"
  "d_flushes (maybeCheckpoint ev d) = d_flushes d"
  by (simp_all add: maybeCheckpoint_def Let_def)

lemma send_or_cut_frame [simp]:
  "d_pending (send_or_cut ev i d) = d_pending d" "d_nextRev (send_or_cut ev i d) = d_nextRev d"
  "d_nextID (send_or_cut ev i d) = d_nextID d" "d_latestRev (send_or_cut ev i d) = d_latestRev d"
  "d_flushes (send_or_cut ev i d) = d_flushes d" "d_checkpoints (send_or_cut ev i d) = d_checkpoints d"
  "d_ckCounter (send_or_cut ev i d) = d_ckCounter d"
  by (simp_all add: send_or_cut_def split: option.splits)

lemma fold_send_frame [simp]:
  "d_pending (fold (send_or_cut ev) is d) = d_pending d" "d_nextRev (fold (send_or_cut ev) is d) = d_nextRev d"
  "d_nextID (fold (send_or_cut ev) is d) = d_nextID d" "d_latestRev (fold (send_or_cut ev) is d) = d_latestRev d"
  "d_flushes (fold (send_or_cut ev) is d) = d_flushes d" "d_checkpoints (fold (send_or_cut ev) is d) = d_checkpoints d"
  "d_ckCounter (fold (send_or_cut ev) is d) = d_ckCounter d"
  by (induction "is" arbitrary: d) simp_all

lemma releaseLocked_frame [simp]:
  "d_pending (releaseLocked ev d) = d_pending d" "d_nextRev (releaseLocked ev d) = d_nextRev d"
  "d_nextID (releaseLocked ev d) = d_nextID d" "d_flushes (releaseLocked ev d) = d_flushes d"
  "d_latestRev (releaseLocked ev d) = max (d_latestRev d) (EvRev ev)"
  by (simp_all add: releaseLocked_def Let_def)

lemma length_delete_less: "map_of al k = Some v \<Longrightarrow> length (AList.delete k al) < length al"
  by (induction al) (auto simp: AList.delete_eq less_Suc_eq_le)

text \<open>The loop of \<open>ingest\<close> that releases what is contiguous.\<close>

function release_ready :: "eventDispatcher \<Rightarrow> eventDispatcher" where
  "release_ready d =
     (case map_of (d_pending d) (d_nextRev d) of
        None \<Rightarrow> d
      | Some ev \<Rightarrow> release_ready
          ((releaseLocked ev (d\<lparr>d_pending := AList.delete (d_nextRev d) (d_pending d)\<rparr>))\<lparr>d_nextRev := d_nextRev d + 1\<rparr>))"
  by pat_completeness auto

termination
  by (relation "measure (\<lambda>d. length (d_pending d))") (simp_all add: length_delete_less)

declare release_ready.simps [simp del]

definition flush_one :: "int \<Rightarrow> eventDispatcher \<Rightarrow> eventDispatcher" where
  "flush_one rv d =
     (case map_of (d_pending d) rv of
        None \<Rightarrow> d
      | Some ev \<Rightarrow> releaseLocked ev (d\<lparr>d_pending := AList.delete rv (d_pending d)\<rparr>))"

definition flushPendingLocked :: "eventDispatcher \<Rightarrow> eventDispatcher" where
  "flushPendingLocked d =
     (let revs = sort (map fst (d_pending d));
          d1 = fold flush_one revs d;
          d2 = (if revs = [] then d1 else d1\<lparr>d_nextRev := last revs + 1\<rparr>)
      in d2\<lparr>d_flushes := d_flushes d2 + 1\<rparr>)"

definition ingest :: "Event \<Rightarrow> eventDispatcher \<Rightarrow> eventDispatcher" where
  "ingest ev d =
     (if EvRev ev \<le> 0 then d
      else let d0 = (if d_nextRev d = 0 then d\<lparr>d_nextRev := EvRev ev\<rparr> else d) in
        if EvRev ev < d_nextRev d0 then d0
        else let d1 = release_ready (d0\<lparr>d_pending := AList.update (EvRev ev) ev (d_pending d0)\<rparr>) in
          if maxPendingEvents < length (d_pending d1) then flushPendingLocked d1 else d1)"

text \<open>The binary search of \<open>seekStreamID\<close>.\<close>

function seek_loop :: "checkpoint list \<Rightarrow> int \<Rightarrow> nat \<Rightarrow> nat \<Rightarrow> int \<Rightarrow> int" where
  "seek_loop cks startRev lo hi idx =
     (if lo < hi
      then let mid = (lo + hi) div 2 in
        if ck_rev (cks ! mid) < startRev then seek_loop cks startRev (mid + 1) hi (int mid)
        else seek_loop cks startRev lo mid idx
      else idx)"
  by pat_completeness auto

termination
  by (relation "measure (\<lambda>(cks, startRev, lo, hi, idx). hi - lo)") auto

declare seek_loop.simps [simp del]

definition seekStreamID :: "int \<Rightarrow> eventDispatcher \<Rightarrow> string" where
  "seekStreamID startRev d =
     (let idx = seek_loop (d_checkpoints d) startRev 0 (length (d_checkpoints d)) (- 1) - 1
      in if idx < 0 then ''0'' else ck_id (d_checkpoints d ! nat idx))"

end
