(* ===== verification/KVServer.thy ===== *)
theory KVServer
  imports StoreApi
begin

text \<open>
  The KV service of \<open>server/kv*.go\<close> and \<open>server/compact.go\<close>, and the Status call of
  \<open>server/maintenance.go\<close>, over any implementation of the \<open>Store\<close> interface.  The request
  and response messages carry the fields the handlers read or write.
\<close>

section \<open>Messages\<close>

record ResponseHeader =
  ClusterId :: int
  MemberId :: int
  HdrRevision :: int

definition hdr :: "int \<Rightarrow> ResponseHeader" where
  "hdr rv = \<lparr>ClusterId = 1, MemberId = 1, HdrRevision = rv\<rparr>"

text \<open>\<open>mvccpb.KeyValue\<close>\<close>

record PbKV =
  PbKey :: bytes
  PbValue :: bytes
  PbCreateRevision :: int
  PbModRevision :: int
  PbVersion :: int
  PbLease :: int

definition toProtoKV :: "KeyValue \<Rightarrow> PbKV" where
  "toProtoKV kv = \<lparr>PbKey = Key kv, PbValue = Value kv, PbCreateRevision = CreateRevision kv,
     PbModRevision = ModRevision kv, PbVersion = Version kv, PbLease = Lease kv\<rparr>"

record PutRequest =
  PR_Key :: bytes
  PR_Value :: bytes
  PR_Lease :: int
  PR_PrevKv :: bool

record PutResponse =
  PP_Header :: ResponseHeader
  PP_PrevKv :: "PbKV option"

record RangeRequest =
  RR_Key :: bytes
  RR_RangeEnd :: bytes
  RR_CountOnly :: bool

record RangeResponse =
  RP_Header :: ResponseHeader
  RP_Count :: int
  RP_Kvs :: "PbKV list"

record DeleteRangeRequest =
  DR_Key :: bytes
  DR_RangeEnd :: bytes

record DeleteRangeResponse =
  DP_Header :: ResponseHeader
  DP_Deleted :: int

datatype CompareResult = EQUAL | GREATER | LESS | NOT_EQUAL
datatype CompareTarget = VERSION | CREATE | MOD | VALUE | LEASE

text \<open>The \<open>oneof\<close> of a compare; a getter of another case returns 0.\<close>

datatype TargetUnion = TU_Version int | TU_CreateRevision int | TU_ModRevision int | TU_Other

record Compare =
  C_Result :: CompareResult
  C_Target :: CompareTarget
  C_Key :: bytes
  C_Union :: TargetUnion

fun GetVersion :: "TargetUnion \<Rightarrow> int" where
  "GetVersion (TU_Version n) = n" | "GetVersion _ = 0"

fun GetCreateRevision :: "TargetUnion \<Rightarrow> int" where
  "GetCreateRevision (TU_CreateRevision n) = n" | "GetCreateRevision _ = 0"

fun GetModRevision :: "TargetUnion \<Rightarrow> int" where
  "GetModRevision (TU_ModRevision n) = n" | "GetModRevision _ = 0"

text \<open>\<open>RequestOther\<close> is a nested transaction or an operation that is not set.\<close>

datatype RequestOp =
    RequestPut PutRequest
  | RequestRange RangeRequest
  | RequestDeleteRange DeleteRangeRequest
  | RequestOther

datatype ResponseOp =
    ResponsePut PutResponse
  | ResponseRange RangeResponse
  | ResponseDeleteRange DeleteRangeResponse
  | ResponseEmpty

fun GetRequestPut :: "RequestOp \<Rightarrow> PutRequest option" where
  "GetRequestPut (RequestPut p) = Some p" | "GetRequestPut _ = None"

fun GetRequestRange :: "RequestOp \<Rightarrow> RangeRequest option" where
  "GetRequestRange (RequestRange p) = Some p" | "GetRequestRange _ = None"

record TxnRequest =
  T_Compare :: "Compare list"
  T_Success :: "RequestOp list"
  T_Failure :: "RequestOp list"

record TxnResponse =
  TR_Header :: ResponseHeader
  TR_Succeeded :: bool
  TR_Responses :: "ResponseOp list"

section \<open>Handlers\<close>

text \<open>\<open>rev, _ := s.store.CurrentRevision(ctx)\<close>: 0 on an error.\<close>

definition rev_or_zero :: "'w Store \<Rightarrow> ('w, gerr, int) cmd" where
  "rev_or_zero S w =
     (case st_CurrentRevision S w of (Inl _, w') \<Rightarrow> (Inr 0, w') | (Inr rv, w') \<Rightarrow> (Inr rv, w'))"

definition header :: "'w Store \<Rightarrow> ('w, gerr, ResponseHeader) cmd" where
  "header S = bindE (rev_or_zero S) (\<lambda>rv. retE (hdr rv))"

definition KV_Put :: "'w Store \<Rightarrow> PutRequest \<Rightarrow> ('w, gerr, PutResponse) cmd" where
  "KV_Put S req =
     bindE (st_Put S (PR_Key req) (PR_Value req) (PR_Lease req)) (\<lambda>(rv, prevKV).
     retE \<lparr>PP_Header = hdr rv,
           PP_PrevKv = (if PR_PrevKv req then map_option toProtoKV prevKV else None)\<rparr>)"

text \<open>\<open>if curRev, err := CurrentRevision(ctx); err == nil && curRev > rev { rev = curRev }\<close>\<close>

definition raise_rev :: "'w Store \<Rightarrow> int \<Rightarrow> ('w, gerr, int) cmd" where
  "raise_rev S rv w =
     (case st_CurrentRevision S w of
        (Inl _, w') \<Rightarrow> (Inr rv, w')
      | (Inr curRev, w') \<Rightarrow> (Inr (if rv < curRev then curRev else rv), w'))"

definition KV_Range :: "'w Store \<Rightarrow> RangeRequest \<Rightarrow> ('w, gerr, RangeResponse) cmd" where
  "KV_Range S req =
     (let key = RR_Key req; rangeEnd = RR_RangeEnd req in
      bindE (if rangeEnd = []
             then bindE (st_Get S key) (\<lambda>kv.
                  let kvs = (case kv of Some x \<Rightarrow> [x] | None \<Rightarrow> []);
                      rv = (case kv of Some x \<Rightarrow> ModRevision x | None \<Rightarrow> 0)
                  in bindE (raise_rev S rv) (\<lambda>rv'. retE (rv', kvs)))
             else bindE (st_Range S (commonPrefix key rangeEnd)) (\<lambda>(rv, all).
                  retE (rv, filter (\<lambda>kv. in_request_range (Key kv) key rangeEnd) all))) (\<lambda>(rv, kvs).
      retE \<lparr>RP_Header = hdr rv, RP_Count = int (length kvs),
            RP_Kvs = (if RR_CountOnly req then [] else map toProtoKV kvs)\<rparr>))"

fun delete_loop :: "'w Store \<Rightarrow> bytes \<Rightarrow> bytes \<Rightarrow> KeyValue list \<Rightarrow> int \<Rightarrow> ('w, gerr, int) cmd" where
  "delete_loop S key rangeEnd [] deleted = retE deleted"
| "delete_loop S key rangeEnd (kv # kvs) deleted =
     (if in_request_range (Key kv) key rangeEnd
      then bindE (st_Delete S (Key kv)) (\<lambda>_. delete_loop S key rangeEnd kvs (deleted + 1))
      else delete_loop S key rangeEnd kvs deleted)"

definition KV_DeleteRange :: "'w Store \<Rightarrow> DeleteRangeRequest \<Rightarrow> ('w, gerr, DeleteRangeResponse) cmd" where
  "KV_DeleteRange S req =
     (let key = DR_Key req; rangeEnd = DR_RangeEnd req in
      bindE (if rangeEnd = []
             then bindE (st_Delete S key) (\<lambda>(_, prev). retE (if prev \<noteq> None then 1 else 0))
             else bindE (st_Range S (commonPrefix key rangeEnd)) (\<lambda>(_, kvs).
                  delete_loop S key rangeEnd kvs 0)) (\<lambda>deleted.
      bindE (header S) (\<lambda>h. retE \<lparr>DP_Header = h, DP_Deleted = deleted\<rparr>)))"

definition Compact :: "'w Store \<Rightarrow> int \<Rightarrow> ('w, gerr, ResponseHeader) cmd" where
  "Compact S revision = header S"

section \<open>Transactions\<close>

text \<open>A one-compare, one-put transaction on the modification revision.\<close>

definition isCreate :: "TxnRequest \<Rightarrow> PutRequest option" where
  "isCreate req =
     (case (T_Compare req, T_Success req, T_Failure req) of
        ([c], [s], []) \<Rightarrow>
          if C_Target c = MOD \<and> C_Result c = EQUAL \<and> GetModRevision (C_Union c) = 0 then GetRequestPut s else None
      | _ \<Rightarrow> None)"

definition isUpdate :: "TxnRequest \<Rightarrow> (int \<times> bytes \<times> bytes \<times> int) option" where
  "isUpdate req =
     (case (T_Compare req, T_Success req, T_Failure req) of
        ([c], [s], [f]) \<Rightarrow>
          if C_Target c = MOD \<and> C_Result c = EQUAL \<and> GetRequestRange f \<noteq> None
          then map_option (\<lambda>p. (GetModRevision (C_Union c), C_Key c, PR_Value p, PR_Lease p)) (GetRequestPut s)
          else None
      | _ \<Rightarrow> None)"

definition put_response :: "int \<Rightarrow> ResponseOp" where
  "put_response rv = ResponsePut \<lparr>PP_Header = hdr rv, PP_PrevKv = None\<rparr>"

definition kv_create :: "'w Store \<Rightarrow> PutRequest \<Rightarrow> ('w, gerr, TxnResponse) cmd" where
  "kv_create S put =
     bindE (st_Txn S (PR_Key put) (- 1) ''PUT'' (PR_Value put) (PR_Lease put)) (\<lambda>res.
     retE \<lparr>TR_Header = hdr (Revision res), TR_Succeeded = Succeeded res,
           TR_Responses = (if Succeeded res then [put_response (Revision res)] else [])\<rparr>)"

definition kv_update :: "'w Store \<Rightarrow> bytes \<Rightarrow> int \<Rightarrow> bytes \<Rightarrow> int \<Rightarrow> ('w, gerr, TxnResponse) cmd" where
  "kv_update S key expectedRev val lease =
     bindE (st_Txn S key expectedRev ''PUT'' val lease) (\<lambda>res.
     retE \<lparr>TR_Header = hdr (Revision res), TR_Succeeded = Succeeded res,
           TR_Responses =
             (if Succeeded res then [put_response (Revision res)]
              else [ResponseRange
                     (case Current res of
                        Some kv \<Rightarrow> \<lparr>RP_Header = hdr (Revision res), RP_Count = 1, RP_Kvs = [toProtoKV kv]\<rparr>
                      | None \<Rightarrow> \<lparr>RP_Header = hdr (Revision res), RP_Count = 0, RP_Kvs = []\<rparr>)])\<rparr>)"

definition cmp_result :: "CompareResult \<Rightarrow> int \<Rightarrow> int \<Rightarrow> bool" where
  "cmp_result res actual expected =
     (case res of EQUAL \<Rightarrow> actual = expected | NOT_EQUAL \<Rightarrow> actual \<noteq> expected
      | GREATER \<Rightarrow> expected < actual | LESS \<Rightarrow> actual < expected)"

definition compare_kv :: "Compare \<Rightarrow> KeyValue option \<Rightarrow> bool" where
  "compare_kv c kv =
     (let field = (\<lambda>f. case kv of Some x \<Rightarrow> f x | None \<Rightarrow> 0) in
      case C_Target c of
        VERSION \<Rightarrow> cmp_result (C_Result c) (field Version) (GetVersion (C_Union c))
      | MOD \<Rightarrow> cmp_result (C_Result c) (field ModRevision) (GetModRevision (C_Union c))
      | CREATE \<Rightarrow> cmp_result (C_Result c) (field CreateRevision) (GetCreateRevision (C_Union c))
      | _ \<Rightarrow> False)"

definition evalCompare :: "'w Store \<Rightarrow> Compare \<Rightarrow> ('w, gerr, bool) cmd" where
  "evalCompare S c = bindE (st_Get S (C_Key c)) (\<lambda>kv. retE (compare_kv c kv))"

fun evalCompares :: "'w Store \<Rightarrow> Compare list \<Rightarrow> ('w, gerr, bool) cmd" where
  "evalCompares S [] = retE True"
| "evalCompares S (c # cs) =
     bindE (evalCompare S c) (\<lambda>ok. if \<not> ok then retE False else evalCompares S cs)"

definition executeOp :: "'w Store \<Rightarrow> RequestOp \<Rightarrow> ('w, gerr, ResponseOp) cmd" where
  "executeOp S op =
     (case op of
        RequestPut p \<Rightarrow> bindE (st_Put S (PR_Key p) (PR_Value p) (PR_Lease p)) (\<lambda>(rv, _). retE (put_response rv))
      | RequestRange q \<Rightarrow> bindE (KV_Range S q) (\<lambda>resp. retE (ResponseRange resp))
      | RequestDeleteRange q \<Rightarrow> bindE (KV_DeleteRange S q) (\<lambda>resp. retE (ResponseDeleteRange resp))
      | RequestOther \<Rightarrow> retE ResponseEmpty)"

fun executeOps :: "'w Store \<Rightarrow> RequestOp list \<Rightarrow> ResponseOp list \<Rightarrow> ('w, gerr, ResponseOp list) cmd" where
  "executeOps S [] results = retE results"
| "executeOps S (op # ops) results = bindE (executeOp S op) (\<lambda>resp. executeOps S ops (results @ [resp]))"

definition genericTxn :: "'w Store \<Rightarrow> TxnRequest \<Rightarrow> ('w, gerr, TxnResponse) cmd" where
  "genericTxn S req =
     bindE (evalCompares S (T_Compare req)) (\<lambda>succeeded.
     bindE (executeOps S (if succeeded then T_Success req else T_Failure req) []) (\<lambda>results.
     bindE (header S) (\<lambda>h.
     retE \<lparr>TR_Header = h, TR_Succeeded = succeeded, TR_Responses = results\<rparr>)))"

definition KV_Txn :: "'w Store \<Rightarrow> TxnRequest \<Rightarrow> ('w, gerr, TxnResponse) cmd" where
  "KV_Txn S req =
     (case isCreate req of
        Some put \<Rightarrow> kv_create S put
      | None \<Rightarrow>
          (case isUpdate req of
             Some (rv, key, val, lease) \<Rightarrow> kv_update S key rv val lease
           | None \<Rightarrow> genericTxn S req))"

section \<open>Maintenance\<close>

record StatusResponse =
  S_Header :: ResponseHeader
  S_Version :: string
  S_DbSize :: int
  S_Leader :: int
  S_RaftIndex :: int
  S_RaftTerm :: int

text \<open>\<open>uint64(rev)\<close> is the revision modulo \<open>2 ^ 64\<close>.\<close>

definition Status :: "'w Store \<Rightarrow> ('w, gerr, StatusResponse) cmd" where
  "Status S =
     bindE (rev_or_zero S) (\<lambda>rv.
     retE \<lparr>S_Header = hdr rv, S_Version = ''3.5.24'', S_DbSize = 0, S_Leader = 1,
           S_RaftIndex = rv mod 2 ^ 64, S_RaftTerm = 1\<rparr>)"

end
