(* ===== verification/WatchServer.thy ===== *)
theory WatchServer
  imports Dispatcher KVServer
begin

text \<open>
  The Watch service, \<open>server/watch.go\<close>.

  The pointer \<open>disp\<close> of the server is an access path into the world: \<open>ws_disp\<close> reads the
  dispatcher and \<open>ws_upd\<close> changes it.  The gRPC stream is a parameter \<open>send\<close>, which tells
  whether the message was accepted.  Code that runs while other goroutines run takes what those do as
  an argument: \<open>catchUp\<close> a function \<open>env\<close> applied before each look at the world,
  \<open>tail_loop\<close> a schedule with one such function per round.  Histograms and counters of the metrics
  package are left out.
\<close>

section \<open>Messages\<close>

datatype EventType = PUT | DELETE

record PbEvent =
  PE_Type :: EventType
  PE_Kv :: "PbKV option"
  PE_PrevKv :: "PbKV option"

record WatchCreateRequest =
  WC_Key :: bytes
  WC_RangeEnd :: bytes
  WC_StartRevision :: int

datatype WatchRequest = CreateRequest WatchCreateRequest | CancelRequest int | ProgressRequest | NoRequest

record WatchResponse =
  WR_Header :: ResponseHeader
  WR_WatchId :: int
  WR_Created :: bool
  WR_Canceled :: bool
  WR_CancelReason :: string
  WR_Events :: "PbEvent list"

text \<open>A response with the given header revision and watch ID; the other fields are Go's zero values.\<close>

definition response :: "int \<Rightarrow> int \<Rightarrow> WatchResponse" where
  "response rv i = \<lparr>WR_Header = hdr rv, WR_WatchId = i, WR_Created = False, WR_Canceled = False, WR_CancelReason = [], WR_Events = []\<rparr>"

definition invalidWatchID :: int where
  "invalidWatchID = - 1"

definition maxSendBatch :: nat where
  "maxSendBatch = 1000"

definition eventToProto :: "Event \<Rightarrow> PbEvent option" where
  "eventToProto ev =
     (if EvType ev = ''PUT''
      then Some \<lparr>PE_Type = PUT, PE_Kv = map_option toProtoKV (EvKV ev), PE_PrevKv = map_option toProtoKV (EvPrevKV ev)\<rparr>
      else if EvType ev = ''DELETE''
      then Some \<lparr>PE_Type = DELETE,
                 PE_Kv = Some \<lparr>PbKey = EvKey ev, PbValue = [], PbCreateRevision = 0, PbModRevision = EvRev ev, PbVersion = 0, PbLease = 0\<rparr>,
                 PE_PrevKv = map_option toProtoKV (EvPrevKV ev)\<rparr>
      else None)"

definition effectiveStartRevision :: "int \<Rightarrow> int \<Rightarrow> int" where
  "effectiveStartRevision requested current = (if 0 < requested then requested else current + 1)"

text \<open>The scan of \<open>watchPrefixLabel\<close>: \<open>n\<close> slashes in the prefix \<open>seen\<close> so far.\<close>

fun label_scan :: "bytes \<Rightarrow> bytes \<Rightarrow> nat \<Rightarrow> bytes option" where
  "label_scan seen [] n = None"
| "label_scan seen (c # s) n =
     (if c = CHR ''/'' then if n + 1 = 3 then Some seen else label_scan (seen @ [c]) s (n + 1)
      else label_scan (seen @ [c]) s n)"

definition watchPrefixLabel :: "bytes \<Rightarrow> string" where
  "watchPrefixLabel s =
     (case label_scan [] s 0 of Some l \<Rightarrow> l | None \<Rightarrow> if s = [] then ''(empty)'' else s)"

section \<open>The server\<close>

record 'w WatchServer =
  ws_store :: "'w Store"
  ws_disp :: "'w \<Rightarrow> eventDispatcher"
  ws_upd :: "(eventDispatcher \<Rightarrow> eventDispatcher) \<Rightarrow> 'w \<Rightarrow> 'w"

text \<open>\<open>NewWatchServer\<close> on a Redis store: the dispatcher is the state of the store's sink.\<close>

definition NewWatchServer ::
  "('d, 'n, eventDispatcher) RedisStore \<Rightarrow> ('d, 'n, eventDispatcher) world \<Rightarrow>
   (('d, 'n, eventDispatcher) RedisStore \<times> ('d, 'n, eventDispatcher) world WatchServer) \<times> ('d, 'n, eventDispatcher) world"
where
  "NewWatchServer r w =
     (let (d, w1) = prime (redis_Store r) newEventDispatcher w;
          r' = SetEventSink (Some ingest) r
      in ((r', \<lparr>ws_store = redis_Store r', ws_disp = snk, ws_upd = (\<lambda>f w. w\<lparr>snk := f (snk w)\<rparr>)\<rparr>), w1\<lparr>snk := d\<rparr>))"

text \<open>What a watch goroutine sees: the world, its stream, and whether its context is done.\<close>

record ('w, 'g) watch_view =
  v_world :: 'w
  v_stream :: 'g
  v_done :: bool

type_synonym 'g sender = "WatchResponse \<Rightarrow> 'g \<Rightarrow> bool \<times> 'g"

text \<open>\<open>sender.Send\<close>: the stream's own \<open>Send\<close> under the mutex, on the goroutine's view.\<close>

definition Send :: "'g sender \<Rightarrow> WatchResponse \<Rightarrow> ('w, 'g) watch_view \<Rightarrow> bool \<times> ('w, 'g) watch_view" where
  "Send send resp v = (fst (send resp (v_stream v)), v\<lparr>v_stream := snd (send resp (v_stream v))\<rparr>)"

section \<open>Collecting live events\<close>

text \<open>The closure \<open>add\<close>; the accumulator is \<open>(matched, createdMs)\<close>.\<close>

definition add_event :: "int \<Rightarrow> int \<Rightarrow> Event \<Rightarrow> PbEvent list \<times> int list \<Rightarrow> PbEvent list \<times> int list" where
  "add_event boundary startRevision ev acc =
     (if EvRev ev \<le> boundary \<or> EvRev ev < startRevision then acc
      else case eventToProto ev of
             None \<Rightarrow> acc
           | Some e \<Rightarrow> (fst acc @ [e], snd acc @ [EvCreatedMs ev]))"

text \<open>The loop also returns what it leaves in the channel.\<close>

fun collect_loop :: "int \<Rightarrow> int \<Rightarrow> Event list \<Rightarrow> PbEvent list \<times> int list \<Rightarrow> (PbEvent list \<times> int list) \<times> Event list" where
  "collect_loop boundary startRevision ch acc =
     (if length (fst acc) < maxSendBatch
      then case ch of
             [] \<Rightarrow> (acc, [])
           | ev # ch' \<Rightarrow> collect_loop boundary startRevision ch' (add_event boundary startRevision ev acc)
      else (acc, ch))"

declare collect_loop.simps [simp del]

definition collectEvents ::
  "Event \<Rightarrow> Event list \<Rightarrow> int \<Rightarrow> int \<Rightarrow> bytes \<Rightarrow> bytes \<Rightarrow> (PbEvent list \<times> int list) \<times> Event list"
where
  "collectEvents first ch boundary startRevision key rangeEnd =
     collect_loop boundary startRevision ch (add_event boundary startRevision first ([], []))"

section \<open>Catching up\<close>

text \<open>The inner loop over one batch: the events to send, and whether the boundary was passed.\<close>

fun catch_scan :: "bytes \<Rightarrow> bytes \<Rightarrow> int \<Rightarrow> int \<Rightarrow> Event list \<Rightarrow> PbEvent list \<Rightarrow> PbEvent list \<times> bool" where
  "catch_scan key rangeEnd startRevision boundary [] matched = (matched, False)"
| "catch_scan key rangeEnd startRevision boundary (ev # evs) matched =
     (if boundary < EvRev ev then (matched, True)
      else if EvRev ev < startRevision \<or> \<not> matchesWatch (EvKey ev) key rangeEnd
      then catch_scan key rangeEnd startRevision boundary evs matched
      else case eventToProto ev of
             None \<Rightarrow> catch_scan key rangeEnd startRevision boundary evs matched
           | Some e \<Rightarrow> catch_scan key rangeEnd startRevision boundary evs (matched @ [e]))"

definition unavailable :: "int \<Rightarrow> int \<Rightarrow> WatchResponse" where
  "unavailable rv i = (response rv i)\<lparr>WR_Canceled := True, WR_CancelReason := ''watch backend unavailable''\<rparr>"

text \<open>
  One round of the loop: \<open>Inr b\<close> returns \<open>b\<close>, \<open>Inl (lastID, consecErr)\<close> goes round again.
  \<open>env\<close> acts before the round and during the read.  Waiting out the back-off and seeing the
  context end during it lead to the same check at the top of the next round.
\<close>

definition catchUp_round ::
  "'w WatchServer \<Rightarrow> 'g sender \<Rightarrow> (('w, 'g) watch_view \<Rightarrow> ('w, 'g) watch_view) \<Rightarrow> int \<Rightarrow> bytes \<Rightarrow> bytes \<Rightarrow> int \<Rightarrow> int \<Rightarrow>
   string \<Rightarrow> nat \<Rightarrow> ('w, 'g) watch_view \<Rightarrow> (string \<times> nat + bool) \<times> ('w, 'g) watch_view"
where
  "catchUp_round ws send env i key rangeEnd startRevision boundary lastID consecErr v =
     (let v0 = env v in
      if v_done v0 then (Inr False, v0)
      else let (res, w1) = st_BlockReadEvents (ws_store ws) (v_done v0) lastID readBatchSize (v_world v0);
               v1 = v0\<lparr>v_world := w1\<rparr>
      in case res of
           Inl _ \<Rightarrow>
             let v2 = env v1 in
             if v_done v2 then (Inr False, v2)
             else if maxReaderErrors \<le> consecErr + 1
             then (Inr False, snd (Send send (unavailable (currentRev (ws_disp ws (v_world v2))) i) v2))
             else (Inl (lastID, consecErr + 1), v2)
         | Inr (events, newLastID) \<Rightarrow>
             if events = [] then (Inr True, v1)
             else let (matched, reached) = catch_scan key rangeEnd startRevision boundary events [];
                      (sent, v2) = (if matched = [] then (True, v1)
                        else Send send ((response (currentRev (ws_disp ws (v_world v1))) i)\<lparr>WR_Events := matched\<rparr>) v1)
                  in if \<not> sent then (Inr False, v2)
                     else if reached then (Inr True, v2)
                     else (Inl (newLastID, 0), v2))"

text \<open>The loop, with fuel; \<open>env n\<close> acts in the round that starts with \<open>n\<close> units left.\<close>

fun catchUp_loop ::
  "nat \<Rightarrow> 'w WatchServer \<Rightarrow> 'g sender \<Rightarrow> (nat \<Rightarrow> ('w, 'g) watch_view \<Rightarrow> ('w, 'g) watch_view) \<Rightarrow> int \<Rightarrow> bytes \<Rightarrow> bytes \<Rightarrow> int \<Rightarrow> int \<Rightarrow>
   string \<Rightarrow> nat \<Rightarrow> ('w, 'g) watch_view \<Rightarrow> bool option \<times> ('w, 'g) watch_view"
where
  "catchUp_loop 0 ws send env i key rangeEnd startRevision boundary lastID consecErr v = (None, v)"
| "catchUp_loop (Suc n) ws send env i key rangeEnd startRevision boundary lastID consecErr v =
     (case catchUp_round ws send (env (Suc n)) i key rangeEnd startRevision boundary lastID consecErr v of
        (Inr b, v') \<Rightarrow> (Some b, v')
      | (Inl (lastID', consecErr'), v') \<Rightarrow>
          catchUp_loop n ws send env i key rangeEnd startRevision boundary lastID' consecErr' v')"

definition catchUp ::
  "nat \<Rightarrow> 'w WatchServer \<Rightarrow> 'g sender \<Rightarrow> (nat \<Rightarrow> ('w, 'g) watch_view \<Rightarrow> ('w, 'g) watch_view) \<Rightarrow> int \<Rightarrow> bytes \<Rightarrow> bytes \<Rightarrow> int \<Rightarrow> int \<Rightarrow>
   ('w, 'g) watch_view \<Rightarrow> bool option \<times> ('w, 'g) watch_view"
where
  "catchUp fuel ws send env i key rangeEnd startRevision boundary v =
     catchUp_loop fuel ws send env i key rangeEnd startRevision boundary
       (seekStreamID startRevision (ws_disp ws (v_world v))) 0 v"

section \<open>Tailing\<close>

text \<open>
  The cases of the \<open>select\<close>.  \<open>Ticker due\<close> is a tick at which \<open>due\<close> tells whether
  \<open>progressInterval\<close> has passed since the last send.
\<close>

datatype tail_case = CtxDone | CancelCh | SubCh | Ticker bool

text \<open>A case can be chosen when its channel is ready.\<close>

definition tail_ready :: "'w WatchServer \<Rightarrow> int \<Rightarrow> tail_case \<Rightarrow> ('w, 'g) watch_view \<Rightarrow> bool" where
  "tail_ready ws subID c v =
     (case c of
        CtxDone \<Rightarrow> v_done v
      | CancelCh \<Rightarrow> (case d_objs (ws_disp ws (v_world v)) subID of Some sub \<Rightarrow> sub_cancelled sub | None \<Rightarrow> False)
      | SubCh \<Rightarrow> (case d_objs (ws_disp ws (v_world v)) subID of Some sub \<Rightarrow> sub_ch sub \<noteq> [] | None \<Rightarrow> False)
      | Ticker _ \<Rightarrow> True)"

text \<open>Taking the rest of a channel after reading from it.\<close>

definition set_channel :: "int \<Rightarrow> Event list \<Rightarrow> eventDispatcher \<Rightarrow> eventDispatcher" where
  "set_channel subID ch d = d\<lparr>d_objs := (d_objs d)(subID := map_option (\<lambda>sub. sub\<lparr>sub_ch := ch\<rparr>) (d_objs d subID))\<rparr>"

text \<open>One case of the \<open>select\<close>; the result tells whether the goroutine returns.\<close>

definition tail_step ::
  "'w WatchServer \<Rightarrow> 'g sender \<Rightarrow> int \<Rightarrow> bytes \<Rightarrow> bytes \<Rightarrow> int \<Rightarrow> int \<Rightarrow> int \<Rightarrow> tail_case \<Rightarrow> ('w, 'g) watch_view \<Rightarrow> bool \<times> ('w, 'g) watch_view"
where
  "tail_step ws send i key rangeEnd startRevision subID boundary c v =
     (let d = ws_disp ws (v_world v) in
      case c of
        CtxDone \<Rightarrow> (True, v)
      | CancelCh \<Rightarrow> (True, snd (Send send (unavailable (currentRev d) i) v))
      | SubCh \<Rightarrow>
          (case d_objs d subID of
             Some sub \<Rightarrow>
               (case sub_ch sub of
                  ev # rest \<Rightarrow>
                    let ((matched, createdMs), rest') = collectEvents ev rest boundary startRevision key rangeEnd;
                        v1 = v\<lparr>v_world := ws_upd ws (set_channel subID rest') (v_world v)\<rparr>
                    in if matched = [] then (False, v1)
                       else let (ok, v2) = Send send ((response (currentRev d) i)\<lparr>WR_Events := matched\<rparr>) v1
                            in (\<not> ok, v2)
                | [] \<Rightarrow> (False, v))
           | None \<Rightarrow> (False, v))
      | Ticker due \<Rightarrow>
          if due then let (ok, v1) = Send send (response (currentRev d) i) v in (\<not> ok, v1)
          else (False, v))"

fun tail_loop ::
  "'w WatchServer \<Rightarrow> 'g sender \<Rightarrow> int \<Rightarrow> bytes \<Rightarrow> bytes \<Rightarrow> int \<Rightarrow> int \<Rightarrow> int \<Rightarrow>
   ((('w, 'g) watch_view \<Rightarrow> ('w, 'g) watch_view) \<times> tail_case) list \<Rightarrow> ('w, 'g) watch_view \<Rightarrow> bool \<times> ('w, 'g) watch_view"
where
  "tail_loop ws send i key rangeEnd startRevision subID boundary [] v = (False, v)"
| "tail_loop ws send i key rangeEnd startRevision subID boundary ((env, c) # sched) v =
     (let v0 = env v in
      if \<not> tail_ready ws subID c v0
      then tail_loop ws send i key rangeEnd startRevision subID boundary sched v0
      else case tail_step ws send i key rangeEnd startRevision subID boundary c v0 of
             (True, v1) \<Rightarrow> (True, v1)
           | (False, v1) \<Rightarrow> tail_loop ws send i key rangeEnd startRevision subID boundary sched v1)"

text \<open>
  The whole goroutine, up to the end of the schedule.  The deferred \<open>deregister\<close> runs when it
  returns.  The result tells whether it has returned.
\<close>

definition tailWatch ::
  "nat \<Rightarrow> 'w WatchServer \<Rightarrow> 'g sender \<Rightarrow> (nat \<Rightarrow> ('w, 'g) watch_view \<Rightarrow> ('w, 'g) watch_view) \<Rightarrow>
   ((('w, 'g) watch_view \<Rightarrow> ('w, 'g) watch_view) \<times> tail_case) list \<Rightarrow> int \<Rightarrow> WatchCreateRequest \<Rightarrow>
   ('w, 'g) watch_view \<Rightarrow> bool \<times> ('w, 'g) watch_view"
where
  "tailWatch fuel ws send env sched i req v =
     (let key = WC_Key req; rangeEnd = WC_RangeEnd req; startRevision = WC_StartRevision req;
          (subID, boundary) = fst (register key rangeEnd (ws_disp ws (v_world v)));
          v0 = v\<lparr>v_world := ws_upd ws (\<lambda>d. snd (register key rangeEnd d)) (v_world v)\<rparr>;
          leave = (\<lambda>v. v\<lparr>v_world := ws_upd ws (deregister subID) (v_world v)\<rparr>);
          (caught, v1) = (if startRevision \<le> boundary
                          then catchUp fuel ws send env i key rangeEnd startRevision boundary v0
                          else (Some True, v0))
      in case caught of
           None \<Rightarrow> (False, v1)
         | Some False \<Rightarrow> (True, leave v1)
         | Some True \<Rightarrow>
             (case tail_loop ws send i key rangeEnd startRevision subID boundary sched v1 of
                (True, v2) \<Rightarrow> (True, leave v2)
              | (False, v2) \<Rightarrow> (False, v2)))"

section \<open>One connection\<close>

text \<open>
  The handler \<open>Watch\<close>: its counter of watch IDs, the keys of its map \<open>cancels\<close>, the watches
  whose cancel function was called, and the goroutines it has started and that still run.
\<close>

record ('w, 'g) watch_conn =
  wc_world :: 'w
  wc_stream :: 'g
  wc_watchID :: int
  wc_cancels :: "int list"
  wc_cancelled :: "int list"
  wc_running :: "(int \<times> WatchCreateRequest) list"

definition conn_send :: "'g sender \<Rightarrow> WatchResponse \<Rightarrow> ('w, 'g) watch_conn \<Rightarrow> ('w, 'g) watch_conn" where
  "conn_send send resp c = c\<lparr>wc_stream := snd (send resp (wc_stream c))\<rparr>"

definition handle_create :: "'w WatchServer \<Rightarrow> 'g sender \<Rightarrow> WatchCreateRequest \<Rightarrow> ('w, 'g) watch_conn \<Rightarrow> ('w, 'g) watch_conn" where
  "handle_create ws send cr c =
     (let i = wc_watchID c + 1;
          (res, w1) = rev_or_zero (ws_store ws) (wc_world c);
          rv = (case res of Inr n \<Rightarrow> n | Inl _ \<Rightarrow> 0);
          req = cr\<lparr>WC_StartRevision := effectiveStartRevision (WC_StartRevision cr) rv\<rparr>;
          c1 = conn_send send ((response rv i)\<lparr>WR_Created := True\<rparr>)
                 (c\<lparr>wc_watchID := i, wc_cancels := i # wc_cancels c, wc_world := w1\<rparr>)
      in c1\<lparr>wc_running := (i, req) # wc_running c1\<rparr>)"

definition handle_cancel :: "'g sender \<Rightarrow> int \<Rightarrow> ('w, 'g) watch_conn \<Rightarrow> ('w, 'g) watch_conn" where
  "handle_cancel send i c =
     conn_send send ((response 0 i)\<lparr>WR_Canceled := True\<rparr>)
       (if i \<in> set (wc_cancels c)
        then c\<lparr>wc_cancelled := i # wc_cancelled c, wc_cancels := removeAll i (wc_cancels c)\<rparr> else c)"

definition handle_msg :: "'w WatchServer \<Rightarrow> 'g sender \<Rightarrow> WatchRequest \<Rightarrow> ('w, 'g) watch_conn \<Rightarrow> ('w, 'g) watch_conn" where
  "handle_msg ws send msg c =
     (case msg of
        CreateRequest cr \<Rightarrow> handle_create ws send cr c
      | CancelRequest i \<Rightarrow> handle_cancel send i c
      | ProgressRequest \<Rightarrow> conn_send send (response (currentRev (ws_disp ws (wc_world c))) invalidWatchID) c
      | NoRequest \<Rightarrow> c)"

text \<open>The deferred clean-up of a watch goroutine that returns.\<close>

definition watch_exit :: "int \<Rightarrow> ('w, 'g) watch_conn \<Rightarrow> ('w, 'g) watch_conn" where
  "watch_exit i c =
     c\<lparr>wc_cancelled := i # wc_cancelled c, wc_cancels := removeAll i (wc_cancels c),
       wc_running := filter (\<lambda>x. fst x \<noteq> i) (wc_running c)\<rparr>"

text \<open>\<open>Recv\<close> fails: every cancel function in the map is called.\<close>

definition conn_end :: "('w, 'g) watch_conn \<Rightarrow> ('w, 'g) watch_conn" where
  "conn_end c = c\<lparr>wc_cancelled := wc_cancels c @ wc_cancelled c\<rparr>"

text \<open>A connection: messages received, interleaved with watches that return on their own and with
  watches created on other connections, which share the counter of watch IDs.\<close>

datatype conn_event = Recv WatchRequest | Exit int | Elsewhere

fun Watch :: "'w WatchServer \<Rightarrow> 'g sender \<Rightarrow> conn_event list \<Rightarrow> ('w, 'g) watch_conn \<Rightarrow> ('w, 'g) watch_conn" where
  "Watch ws send [] c = conn_end c"
| "Watch ws send (Recv msg # es) c = Watch ws send es (handle_msg ws send msg c)"
| "Watch ws send (Exit i # es) c = Watch ws send es (if i \<in> fst ` set (wc_running c) then watch_exit i c else c)"
| "Watch ws send (Elsewhere # es) c = Watch ws send es (c\<lparr>wc_watchID := wc_watchID c + 1\<rparr>)"

section \<open>Contexts\<close>

text \<open>
  The context of \<open>cancelOnParent\<close>: whether the channels \<open>done\<close> and \<open>merged\<close> are closed and
  whether the goroutine of \<open>Done\<close> has been started.  \<open>ctx_forward\<close> is that goroutine's one
  step, taken when its \<open>select\<close> is ready; it runs on its own time.
\<close>

record cancelCtx =
  cc_done :: bool
  cc_merged :: bool
  cc_started :: bool

definition cancelOnParent :: cancelCtx where
  "cancelOnParent = \<lparr>cc_done = False, cc_merged = False, cc_started = False\<rparr>"

definition ctx_cancel :: "cancelCtx \<Rightarrow> cancelCtx" where
  "ctx_cancel c = c\<lparr>cc_done := True\<rparr>"

definition ctx_Done :: "cancelCtx \<Rightarrow> cancelCtx" where
  "ctx_Done c = c\<lparr>cc_started := True\<rparr>"

definition ctx_forward :: "bool \<Rightarrow> cancelCtx \<Rightarrow> cancelCtx" where
  "ctx_forward parentDone c = (if cc_started c \<and> (parentDone \<or> cc_done c) then c\<lparr>cc_merged := True\<rparr> else c)"

definition ctx_Err :: "cancelCtx \<Rightarrow> bool \<times> cancelCtx" where
  "ctx_Err c = (cc_merged (ctx_Done c), ctx_Done c)"

end
