(* ===== verification/DispFacts.thy ===== *)
theory DispFacts
  imports Dispatcher
begin

text \<open>
  Facts about the dispatcher: the binary search against a linear one, one release seen from each
  subscriber, the reorder buffer as a sequence of releases, and the invariant.
\<close>

lemma sorted_last_max:
  fixes f :: "'a \<Rightarrow> 'b :: linorder"
  assumes "sorted_wrt (<) (map f xs)" and "x \<in> set xs"
  shows "f x \<le> f (last xs)"
  using assms
proof (induction xs)
  case (Cons a xs)
  have "f a < f (last xs)" if "xs \<noteq> []" using Cons.prems(1) that by simp
  with Cons show ?case by (cases "xs = []") (auto intro: less_imp_le)
qed simp

section \<open>The search\<close>

text \<open>The linear reference: the last but one checkpoint below the start revision.\<close>

definition seek_spec :: "int \<Rightarrow> checkpoint list \<Rightarrow> string" where
  "seek_spec startRev cks =
     (let below = filter (\<lambda>c. ck_rev c < startRev) cks
      in if length below < 2 then ''0'' else ck_id (below ! (length below - 2)))"

lemma filter_sorted_takeWhile:
  "sorted_wrt (<) (map ck_rev cks) \<Longrightarrow> filter (\<lambda>c. ck_rev c < s) cks = takeWhile (\<lambda>c. ck_rev c < s) cks"
proof (induction cks)
  case (Cons c cks)
  show ?case
  proof (cases "ck_rev c < s")
    case False
    then have "\<forall>x\<in>set cks. \<not> ck_rev x < s" using Cons.prems by auto
    with False show ?thesis by (simp add: filter_empty_conv)
  qed (use Cons in simp)
qed simp

lemma below_iff:
  assumes "sorted_wrt (<) (map ck_rev cks)" and "j < length cks"
  shows "ck_rev (cks ! j) < s \<longleftrightarrow> j < length (filter (\<lambda>c. ck_rev c < s) cks)"
proof -
  define n where "n = length (takeWhile (\<lambda>c. ck_rev c < s) cks)"
  have "ck_rev (cks ! j) < s" if "j < n"
    using that unfolding n_def by (metis nth_mem set_takeWhileD takeWhile_nth)
  moreover have "\<not> ck_rev (cks ! j) < s" if "\<not> j < n"
  proof -
    have "\<not> ck_rev (cks ! n) < s"
      using nth_length_takeWhile[of "\<lambda>c. ck_rev c < s" cks] that assms(2) by (simp add: n_def)
    moreover have "ck_rev (cks ! n) \<le> ck_rev (cks ! j)"
      using sorted_wrt_nth_less[OF assms(1), of n j] that assms(2) by (cases "n = j") auto
    ultimately show ?thesis by simp
  qed
  ultimately show ?thesis using filter_sorted_takeWhile[OF assms(1), of s] by (auto simp: n_def)
qed

lemma seek_loop_index:
  assumes "\<And>j. j < length cks \<Longrightarrow> ck_rev (cks ! j) < s \<longleftrightarrow> j < n"
    and "lo \<le> n" and "n \<le> hi" and "hi \<le> length cks" and "idx = int lo - 1"
  shows "seek_loop cks s lo hi idx = int n - 1"
  using assms
proof (induction cks s lo hi idx rule: seek_loop.induct)
  case (1 cks s lo hi idx)
  define mid where "mid = (lo + hi) div 2"
  show ?case
  proof (cases "lo < hi")
    case True
    then have m: "lo \<le> mid" "mid < hi" "mid < length cks" using "1.prems"(4) by (auto simp: mid_def)
    note c = "1.prems"(1)[OF m(3)]
    show ?thesis
    proof (cases "ck_rev (cks ! mid) < s")
      case True
      with c have "mid + 1 \<le> n" by simp
      from "1.IH"(1)[OF \<open>lo < hi\<close> mid_def True "1.prems"(1) this "1.prems"(3,4)] True \<open>lo < hi\<close>
      show ?thesis by (subst seek_loop.simps) (simp add: Let_def mid_def[symmetric])
    next
      case False
      with c have "n \<le> mid" by simp
      from "1.IH"(2)[OF \<open>lo < hi\<close> mid_def False "1.prems"(1,2) this _ "1.prems"(5)] m False \<open>lo < hi\<close>
      show ?thesis by (subst seek_loop.simps) (simp add: Let_def mid_def[symmetric])
    qed
  next
    case False
    with "1.prems" show ?thesis by (subst seek_loop.simps) simp
  qed
qed

lemma seekStreamID_spec:
  assumes "sorted_wrt (<) (map ck_rev (d_checkpoints d))"
  shows "seekStreamID s d = seek_spec s (d_checkpoints d)"
proof -
  define cks where "cks = d_checkpoints d"
  define n where "n = length (filter (\<lambda>c. ck_rev c < s) cks)"
  have "n \<le> length cks" by (simp add: n_def)
  then have "seek_loop cks s 0 (length cks) (- 1) = int n - 1"
    using below_iff[OF assms, folded cks_def, of _ s, folded n_def] by (intro seek_loop_index) auto
  moreover have "filter (\<lambda>c. ck_rev c < s) cks ! (n - 2) = cks ! (n - 2)" if "2 \<le> n"
    using filter_sorted_takeWhile[OF assms, folded cks_def, of s] that by (simp add: n_def takeWhile_nth)
  ultimately show ?thesis
    by (auto simp: seekStreamID_def seek_spec_def Let_def cks_def[symmetric] n_def[symmetric] nat_diff_distrib)
qed

section \<open>One release, per subscriber\<close>

definition takes :: "Event \<Rightarrow> watchSub \<Rightarrow> bool" where
  "takes ev sub \<longleftrightarrow> matchesWatch (EvKey ev) (sub_key sub) (sub_rangeEnd sub)"

definition full :: "watchSub \<Rightarrow> bool" where
  "full sub \<longleftrightarrow> subChanBuffer \<le> length (sub_ch sub)"

definition deliver :: "Event \<Rightarrow> watchSub \<Rightarrow> watchSub" where
  "deliver ev sub =
     (if \<not> takes ev sub then sub else if full sub then signalCancel sub else sub\<lparr>sub_ch := sub_ch sub @ [ev]\<rparr>)"

lemma send_or_cut_obj:
  "d_objs (send_or_cut ev i d) = (d_objs d)(i := map_option (deliver ev) (d_objs d i))"
  by (auto simp: send_or_cut_def deliver_def takes_def full_def fun_eq_iff split: option.splits)

lemma send_or_cut_subs:
  "d_subs (send_or_cut ev i d) =
     (case d_objs d i of Some sub \<Rightarrow> if takes ev sub \<and> full sub then removeAll i (d_subs d) else d_subs d | None \<Rightarrow> d_subs d)"
  by (auto simp: send_or_cut_def takes_def full_def split: option.splits)

lemma fold_send_obj:
  "distinct is \<Longrightarrow> d_objs (fold (send_or_cut ev) is d) i =
     (if i \<in> set is then map_option (deliver ev) (d_objs d i) else d_objs d i)"
  by (induction "is" arbitrary: d) (auto simp: send_or_cut_obj)

lemma fold_send_subs:
  "distinct is \<Longrightarrow> d_subs (fold (send_or_cut ev) is d) =
     filter (\<lambda>i. \<not> (i \<in> set is \<and> (\<exists>sub. d_objs d i = Some sub \<and> takes ev sub \<and> full sub))) (d_subs d)"
proof (induction "is" arbitrary: d)
  case (Cons j js)
  have "d_objs (send_or_cut ev j d) i = d_objs d i" if "i \<in> set js" for i
    using that Cons.prems by (auto simp: send_or_cut_obj)
  with Cons show ?case
    by (auto simp: send_or_cut_subs removeAll_filter_not_eq split: option.splits intro!: filter_cong)
qed simp

lemma releaseLocked_obj:
  assumes "distinct (d_subs d)"
  shows "d_objs (releaseLocked ev d) i =
    (if i \<in> set (d_subs d) then map_option (deliver ev) (d_objs d i) else d_objs d i)"
  using assms by (simp add: releaseLocked_def Let_def fold_send_obj)

lemma releaseLocked_subs:
  assumes "distinct (d_subs d)"
  shows "d_subs (releaseLocked ev d) =
    filter (\<lambda>i. \<not> (\<exists>sub. d_objs d i = Some sub \<and> takes ev sub \<and> full sub)) (d_subs d)"
  using assms by (auto simp: releaseLocked_def Let_def fold_send_subs intro!: filter_cong)

section \<open>The reorder buffer\<close>

text \<open>A release neither reads nor writes the buffer, so the two updates commute.\<close>

lemma maybeCheckpoint_upd:
  "maybeCheckpoint ev (d\<lparr>d_pending := p\<rparr>) = (maybeCheckpoint ev d)\<lparr>d_pending := p\<rparr>"
  "maybeCheckpoint ev (d\<lparr>d_nextRev := n\<rparr>) = (maybeCheckpoint ev d)\<lparr>d_nextRev := n\<rparr>"
  "maybeCheckpoint ev (d\<lparr>d_flushes := f\<rparr>) = (maybeCheckpoint ev d)\<lparr>d_flushes := f\<rparr>"
  by (simp_all add: maybeCheckpoint_def Let_def)

lemma fold_send_upd:
  "fold (send_or_cut ev) is (d\<lparr>d_pending := p\<rparr>) = (fold (send_or_cut ev) is d)\<lparr>d_pending := p\<rparr>"
  "fold (send_or_cut ev) is (d\<lparr>d_nextRev := n\<rparr>) = (fold (send_or_cut ev) is d)\<lparr>d_nextRev := n\<rparr>"
    "fold (send_or_cut ev) is (d\<lparr>d_flushes := f\<rparr>) = (fold (send_or_cut ev) is d)\<lparr>d_flushes := f\<rparr>"
proof -
  have "send_or_cut ev i (d\<lparr>d_pending := p\<rparr>) = (send_or_cut ev i d)\<lparr>d_pending := p\<rparr>"
    "send_or_cut ev i (d\<lparr>d_nextRev := n\<rparr>) = (send_or_cut ev i d)\<lparr>d_nextRev := n\<rparr>"
    "send_or_cut ev i (d\<lparr>d_flushes := f\<rparr>) = (send_or_cut ev i d)\<lparr>d_flushes := f\<rparr>" for i and d :: eventDispatcher
    by (simp_all add: send_or_cut_def split: option.splits)
  then show "fold (send_or_cut ev) is (d\<lparr>d_pending := p\<rparr>) = (fold (send_or_cut ev) is d)\<lparr>d_pending := p\<rparr>"
    "fold (send_or_cut ev) is (d\<lparr>d_nextRev := n\<rparr>) = (fold (send_or_cut ev) is d)\<lparr>d_nextRev := n\<rparr>"
    "fold (send_or_cut ev) is (d\<lparr>d_flushes := f\<rparr>) = (fold (send_or_cut ev) is d)\<lparr>d_flushes := f\<rparr>"
    by (induction "is" arbitrary: d) simp_all
qed

lemma releaseLocked_upd:
  "releaseLocked ev (d\<lparr>d_pending := p\<rparr>) = (releaseLocked ev d)\<lparr>d_pending := p\<rparr>"
  "releaseLocked ev (d\<lparr>d_nextRev := n\<rparr>) = (releaseLocked ev d)\<lparr>d_nextRev := n\<rparr>"
    "releaseLocked ev (d\<lparr>d_flushes := f\<rparr>) = (releaseLocked ev d)\<lparr>d_flushes := f\<rparr>"
proof -
  define d1 where "d1 = (if d_latestRev d < EvRev ev then d\<lparr>d_latestRev := EvRev ev\<rparr> else d)"
  have a: "(if d_latestRev (d\<lparr>d_pending := p\<rparr>) < EvRev ev then d\<lparr>d_pending := p, d_latestRev := EvRev ev\<rparr> else d\<lparr>d_pending := p\<rparr>)
      = d1\<lparr>d_pending := p\<rparr>"
    and b: "(if d_latestRev (d\<lparr>d_nextRev := n\<rparr>) < EvRev ev then d\<lparr>d_nextRev := n, d_latestRev := EvRev ev\<rparr> else d\<lparr>d_nextRev := n\<rparr>)
      = d1\<lparr>d_nextRev := n\<rparr>"
    and c: "(if d_latestRev (d\<lparr>d_flushes := f\<rparr>) < EvRev ev then d\<lparr>d_flushes := f, d_latestRev := EvRev ev\<rparr> else d\<lparr>d_flushes := f\<rparr>)
      = d1\<lparr>d_flushes := f\<rparr>"
    by (simp_all add: d1_def)
  show "releaseLocked ev (d\<lparr>d_pending := p\<rparr>) = (releaseLocked ev d)\<lparr>d_pending := p\<rparr>"
    "releaseLocked ev (d\<lparr>d_nextRev := n\<rparr>) = (releaseLocked ev d)\<lparr>d_nextRev := n\<rparr>"
    "releaseLocked ev (d\<lparr>d_flushes := f\<rparr>) = (releaseLocked ev d)\<lparr>d_flushes := f\<rparr>"
    unfolding releaseLocked_def a b c d1_def[symmetric] Let_def maybeCheckpoint_upd fold_send_upd by simp_all
qed

lemma releases_upd:
  "fold releaseLocked rel (d\<lparr>d_pending := p\<rparr>) = (fold releaseLocked rel d)\<lparr>d_pending := p\<rparr>"
  "fold releaseLocked rel (d\<lparr>d_nextRev := n\<rparr>) = (fold releaseLocked rel d)\<lparr>d_nextRev := n\<rparr>"
  "fold releaseLocked rel (d\<lparr>d_flushes := f\<rparr>) = (fold releaseLocked rel d)\<lparr>d_flushes := f\<rparr>"
  by (induction rel arbitrary: d) (simp_all add: releaseLocked_upd)

lemma releases_frame [simp]:
  "d_pending (fold releaseLocked rel d) = d_pending d" "d_nextRev (fold releaseLocked rel d) = d_nextRev d"
  "d_nextID (fold releaseLocked rel d) = d_nextID d" "d_flushes (fold releaseLocked rel d) = d_flushes d"
  by (induction rel arbitrary: d) simp_all

text \<open>The buffer holds one event per revision, none of them released yet.\<close>

definition wf_pending :: "eventDispatcher \<Rightarrow> bool" where
  "wf_pending d \<longleftrightarrow> distinct (map fst (d_pending d)) \<and>
     (\<forall>x\<in>set (d_pending d). EvRev (snd x) = fst x \<and> d_nextRev d \<le> fst x)"

abbreviation buffered :: "eventDispatcher \<Rightarrow> Event set" where
  "buffered d \<equiv> snd ` set (d_pending d)"

text \<open>State \<open>d'\<close> is \<open>d\<close> after releasing \<open>rel\<close>, up to the buffer, the next revision and the flush counter.\<close>

definition after_release :: "Event list \<Rightarrow> eventDispatcher \<Rightarrow> eventDispatcher \<Rightarrow> bool" where
  "after_release rel d d' \<longleftrightarrow>
     d' = (fold releaseLocked rel d)\<lparr>d_pending := d_pending d', d_nextRev := d_nextRev d',
       d_flushes := d_flushes d'\<rparr>"

lemma after_release_trans:
  assumes a: "after_release r1 d d1" and b: "after_release r2 d1 d2"
  shows "after_release (r1 @ r2) d d2"
proof -
  have "fold releaseLocked r2 d1 =
      (fold releaseLocked r2 (fold releaseLocked r1 d))\<lparr>d_pending := d_pending d1, d_nextRev := d_nextRev d1, d_flushes := d_flushes d1\<rparr>"
    by (subst a[unfolded after_release_def]) (simp add: releases_upd)
  then have "fold releaseLocked (r1 @ r2) d\<lparr>d_pending := d_pending d2, d_nextRev := d_nextRev d2, d_flushes := d_flushes d2\<rparr> =
      (fold releaseLocked r2 d1)\<lparr>d_pending := d_pending d2, d_nextRev := d_nextRev d2, d_flushes := d_flushes d2\<rparr>" by simp
  also have "\<dots> = d2" by (rule b[unfolded after_release_def, symmetric])
  finally show ?thesis unfolding after_release_def by (rule sym)
qed

lemma release_ready_releases:
  assumes "wf_pending d"
  shows "\<exists>rel. after_release rel d (release_ready d) \<and>
    map EvRev rel = [d_nextRev d..d_nextRev (release_ready d) - 1] \<and> d_nextRev d \<le> d_nextRev (release_ready d) \<and>
    set rel \<union> buffered (release_ready d) = buffered d \<and> wf_pending (release_ready d) \<and>
    d_nextRev (release_ready d) \<notin> fst ` set (d_pending (release_ready d)) \<and>
    d_flushes (release_ready d) = d_flushes d"
  using assms
proof (induction d rule: release_ready.induct)
  case (1 d)
  show ?case
  proof (cases "map_of (d_pending d) (d_nextRev d)")
    case None
    with "1.prems" have "release_ready d = d" by (subst release_ready.simps) simp
    with None "1.prems" show ?thesis
      by (intro exI[of _ "[]"]) (simp add: after_release_def map_of_eq_None_iff)
  next
    case (Some ev)
    define p where "p = AList.delete (d_nextRev d) (d_pending d)"
    define d1 where "d1 = (releaseLocked ev (d\<lparr>d_pending := p\<rparr>))\<lparr>d_nextRev := d_nextRev d + 1\<rparr>"
    have rr: "release_ready d = release_ready d1"
      using Some by (subst release_ready.simps) (simp add: d1_def p_def)
    have mem: "(d_nextRev d, ev) \<in> set (d_pending d)" using Some by (rule map_of_SomeD)
    have set_p: "set p = {x \<in> set (d_pending d). fst x \<noteq> d_nextRev d}"
      by (auto simp: p_def AList.delete_eq)
    have evr: "EvRev ev = d_nextRev d" using mem "1.prems" by (auto simp: wf_pending_def)
    have wf: "wf_pending d1"
    proof -
      have "distinct (map fst p)" using "1.prems" by (simp add: wf_pending_def p_def distinct_delete)
      moreover have "EvRev (snd x) = fst x \<and> d_nextRev d + 1 \<le> fst x" if "x \<in> set p" for x
        using that "1.prems" unfolding set_p wf_pending_def by fastforce
      ultimately show ?thesis by (simp add: wf_pending_def d1_def)
    qed
    have ar: "after_release [ev] d d1" by (simp add: after_release_def d1_def releaseLocked_upd)
    have fl: "d_flushes d1 = d_flushes d" by (simp add: d1_def)
    have uniq: "x = ev" if "(d_nextRev d, x) \<in> set (d_pending d)" for x
      using that mem "1.prems" unfolding wf_pending_def by (metis eq_key_imp_eq_value)
    have buf: "buffered d = insert ev (buffered d1)"
    proof -
      have "set (d_pending d) = insert (d_nextRev d, ev) (set p)" unfolding set_p using mem by (auto dest: uniq)
      moreover have "d_pending d1 = p" by (simp add: d1_def)
      ultimately show ?thesis by simp
    qed
    from "1.IH"[OF Some, folded p_def, folded d1_def, OF wf] obtain rel where rel:
      "after_release rel d1 (release_ready d1)" "map EvRev rel = [d_nextRev d1..d_nextRev (release_ready d1) - 1]"
      "d_nextRev d1 \<le> d_nextRev (release_ready d1)" "set rel \<union> buffered (release_ready d1) = buffered d1"
      "wf_pending (release_ready d1)" "d_nextRev (release_ready d1) \<notin> fst ` set (d_pending (release_ready d1))"
      "d_flushes (release_ready d1) = d_flushes d1"
      by blast
    have "map EvRev (ev # rel) = [d_nextRev d..d_nextRev (release_ready d1) - 1]"
      using rel(2,3) evr by (simp add: d1_def upto_rec1)
    moreover have "d_nextRev d \<le> d_nextRev (release_ready d1)" using rel(3) by (simp add: d1_def)
    ultimately show ?thesis
      unfolding rr using after_release_trans[OF ar rel(1)] rel(4-7) buf fl
      by (intro exI[of _ "ev # rel"]) auto
  qed
qed

text \<open>The safety valve releases the whole buffer in revision order.\<close>

lemma fold_flush_one:
  "distinct revs \<Longrightarrow> set revs \<subseteq> fst ` set (d_pending d) \<Longrightarrow>
   fold flush_one revs d =
     (fold releaseLocked (map (\<lambda>rv. the (map_of (d_pending d) rv)) revs) d)
       \<lparr>d_pending := filter (\<lambda>x. fst x \<notin> set revs) (d_pending d)\<rparr>"
proof (induction revs arbitrary: d)
  case (Cons rv revs)
  define p where "p = d_pending d"
  define q where "q = AList.delete rv p"
  obtain ev where ev: "map_of p rv = Some ev"
    using Cons.prems(2) by (auto simp: p_def map_of_eq_None_iff dest!: weak_map_of_SomeI)
  have one: "flush_one rv d = (releaseLocked ev d)\<lparr>d_pending := q\<rparr>"
    using ev by (simp add: flush_one_def p_def q_def releaseLocked_upd)
  have q: "q = filter (\<lambda>x. fst x \<noteq> rv) p" by (auto simp: q_def AList.delete_eq intro!: filter_cong)
  have look: "map_of q r = map_of p r" if "r \<in> set revs" for r
    using that Cons.prems(1) by (auto simp: q_def AList.delete_conv')
  have "set revs \<subseteq> fst ` set q" using Cons.prems unfolding q p_def by fastforce
  with Cons.IH[of "flush_one rv d"] Cons.prems(1)
  have "fold flush_one (rv # revs) d =
      (fold releaseLocked (map (\<lambda>r. the (map_of q r)) revs) (flush_one rv d))
        \<lparr>d_pending := filter (\<lambda>x. fst x \<notin> set revs) q\<rparr>"
    by (simp add: one)
  also have "map (\<lambda>r. the (map_of q r)) revs = map (\<lambda>r. the (map_of p r)) revs" using look by simp
  finally show ?case
    by (simp add: one releases_upd ev q p_def[symmetric] conj_commute)
qed simp

lemma flush_releases:
  assumes wf: "wf_pending d" and ne: "d_pending d \<noteq> []"
  shows "\<exists>rel. after_release rel d (flushPendingLocked d) \<and> sorted_wrt (<) (map EvRev rel) \<and>
    set rel = buffered d \<and> d_pending (flushPendingLocked d) = [] \<and> rel \<noteq> [] \<and>
    d_nextRev (flushPendingLocked d) = EvRev (last rel) + 1 \<and> d_flushes (flushPendingLocked d) = d_flushes d + 1"
proof -
  define p where "p = d_pending d"
  define revs where "revs = sort (map fst p)"
  define rel where "rel = map (\<lambda>rv. the (map_of p rv)) revs"
  have dist: "distinct revs" and key: "\<And>x. x \<in> set p \<Longrightarrow> EvRev (snd x) = fst x \<and> map_of p (fst x) = Some (snd x)"
    using wf by (auto simp: wf_pending_def revs_def p_def map_of_is_SomeI)
  have set_revs: "set revs = fst ` set p" by (simp add: revs_def)
  have revs_ne: "revs \<noteq> []" using ne by (metis set_revs p_def image_is_empty set_empty)
  have emr: "map EvRev rel = revs"
    unfolding rel_def map_map by (rule map_idI) (use key set_revs in auto)
  have "fold flush_one revs d = (fold releaseLocked rel d)\<lparr>d_pending := filter (\<lambda>x. fst x \<notin> set revs) p\<rparr>"
    using fold_flush_one[OF dist] set_revs by (simp add: rel_def p_def)
  moreover have "filter (\<lambda>x. fst x \<notin> set revs) p = []" by (auto simp: set_revs filter_empty_conv)
  ultimately have fl: "flushPendingLocked d =
      (fold releaseLocked rel d)\<lparr>d_pending := [], d_nextRev := last revs + 1, d_flushes := d_flushes d + 1\<rparr>"
    using revs_ne by (simp add: flushPendingLocked_def Let_def p_def[symmetric] revs_def[symmetric])
  have "sorted_wrt (<) revs" using dist by (simp add: strict_sorted_iff revs_def)
  moreover have "set rel = buffered d"
    unfolding rel_def set_map set_revs image_image p_def[symmetric] using key by (intro image_cong) auto
  moreover have "last revs = EvRev (last rel)" using revs_ne emr by (metis last_map list.map_disc_iff)
  ultimately show ?thesis
    using revs_ne emr by (intro exI[of _ rel]) (auto simp: fl after_release_def)
qed

end
