(* ===== verification/DispInv.thy ===== *)
theory DispInv
  imports DispFacts
begin

text \<open>
  The two readings of \<open>ingest\<close> the properties use.  \<open>ingest_releases\<close> holds for every event
  and every state of the buffer: what is released is strictly ascending and continues above what was
  released before.  \<open>ingest_window\<close> is the normal case, an event of a revision that has neither
  been released nor buffered and is at most \<open>maxPendingEvents\<close> ahead: nothing is lost and the
  released revisions are contiguous.  Below them the invariant of the whole dispatcher.
\<close>

section \<open>Ingesting\<close>

definition buffer_ok :: "eventDispatcher \<Rightarrow> bool" where
  "buffer_ok d \<longleftrightarrow> wf_pending d \<and> 1 \<le> d_nextRev d \<and> d_nextRev d \<notin> fst ` set (d_pending d) \<and>
     length (d_pending d) \<le> maxPendingEvents"

lemma wf_pending_update:
  assumes "wf_pending d" and "d_nextRev d \<le> EvRev ev"
  shows "wf_pending (d\<lparr>d_pending := AList.update (EvRev ev) ev (d_pending d)\<rparr>)"
proof -
  have "x = (EvRev ev, ev) \<or> x \<in> set (d_pending d)" if "x \<in> set (AList.update (EvRev ev) ev (d_pending d))" for x
  proof (cases x)
    case (Pair k e)
    have "distinct (map fst (AList.update (EvRev ev) ev (d_pending d)))"
      using assms(1) by (simp add: wf_pending_def distinct_update)
    then have "((map_of (d_pending d))(EvRev ev \<mapsto> ev)) k = Some e"
      using that Pair by (metis AList.update_conv' map_of_is_SomeI)
    then show ?thesis using Pair by (auto split: if_splits dest: map_of_SomeD)
  qed
  with assms show ?thesis by (fastforce simp: wf_pending_def distinct_update)
qed

lemma upto_cases:
  assumes "map EvRev rel = [n..m - 1]" and "n \<le> m"
  shows "m = (if rel = [] then n else EvRev (last rel) + 1)" and "sorted_wrt (<) (map EvRev rel)"
    and "\<forall>e\<in>set rel. n \<le> EvRev e \<and> EvRev e < m"
proof -
  have "EvRev ` set rel = {n..m - 1}" using assms(1) by (metis list.set_map set_upto)
  then show "\<forall>e\<in>set rel. n \<le> EvRev e \<and> EvRev e < m" by auto
  show "sorted_wrt (<) (map EvRev rel)" unfolding assms(1) by (rule sorted_wrt_upto)
  show "m = (if rel = [] then n else EvRev (last rel) + 1)"
  proof (cases "rel = []")
    case True
    with assms show ?thesis by simp
  next
    case False
    with assms(1) have "[n..m - 1] \<noteq> []" by (metis list.map_disc_iff)
    then have "last [n..m - 1] = m - 1" by (simp add: upto_rec2)
    with False assms(1) show ?thesis by (metis add.commute diff_add_cancel last_map)
  qed
qed

lemma buffered_update: "buffered (d\<lparr>d_pending := AList.update (EvRev ev) ev p\<rparr>) \<subseteq> insert ev (snd ` set p)"
  by (induction p) auto

lemma update_new: "k \<notin> fst ` set p \<Longrightarrow> AList.update k v p = p @ [(k, v)]"
  by (induction p) auto

lemma ingest_dup: "buffer_ok d \<Longrightarrow> EvRev ev < d_nextRev d \<Longrightarrow> ingest ev d = d"
  by (auto simp: ingest_def buffer_ok_def)

lemma ingest_new:
  assumes "buffer_ok d" and "d_nextRev d \<le> EvRev ev"
  defines "d1 \<equiv> release_ready (d\<lparr>d_pending := AList.update (EvRev ev) ev (d_pending d)\<rparr>)"
  shows "ingest ev d = (if maxPendingEvents < length (d_pending d1) then flushPendingLocked d1 else d1)"
  using assms by (auto simp: ingest_def buffer_ok_def Let_def)

lemma after_release_pending: "after_release rel (d\<lparr>d_pending := p\<rparr>) d' \<Longrightarrow> after_release rel d d'"
  by (simp add: after_release_def releases_upd)

lemma after_release_refl [simp]: "after_release [] d d"
  by (simp add: after_release_def)

lemma ingest_releases:
  assumes ok: "buffer_ok d"
  shows "\<exists>rel. after_release rel d (ingest ev d) \<and> sorted_wrt (<) (map EvRev rel) \<and>
    (\<forall>e\<in>set rel. d_nextRev d \<le> EvRev e) \<and> set rel \<union> buffered (ingest ev d) \<subseteq> insert ev (buffered d) \<and>
    buffer_ok (ingest ev d) \<and>
    d_nextRev (ingest ev d) = (if rel = [] then d_nextRev d else EvRev (last rel) + 1)"
proof (cases "EvRev ev < d_nextRev d")
  case True
  have "ingest ev d = d" by (rule ingest_dup[OF ok True])
  with ok show ?thesis by (intro exI[of _ "[]"]) auto
next
  case False
  define d0 where "d0 = d\<lparr>d_pending := AList.update (EvRev ev) ev (d_pending d)\<rparr>"
  define d1 where "d1 = release_ready d0"
  have wf: "wf_pending d0" using wf_pending_update ok False by (simp add: d0_def buffer_ok_def)
  have buf0: "buffered d0 \<subseteq> insert ev (buffered d)" unfolding d0_def by (rule buffered_update)
  have n0: "d_nextRev d0 = d_nextRev d" by (simp add: d0_def)
  have ing: "ingest ev d = (if maxPendingEvents < length (d_pending d1) then flushPendingLocked d1 else d1)"
    using ingest_new[OF ok] False by (simp add: d1_def d0_def)
  from release_ready_releases[OF wf, folded d1_def] obtain rel where rel:
    "after_release rel d0 d1" "map EvRev rel = [d_nextRev d..d_nextRev d1 - 1]" "d_nextRev d \<le> d_nextRev d1"
    "set rel \<union> buffered d1 = buffered d0" "wf_pending d1" "d_nextRev d1 \<notin> fst ` set (d_pending d1)"
    unfolding n0 by blast
  note up = upto_cases[OF rel(2,3)]
  have ar: "after_release rel d d1" using rel(1) after_release_pending unfolding d0_def by blast
  show ?thesis
  proof (cases "maxPendingEvents < length (d_pending d1)")
    case False
    then have i: "ingest ev d = d1" using ing by simp
    have "buffer_ok d1" using False rel(3,5,6) ok by (simp add: buffer_ok_def)
    moreover have "\<forall>e\<in>set rel. d_nextRev d \<le> EvRev e" using up(3) by blast
    moreover have "set rel \<union> buffered d1 \<subseteq> insert ev (buffered d)" using rel(4) buf0 by simp
    ultimately show ?thesis unfolding i using ar up(1,2) by (intro exI[of _ rel] conjI)
  next
    case True
    then have i: "ingest ev d = flushPendingLocked d1" and ne: "d_pending d1 \<noteq> []" using ing by auto
    from flush_releases[OF rel(5) ne] obtain fl where fl:
      "after_release fl d1 (ingest ev d)" "sorted_wrt (<) (map EvRev fl)" "set fl = buffered d1"
      "d_pending (ingest ev d) = []" "fl \<noteq> []" "d_nextRev (ingest ev d) = EvRev (last fl) + 1"
      unfolding i by blast
    have ge: "\<forall>e\<in>set fl. d_nextRev d1 \<le> EvRev e" using fl(3) rel(5) by (auto simp: wf_pending_def)
    have "sorted_wrt (<) (map EvRev (rel @ fl))"
    proof -
      have "EvRev x < EvRev y" if "x \<in> set rel" "y \<in> set fl" for x y
        using up(3) ge that by (meson less_le_trans)
      then show ?thesis using up(2) fl(2) by (simp add: sorted_wrt_append)
    qed
    moreover have "d_nextRev d \<le> EvRev e" if "e \<in> set (rel @ fl)" for e
      using that up(3) ge rel(3) by (metis Un_iff order_trans set_append)
    moreover have "1 \<le> EvRev (last fl) + 1" using ge[rule_format, OF last_in_set[OF fl(5)]] rel(3) ok by (simp add: buffer_ok_def)
    moreover have "buffer_ok (ingest ev d)"
      using calculation(3) fl(4,6) by (simp add: buffer_ok_def wf_pending_def)
    moreover have "set (rel @ fl) \<union> buffered (ingest ev d) \<subseteq> insert ev (buffered d)"
      using fl(3,4) rel(4) buf0 by simp
    ultimately show ?thesis
      using after_release_trans[OF ar fl(1)] fl(5,6) by (intro exI[of _ "rel @ fl"] conjI) simp_all
  qed
qed

lemma pending_bound:
  assumes "wf_pending d" and "d_nextRev d \<notin> fst ` set (d_pending d)"
    and "\<forall>e\<in>buffered d. EvRev e \<le> d_nextRev d + int maxPendingEvents"
  shows "length (d_pending d) \<le> maxPendingEvents"
proof -
  have "fst ` set (d_pending d) \<subseteq> {d_nextRev d + 1..d_nextRev d + int maxPendingEvents}"
  proof
    fix k assume k: "k \<in> fst ` set (d_pending d)"
    then obtain e where e: "(k, e) \<in> set (d_pending d)" by auto
    have "EvRev e = k \<and> d_nextRev d \<le> k" using assms(1) e unfolding wf_pending_def by fastforce
    moreover have "EvRev e \<le> d_nextRev d + int maxPendingEvents" using assms(3) e by force
    moreover have "k \<noteq> d_nextRev d" using assms(2) k by metis
    ultimately show "k \<in> {d_nextRev d + 1..d_nextRev d + int maxPendingEvents}" by simp
  qed
  from card_mono[OF _ this] show ?thesis
    using assms(1) distinct_card[of "map fst (d_pending d)"] by (simp add: wf_pending_def)
qed

lemma ingest_window:
  assumes ok: "buffer_ok d" and new: "d_nextRev d \<le> EvRev ev" "EvRev ev \<notin> fst ` set (d_pending d)"
    and win: "\<forall>e\<in>insert ev (buffered d). EvRev e \<le> d_nextRev d + int maxPendingEvents"
  shows "\<exists>rel. after_release rel d (ingest ev d) \<and>
    map EvRev rel = [d_nextRev d..d_nextRev (ingest ev d) - 1] \<and> d_nextRev d \<le> d_nextRev (ingest ev d) \<and>
    set rel \<union> buffered (ingest ev d) = insert ev (buffered d) \<and> buffer_ok (ingest ev d) \<and>
    d_flushes (ingest ev d) = d_flushes d"
proof -
  define d0 where "d0 = d\<lparr>d_pending := AList.update (EvRev ev) ev (d_pending d)\<rparr>"
  define d1 where "d1 = release_ready d0"
  have wf: "wf_pending d0" using wf_pending_update ok new by (simp add: d0_def buffer_ok_def)
  have buf0: "buffered d0 = insert ev (buffered d)"
    using update_new[OF new(2)] by (simp add: d0_def)
  have n0: "d_nextRev d0 = d_nextRev d" "d_flushes d0 = d_flushes d" by (simp_all add: d0_def)
  from release_ready_releases[OF wf, folded d1_def] obtain rel where rel:
    "after_release rel d0 d1" "map EvRev rel = [d_nextRev d..d_nextRev d1 - 1]" "d_nextRev d \<le> d_nextRev d1"
    "set rel \<union> buffered d1 = buffered d0" "wf_pending d1" "d_nextRev d1 \<notin> fst ` set (d_pending d1)"
    "d_flushes d1 = d_flushes d"
    unfolding n0 by blast
  have "EvRev e \<le> d_nextRev d1 + int maxPendingEvents" if "e \<in> buffered d1" for e
  proof -
    have "e \<in> insert ev (buffered d)" using that rel(4) buf0 by blast
    with win rel(3) show ?thesis by fastforce
  qed
  with pending_bound[OF rel(5,6)] have len: "length (d_pending d1) \<le> maxPendingEvents" by simp
  then have i: "ingest ev d = d1" using ingest_new[OF ok new(1)] by (simp add: d1_def d0_def)
  have "after_release rel d d1" using rel(1) after_release_pending unfolding d0_def by blast
  moreover have "buffer_ok d1" using rel(3,5,6) len ok by (simp add: buffer_ok_def)
  ultimately show ?thesis
    unfolding i using rel(2,3,4,7) buf0 by (intro exI[of _ rel] conjI) simp_all
qed

section \<open>Channels\<close>

text \<open>What a run of releases does to one subscriber.  It receives the events of its range in order
  until its channel is full; the first event that does not fit cuts it loose.\<close>

definition channel_after :: "Event list \<Rightarrow> watchSub \<Rightarrow> watchSub" where
  "channel_after rel sub =
     (let all = sub_ch sub @ filter (\<lambda>ev. takes ev sub) rel
      in sub\<lparr>sub_ch := take subChanBuffer all, sub_cancelled := sub_cancelled sub \<or> subChanBuffer < length all\<rparr>)"

definition subs_ok :: "eventDispatcher \<Rightarrow> bool" where
  "subs_ok d \<longleftrightarrow> distinct (d_subs d) \<and> set (d_subs d) \<subseteq> dom (d_objs d) \<and> dom (d_objs d) \<subseteq> {1..d_nextID d} \<and> 0 \<le> d_nextID d \<and>
     (\<forall>i sub. d_objs d i = Some sub \<longrightarrow> length (sub_ch sub) \<le> subChanBuffer \<and> (i \<in> set (d_subs d) \<longrightarrow> \<not> sub_cancelled sub))"

lemma deliver_sel [simp]: "sub_key (deliver ev sub) = sub_key sub" "sub_rangeEnd (deliver ev sub) = sub_rangeEnd sub"
  by (simp_all add: deliver_def signalCancel_def)

lemma deliver_takes [simp]: "takes e (deliver ev sub) = takes e sub"
  by (simp add: takes_def)

lemma deliver_ok: "length (sub_ch sub) \<le> subChanBuffer \<Longrightarrow> length (sub_ch (deliver ev sub)) \<le> subChanBuffer"
  by (auto simp: deliver_def full_def signalCancel_def)

lemma releaseLocked_subs_ok: "subs_ok d \<Longrightarrow> subs_ok (releaseLocked ev d)"
proof -
  assume ok: "subs_ok d"
  then have dist: "distinct (d_subs d)" by (simp add: subs_ok_def)
  note rel = releaseLocked_obj[OF dist, of ev] releaseLocked_subs[OF dist, of ev]
  have "d_objs (releaseLocked ev d) i = Some sub \<Longrightarrow>
      length (sub_ch sub) \<le> subChanBuffer \<and> (i \<in> set (d_subs (releaseLocked ev d)) \<longrightarrow> \<not> sub_cancelled sub)" for i sub
    using ok rel by (auto simp: subs_ok_def deliver_def signalCancel_def full_def split: if_splits)
  moreover have "dom (d_objs (releaseLocked ev d)) = dom (d_objs d)"
    using rel(1) by (auto simp: dom_def split: if_splits)
  ultimately show ?thesis using ok rel(2) by (auto simp: subs_ok_def)
qed

lemma releases_channel_out:
  "subs_ok d \<Longrightarrow> i \<notin> set (d_subs d) \<Longrightarrow>
   d_objs (fold releaseLocked rel d) i = d_objs d i \<and> i \<notin> set (d_subs (fold releaseLocked rel d))"
proof (induction rel arbitrary: d)
  case (Cons ev rel)
  then have dist: "distinct (d_subs d)" by (simp add: subs_ok_def)
  have "i \<notin> set (d_subs (releaseLocked ev d))" using Cons.prems releaseLocked_subs[OF dist] by auto
  moreover have "d_objs (releaseLocked ev d) i = d_objs d i" using Cons.prems releaseLocked_obj[OF dist] by auto
  ultimately show ?case using Cons.IH[OF releaseLocked_subs_ok[OF Cons.prems(1)]] by simp
qed simp

lemma releases_channel:
  assumes "subs_ok d" and "i \<in> set (d_subs d)" and "d_objs d i = Some sub"
  shows "d_objs (fold releaseLocked rel d) i = Some (channel_after rel sub) \<and>
    (i \<in> set (d_subs (fold releaseLocked rel d)) \<longleftrightarrow> \<not> sub_cancelled (channel_after rel sub))"
  using assms
proof (induction rel arbitrary: d sub)
  case Nil
  then have "\<not> sub_cancelled sub" "length (sub_ch sub) \<le> subChanBuffer" by (auto simp: subs_ok_def)
  with Nil show ?case by (simp add: channel_after_def)
next
  case (Cons ev rel)
  then have dist: "distinct (d_subs d)" and sub: "\<not> sub_cancelled sub" "length (sub_ch sub) \<le> subChanBuffer"
    by (auto simp: subs_ok_def)
  define d1 where "d1 = releaseLocked ev d"
  have ok1: "subs_ok d1" unfolding d1_def by (rule releaseLocked_subs_ok[OF Cons.prems(1)])
  have obj: "d_objs d1 i = Some (deliver ev sub)"
    using releaseLocked_obj[OF dist] Cons.prems by (simp add: d1_def)
  have mem: "i \<in> set (d_subs d1) \<longleftrightarrow> \<not> (takes ev sub \<and> full sub)"
    using releaseLocked_subs[OF dist] Cons.prems by (simp add: d1_def)
  show ?case
  proof (cases "takes ev sub \<and> full sub")
    case True
    then have "length (sub_ch sub) = subChanBuffer" using sub(2) by (simp add: full_def)
    then have "channel_after (ev # rel) sub = deliver ev sub"
      using True sub by (simp add: channel_after_def deliver_def signalCancel_def Let_def)
    moreover have "sub_cancelled (deliver ev sub)" using True by (simp add: deliver_def signalCancel_def)
    ultimately show ?thesis using releases_channel_out[OF ok1, of i rel] mem True obj by (simp add: d1_def)
  next
    case False
    have "channel_after rel (deliver ev sub) = channel_after (ev # rel) sub"
    proof (cases "takes ev sub")
      case True
      then have "deliver ev sub = sub\<lparr>sub_ch := sub_ch sub @ [ev]\<rparr>" using False by (simp add: deliver_def)
      then show ?thesis using True by (simp add: channel_after_def Let_def takes_def del: take_append)
    qed (simp add: channel_after_def deliver_def)
    with Cons.IH[OF ok1 _ obj] mem False show ?thesis by (simp add: d1_def)
  qed
qed

section \<open>The checkpoint index\<close>

definition index_sorted :: "eventDispatcher \<Rightarrow> bool" where
  "index_sorted d \<longleftrightarrow> sorted_wrt (<) (map ck_rev (d_checkpoints d)) \<and> (\<forall>c\<in>set (d_checkpoints d). ck_rev c \<le> d_latestRev d)"

text \<open>Every checkpoint points at an event of the log.\<close>

definition index_of_log :: "Event list \<Rightarrow> eventDispatcher \<Rightarrow> bool" where
  "index_of_log log d \<longleftrightarrow> (\<forall>c\<in>set (d_checkpoints d). \<exists>ev\<in>set log. EvRev ev = ck_rev c \<and> EvID ev = ck_id c)"

text \<open>The spacing of the checkpoints while events are released without gaps.\<close>

definition spaced :: "eventDispatcher \<Rightarrow> bool" where
  "spaced d \<longleftrightarrow> (d_checkpoints d \<noteq> [] \<longrightarrow> d_latestRev d = d_nextRev d - 1 \<and>
     (\<forall>j<length (d_checkpoints d). ck_rev (d_checkpoints d ! j) = ck_rev (hd (d_checkpoints d)) + 512 * int j) \<and>
     d_latestRev d = ck_rev (last (d_checkpoints d)) + d_ckCounter d \<and> 0 \<le> d_ckCounter d \<and> d_ckCounter d < 512)"

lemma releaseLocked_index:
  "d_checkpoints (releaseLocked ev d) = d_checkpoints (maybeCheckpoint ev d)"
  "d_ckCounter (releaseLocked ev d) = d_ckCounter (maybeCheckpoint ev d)"
  by (simp_all add: releaseLocked_def Let_def) (simp_all add: maybeCheckpoint_def Let_def)

lemma maybeCheckpoint_cases:
  obtains "d_checkpoints (maybeCheckpoint ev d) = d_checkpoints d"
  | "EvID ev \<noteq> []" "d_checkpoints d = [] \<or> ck_rev (last (d_checkpoints d)) < EvRev ev"
    "d_checkpoints (maybeCheckpoint ev d) = d_checkpoints d @ [\<lparr>ck_rev = EvRev ev, ck_id = EvID ev\<rparr>]"
  by (cases "EvID ev = []"; cases "d_checkpoints d \<noteq> [] \<and> d_ckCounter d + 1 < checkpointEvery";
      cases "d_checkpoints d = [] \<or> ck_rev (last (d_checkpoints d)) < EvRev ev")
    (auto simp: maybeCheckpoint_def Let_def)

lemma releaseLocked_sorted:
  assumes "index_sorted d"
  shows "index_sorted (releaseLocked ev d)"
proof (cases rule: maybeCheckpoint_cases[of ev d])
  case 1
  with assms show ?thesis by (auto simp: index_sorted_def releaseLocked_index)
next
  case 2
  have "ck_rev c \<le> ck_rev (last (d_checkpoints d))" if "c \<in> set (d_checkpoints d)" for c
    using sorted_last_max[OF _ that, of ck_rev] assms by (simp add: index_sorted_def)
  with 2(2) have "\<forall>c\<in>set (d_checkpoints d). ck_rev c < EvRev ev" by force
  with 2(3) assms show ?thesis by (auto simp: index_sorted_def releaseLocked_index sorted_wrt_append)
qed

lemma releaseLocked_log: "index_of_log log d \<Longrightarrow> ev \<in> set log \<Longrightarrow> index_of_log log (releaseLocked ev d)"
  by (cases rule: maybeCheckpoint_cases[of ev d]) (auto simp: index_of_log_def releaseLocked_index)

lemma index_of_log_append: "index_of_log log d \<Longrightarrow> index_of_log (log @ evs) d"
  by (auto simp: index_of_log_def)

lemma releases_sorted: "index_sorted d \<Longrightarrow> index_sorted (fold releaseLocked rel d)"
  by (induction rel arbitrary: d) (simp_all add: releaseLocked_sorted)

lemma releases_log: "index_of_log log d \<Longrightarrow> set rel \<subseteq> set log \<Longrightarrow> index_of_log log (fold releaseLocked rel d)"
  by (induction rel arbitrary: d) (simp_all add: releaseLocked_log)

lemma releases_subs_ok: "subs_ok d \<Longrightarrow> subs_ok (fold releaseLocked rel d)"
  by (induction rel arbitrary: d) (simp_all add: releaseLocked_subs_ok)

lemma releases_latest:
  "sorted_wrt (<) (map EvRev rel) \<Longrightarrow>
   d_latestRev (fold releaseLocked rel d) = (if rel = [] then d_latestRev d else max (d_latestRev d) (EvRev (last rel)))"
proof (induction rel arbitrary: d)
  case (Cons ev rel)
  have l: "EvRev ev < EvRev (last rel)" if "rel \<noteq> []" using Cons.prems that by simp
  show ?case
  proof (cases "rel = []")
    case False
    with Cons have "d_latestRev (fold releaseLocked (ev # rel) d) = max (max (d_latestRev d) (EvRev ev)) (EvRev (last rel))"
      by simp
    also have "\<dots> = max (d_latestRev d) (EvRev (last rel))" using l[OF False] by (simp add: max_def)
    finally show ?thesis using False by simp
  qed simp
qed simp

lemma releaseLocked_spaced:
  assumes sp: "spaced d" and lat: "d_latestRev d = max 1 (d_nextRev d - 1)" "1 \<le> d_nextRev d"
    and ev: "EvRev ev = d_nextRev d" "EvID ev \<noteq> []"
  shows "spaced ((releaseLocked ev d)\<lparr>d_nextRev := d_nextRev d + 1\<rparr>)"
proof -
  define cks where "cks = d_checkpoints d"
  define c where "c = d_ckCounter d"
  define new where "new = \<lparr>ck_rev = d_nextRev d, ck_id = EvID ev\<rparr>"
  have lat': "d_latestRev (releaseLocked ev d) = d_nextRev d" using lat ev by simp
  show ?thesis
  proof (cases "cks = []")
    case True
    then have "d_checkpoints (releaseLocked ev d) = [new]" "d_ckCounter (releaseLocked ev d) = 0"
      using ev by (simp_all add: releaseLocked_index maybeCheckpoint_def cks_def new_def)
    with lat' show ?thesis by (simp add: spaced_def new_def)
  next
    case False
    then have l: "d_nextRev d - 1 = ck_rev (last cks) + c" and c: "0 \<le> c" "c < 512"
      and eq: "\<And>j. j < length cks \<Longrightarrow> ck_rev (cks ! j) = ck_rev (hd cks) + 512 * int j"
      using sp by (auto simp: spaced_def cks_def c_def)
    show ?thesis
    proof (cases "c + 1 < 512")
      case True
      then have "d_checkpoints (releaseLocked ev d) = cks" "d_ckCounter (releaseLocked ev d) = c + 1"
        using ev False by (simp_all add: releaseLocked_index maybeCheckpoint_def cks_def c_def checkpointEvery_def)
      with lat' eq l c True show ?thesis by (simp add: spaced_def)
    next
      case c511: False
      then have "d_checkpoints (releaseLocked ev d) = cks @ [new]" "d_ckCounter (releaseLocked ev d) = 0"
        using ev False l c by (simp_all add: releaseLocked_index maybeCheckpoint_def cks_def c_def new_def checkpointEvery_def)
      moreover have "ck_rev (last cks) = ck_rev (hd cks) + 512 * (int (length cks) - 1)"
        using eq[of "length cks - 1"] False by (simp add: last_conv_nth of_nat_diff Suc_leI)
      then have "ck_rev ((cks @ [new]) ! j) = ck_rev (hd cks) + 512 * int j" if "j < length (cks @ [new])" for j
        using that eq[of j] l c c511 by (cases "j < length cks") (simp_all add: nth_append new_def less_Suc_eq)
      ultimately show ?thesis using lat' False by (simp add: spaced_def new_def)
    qed
  qed
qed

section \<open>The invariant\<close>

definition disp_inv :: "eventDispatcher \<Rightarrow> bool" where
  "disp_inv d \<longleftrightarrow> subs_ok d \<and> buffer_ok d \<and> index_sorted d \<and> d_latestRev d = max 1 (d_nextRev d - 1)"

lemma after_release_sel:
  assumes "after_release rel d d'"
  shows "d_objs d' = d_objs (fold releaseLocked rel d)" "d_subs d' = d_subs (fold releaseLocked rel d)"
    "d_latestRev d' = d_latestRev (fold releaseLocked rel d)" "d_checkpoints d' = d_checkpoints (fold releaseLocked rel d)"
    "d_nextID d' = d_nextID d" "d_ckCounter d' = d_ckCounter (fold releaseLocked rel d)"
  by (subst assms[unfolded after_release_def], simp)+

lemma ingest_inv:
  assumes inv: "disp_inv d"
  shows "\<exists>rel. after_release rel d (ingest ev d) \<and> sorted_wrt (<) (map EvRev rel) \<and>
    (\<forall>e\<in>set rel. d_nextRev d \<le> EvRev e \<and> EvRev e < d_nextRev (ingest ev d)) \<and> d_nextRev d \<le> d_nextRev (ingest ev d) \<and>
    set rel \<union> buffered (ingest ev d) \<subseteq> insert ev (buffered d) \<and> disp_inv (ingest ev d)"
proof -
  have ok: "buffer_ok d" using inv by (simp add: disp_inv_def)
  define d' where "d' = ingest ev d"
  from ingest_releases[OF ok, of ev, folded d'_def] obtain rel where rel:
    "after_release rel d d'" "sorted_wrt (<) (map EvRev rel)" "\<forall>e\<in>set rel. d_nextRev d \<le> EvRev e"
    "set rel \<union> buffered d' \<subseteq> insert ev (buffered d)" "buffer_ok d'"
    "d_nextRev d' = (if rel = [] then d_nextRev d else EvRev (last rel) + 1)" by blast
  note sel = after_release_sel[OF rel(1)]
  have "EvRev e \<le> EvRev (last rel)" if "e \<in> set rel" for e
    using sorted_last_max[OF rel(2) that] .
  then have lt: "\<forall>e\<in>set rel. EvRev e < d_nextRev d'" using rel(6) by fastforce
  have ge: "rel \<noteq> [] \<Longrightarrow> d_nextRev d \<le> EvRev (last rel)" using rel(3) by simp
  have l: "d_latestRev d' = (if rel = [] then d_latestRev d else max (d_latestRev d) (EvRev (last rel)))"
    unfolding sel(3) by (rule releases_latest[OF rel(2)])
  have i: "d_latestRev d = max 1 (d_nextRev d - 1)" "1 \<le> d_nextRev d"
    using inv by (simp_all add: disp_inv_def buffer_ok_def)
  have "d_latestRev d' = max 1 (d_nextRev d' - 1)"
  proof (cases "rel = []")
    case False
    with l rel(6) i ge[OF False] show ?thesis by simp
  qed (use l rel(6) i in simp)
  moreover have "subs_ok d'"
    using releases_subs_ok[of d rel] inv unfolding subs_ok_def sel disp_inv_def by simp
  moreover have "index_sorted d'"
    using releases_sorted[of d rel] inv unfolding index_sorted_def sel disp_inv_def by blast
  ultimately have "disp_inv d'" using rel(5) by (simp add: disp_inv_def)
  moreover have "d_nextRev d \<le> d_nextRev d'" using rel(6) ge by (cases "rel = []") auto
  ultimately show ?thesis
    unfolding d'_def[symmetric] using rel(1-4) lt by (intro exI[of _ rel] conjI) auto
qed

lemma register_sel:
  fixes k e d
  defines "d' \<equiv> snd (register k e d)" and "i \<equiv> d_nextID d + 1"
  shows "fst (register k e d) = (i, d_latestRev d)" "d_subs d' = d_subs d @ [i]" "d_nextID d' = i"
    "d_objs d' = (d_objs d)(i \<mapsto> \<lparr>sub_key = k, sub_rangeEnd = e, sub_ch = [], sub_cancelled = False\<rparr>)"
    "d_latestRev d' = d_latestRev d" "d_nextRev d' = d_nextRev d" "d_pending d' = d_pending d"
    "d_checkpoints d' = d_checkpoints d" "d_ckCounter d' = d_ckCounter d" "d_flushes d' = d_flushes d"
  by (simp_all add: register_def Let_def i_def d'_def)

lemma register_inv: "disp_inv d \<Longrightarrow> disp_inv (snd (register k e d))"
proof -
  assume inv: "disp_inv d"
  then have s: "subs_ok d" by (simp add: disp_inv_def)
  then have sub: "set (d_subs d) \<subseteq> dom (d_objs d)" "dom (d_objs d) \<subseteq> {1..d_nextID d}"
    unfolding subs_ok_def by blast+
  have "d_nextID d + 1 \<notin> {1..d_nextID d}" by simp
  with sub have n: "d_nextID d + 1 \<notin> dom (d_objs d)" "d_nextID d + 1 \<notin> set (d_subs d)" by blast+
  have "subs_ok (snd (register k e d))"
    unfolding subs_ok_def register_sel using s n sub by (auto simp: subs_ok_def)
  with inv show ?thesis
    unfolding disp_inv_def buffer_ok_def wf_pending_def index_sorted_def register_sel by blast
qed

lemma deregister_inv: "disp_inv d \<Longrightarrow> disp_inv (deregister i d)"
  by (auto simp: disp_inv_def subs_ok_def deregister_def buffer_ok_def wf_pending_def index_sorted_def distinct_removeAll)

section \<open>Positions in the log\<close>

lemma events_after_split:
  assumes "distinct (map EvID (xs @ e # ys))" and "EvID e \<noteq> ''0''"
  shows "events_after (EvID e) (xs @ e # ys) = ys"
proof -
  have "dropWhile (\<lambda>ev. EvID ev \<noteq> EvID e) (xs @ e # ys) = e # ys"
    using assms(1) by (subst dropWhile_append2) (auto simp: image_iff)
  with assms(2) show ?thesis by (simp add: events_after_def)
qed

lemma known_id_split:
  assumes "known_id lastID evs" and "distinct (map EvID evs)" and "''0'' \<notin> EvID ` set evs"
  obtains pre where "evs = pre @ events_after lastID evs" "lastID = ''0'' \<Longrightarrow> pre = []"
    "lastID \<noteq> ''0'' \<Longrightarrow> pre \<noteq> [] \<and> EvID (last pre) = lastID"
proof (cases "lastID = ''0''")
  case True
  then show thesis using that[of "[]"] by (simp add: events_after_def)
next
  case False
  with assms(1) obtain e where e: "e \<in> set evs" "EvID e = lastID" by (auto simp: known_id_def)
  then obtain xs ys where evs: "evs = xs @ e # ys" by (meson split_list)
  from events_after_split[of xs e ys] assms(2) False e(2) have "events_after lastID evs = ys" by (simp add: evs)
  with that[of "xs @ [e]"] False e(2) evs show thesis by simp
qed

lemma events_after_append:
  assumes "known_id lastID evs"
  shows "events_after lastID (evs @ new) = events_after lastID evs @ new" and "known_id lastID (evs @ new)"
proof -
  show "known_id lastID (evs @ new)" using assms by (auto simp: known_id_def)
  show "events_after lastID (evs @ new) = events_after lastID evs @ new"
  proof (cases "lastID = ''0''")
    case False
    with assms obtain e where e: "e \<in> set evs" "EvID e = lastID" by (auto simp: known_id_def)
    then have "dropWhile (\<lambda>ev. EvID ev \<noteq> lastID) evs \<noteq> []" by (auto simp: dropWhile_eq_Nil_conv)
    moreover have "dropWhile (\<lambda>ev. EvID ev \<noteq> lastID) (evs @ new) = dropWhile (\<lambda>ev. EvID ev \<noteq> lastID) evs @ new"
      using e by (intro dropWhile_append1) auto
    ultimately show ?thesis using False by (simp add: events_after_def)
  qed (simp add: events_after_def)
qed

text \<open>The events after one of the log are those of higher revision.\<close>

lemma events_after_rev:
  assumes revs: "sorted_wrt (<) (map EvRev log)" and ids: "distinct (map EvID log)" "''0'' \<notin> EvID ` set log"
    and e: "e \<in> set log"
  shows "events_after (EvID e) log = filter (\<lambda>x. EvRev e < EvRev x) log"
proof -
  obtain xs ys where log: "log = xs @ e # ys" using split_list[OF e] by blast
  have "EvID e \<noteq> ''0''" using ids(2) e by (metis imageI)
  with events_after_split[of xs e ys] ids(1) have "events_after (EvID e) log = ys" by (simp add: log)
  moreover have "filter (\<lambda>x. EvRev e < EvRev x) xs = []" "filter (\<lambda>x. EvRev e < EvRev x) ys = ys"
    using revs unfolding log by (auto simp: sorted_wrt_append filter_empty_conv filter_id_conv)
  ultimately show ?thesis by (simp add: log)
qed

lemma seek_cases:
  assumes "index_sorted d"
  obtains "seekStreamID startRev d = ''0''"
  | c where "c \<in> set (d_checkpoints d)" "ck_rev c < startRev" "seekStreamID startRev d = ck_id c"
proof -
  define below where "below = filter (\<lambda>c. ck_rev c < startRev) (d_checkpoints d)"
  have s: "seekStreamID startRev d = (if length below < 2 then ''0'' else ck_id (below ! (length below - 2)))"
    using assms seekStreamID_spec[of d startRev] by (simp add: index_sorted_def seek_spec_def below_def Let_def)
  show thesis
  proof (cases "length below < 2")
    case False
    then have "below ! (length below - 2) \<in> set below" by simp
    with s False that(2) show thesis by (auto simp: below_def)
  qed (use s that(1) in simp)
qed

lemma seek_covers:
  assumes "index_sorted d" and "index_of_log log d" and "sorted_wrt (<) (map EvRev log)"
    and "distinct (map EvID log)" and "''0'' \<notin> EvID ` set log"
  shows "known_id (seekStreamID startRev d) log"
    and "filter (\<lambda>ev. startRev \<le> EvRev ev) (events_after (seekStreamID startRev d) log) = filter (\<lambda>ev. startRev \<le> EvRev ev) log"
proof -
  have "known_id (seekStreamID startRev d) log \<and>
    filter (\<lambda>ev. startRev \<le> EvRev ev) (events_after (seekStreamID startRev d) log) = filter (\<lambda>ev. startRev \<le> EvRev ev) log"
  proof (cases rule: seek_cases[OF assms(1), of startRev])
    case 1
    then show ?thesis by (simp add: known_id_def events_after_def)
  next
    case (2 c)
    with assms(2) obtain ev where ev: "ev \<in> set log" "EvRev ev = ck_rev c" "EvID ev = ck_id c" by (auto simp: index_of_log_def)
    have "events_after (ck_id c) log = filter (\<lambda>x. EvRev ev < EvRev x) log"
      using events_after_rev[OF assms(3-5) ev(1)] ev(3) by simp
    then have "filter (\<lambda>ev. startRev \<le> EvRev ev) (events_after (ck_id c) log) = filter (\<lambda>ev. startRev \<le> EvRev ev) log"
      using ev(2) 2(2) by (auto intro!: filter_cong)
    moreover have "known_id (ck_id c) log" unfolding known_id_def using ev by (metis imageI)
    ultimately show ?thesis using 2(3) by simp
  qed
  then show "known_id (seekStreamID startRev d) log"
    "filter (\<lambda>ev. startRev \<le> EvRev ev) (events_after (seekStreamID startRev d) log) = filter (\<lambda>ev. startRev \<le> EvRev ev) log"
    by blast+
qed

text \<open>Contiguous releases keep the checkpoints evenly spaced.\<close>

lemma releases_spaced:
  assumes "spaced d" and "d_latestRev d = max 1 (d_nextRev d - 1)" and "1 \<le> d_nextRev d"
    and "map EvRev rel = [d_nextRev d..m - 1]" and "d_nextRev d \<le> m" and "\<forall>e\<in>set rel. EvID e \<noteq> []"
  shows "spaced ((fold releaseLocked rel d)\<lparr>d_nextRev := m\<rparr>)"
  using assms
proof (induction rel arbitrary: d)
  case Nil
  then have "m = d_nextRev d" by (metis list.map(1) upto_Nil zle_diff1_eq order_antisym not_le)
  with Nil show ?case by simp
next
  case (Cons ev rel)
  define d1 where "d1 = (releaseLocked ev d)\<lparr>d_nextRev := d_nextRev d + 1\<rparr>"
  have lt: "d_nextRev d \<le> m - 1" using Cons.prems(4) by (metis list.discI list.simps(9) upto_Nil not_le)
  with Cons.prems(4) have ev: "EvRev ev = d_nextRev d" and rel: "map EvRev rel = [d_nextRev d1..m - 1]"
    by (simp_all add: upto_rec1 d1_def)
  have "spaced d1" unfolding d1_def using Cons.prems(1-3,6) ev by (intro releaseLocked_spaced) simp_all
  moreover have "d_latestRev d1 = max 1 (d_nextRev d1 - 1)" "1 \<le> d_nextRev d1" "d_nextRev d1 \<le> m"
    using Cons.prems(2,3) ev lt by (simp_all add: d1_def)
  ultimately have "spaced ((fold releaseLocked rel d1)\<lparr>d_nextRev := m\<rparr>)" using Cons.IH rel Cons.prems(6) by simp
  then show ?case by (simp add: d1_def releases_upd)
qed

end
