(* ===== verification/StoreOpen.thy ===== *)
theory StoreOpen
  imports StoreApi
begin

text \<open>
  Opening a database: \<open>NewRedisStore\<close> on an empty database, on one in good order, and on one
  written by an older version, whose key index is a set instead of a sorted set.
\<close>

definition legacy :: "keyspace \<Rightarrow> bool" where
  "legacy s \<longleftrightarrow> (case vals s keyIndex of
     Some (RSet M) \<Rightarrow> finite M \<and> M \<noteq> {} \<and> store_inv (ks_upd keyIndex (RZset M) s) | _ \<Rightarrow> False)"

definition openable :: "keyspace \<Rightarrow> bool" where
  "openable s \<longleftrightarrow> vals s = Map.empty \<or> store_inv s \<or> legacy s"

lemma abs_store_vals: "vals s = vals t \<Longrightarrow> abs_store s = abs_store t"
  by (simp add: abs_store_def kv_at_def raw_of_def rev_of_def stream_of_def fun_eq_iff)

lemma store_inv_vals: "vals s = vals t \<Longrightarrow> store_inv s = store_inv t"
  using abs_store_vals[of s t]
  by (simp add: store_inv_def rep_ok_def raw_of_def rev_of_def stream_of_def)

lemma abs_store_keyIndex: "abs_store (ks_upd keyIndex x s) = abs_store s"
  by (simp add: abs_store_def kv_at_def raw_of_def rev_of_def stream_of_def fun_eq_iff)

context redis_store
begin

lemma zadd_all_view:
  "is_zset (vals (view d) k) \<Longrightarrow> ms \<noteq> [] \<or> as_zset (vals (view d) k) \<noteq> {} \<Longrightarrow>
   vals (view (snd (zadd_all (rs_redis r) k ms d))) =
     (vals (view d))(k \<mapsto> RZset (as_zset (vals (view d) k) \<union> set ms))"
proof (induction ms arbitrary: d)
  case Nil
  then obtain S where "vals (view d) k = Some (RZset S)"
    by (cases "vals (view d) k" rule: option.exhaust; cases "the (vals (view d) k)") auto
  then show ?case by (auto simp: zadd_all_def step fun_upd_idem)
next
  case (Cons m ms)
  define d1 where "d1 = snd (r_ZADD (rs_redis r) k m d)"
  have v1: "vals (view d1) = (vals (view d))(k \<mapsto> RZset (insert m (as_zset (vals (view d) k))))"
    using Cons.prems by (simp add: d1_def ZADD ks_zset_def)
  have "snd (zadd_all (rs_redis r) k (m # ms) d) = snd (zadd_all (rs_redis r) k ms d1)"
    using Cons.prems by (simp add: zadd_all_def step ZADD d1_def)
  with Cons.IH[of d1] v1 show ?case by (simp add: fun_eq_iff)
qed

lemma migrate_skip:
  "type_name (vals (view (db w)) keyIndex) \<noteq> ''set'' \<Longrightarrow> view (db (migrateKeyIndex r w)) = view (db w)"
  by (simp add: migrateKeyIndex_def call_ok step TYPE)

lemma migrate_set:
  assumes "vals (view (db w)) keyIndex = Some (RSet M)" and "finite M" and "M \<noteq> {}"
  shows "vals (view (db (migrateKeyIndex r w))) = (vals (view (db w)))(keyIndex \<mapsto> RZset M)"
proof -
  obtain ms where "r_SMEMBERS (rs_redis r) keyIndex (db w) = Inr ms" "set ms = M"
    using SMEMBERS[of "db w" keyIndex] assms by auto
  with assms show ?thesis
    by (auto simp: migrateKeyIndex_def call_ok step TYPE pipeline2_def roundtrip_ok pipe2_def Let_def
        split_beta zadd_all_view DEL)
qed

lemma open_ok:
  assumes "openable (view (db w))"
  defines "w' \<equiv> migrateKeyIndex r (snd (call r (r_SETNX (rs_redis r) revisionKey (format_int 0)) w))"
  shows "store_inv (view (db w')) \<and> abs_store (view (db w')) = abs_store (view (db w))"
proof -
  define w1 where "w1 = snd (call r (r_SETNX (rs_redis r) revisionKey (format_int 0)) w)"
  have w1: "view (db w1) = (if vals (view (db w)) revisionKey = None
      then ks_put revisionKey (RString (format_int 0)) (view (db w)) else view (db w))"
    by (simp add: w1_def call_ok SETNX)
  consider (fresh) "vals (view (db w)) = Map.empty" | (good) "store_inv (view (db w))" | (old) "legacy (view (db w))"
    using assms(1) by (auto simp: openable_def)
  then show ?thesis
  proof cases
    case fresh
    then have "vals (view (db w1)) = vals init_keyspace" by (simp add: w1 init_keyspace_def)
    moreover from this have "view (db w') = view (db w1)"
      by (simp add: w'_def w1_def[symmetric] migrate_skip init_keyspace_def)
    moreover have "abs_store (view (db w)) = abs_store init_keyspace"
      using fresh by (simp add: abs_store_def kv_at_def raw_of_def rev_of_def stream_of_def init_keyspace_def fun_eq_iff)
    ultimately show ?thesis
      using store_inv_init store_inv_vals abs_store_vals by metis
  next
    case good
    then have z: "is_zset (vals (view (db w)) keyIndex)" "vals (view (db w)) revisionKey \<noteq> None"
      using store_types[OF good] by simp_all
    then have "type_name (vals (view (db w)) keyIndex) \<noteq> ''set''"
      by (cases "vals (view (db w)) keyIndex" rule: is_zset.cases) auto
    with z good show ?thesis by (auto simp: w'_def w1_def[symmetric] migrate_skip w1)
  next
    case old
    then obtain M where M: "vals (view (db w)) keyIndex = Some (RSet M)" "finite M" "M \<noteq> {}"
      "store_inv (ks_upd keyIndex (RZset M) (view (db w)))"
      by (auto simp: legacy_def split: option.splits rval.splits)
    have "vals (view (db w)) revisionKey \<noteq> None" using store_types(3)[OF M(4)] by simp
    then have "view (db w1) = view (db w)" using w1 by auto
    then have "vals (view (db w')) = vals (ks_upd keyIndex (RZset M) (view (db w)))"
      using M migrate_set[of w1 M] by (simp add: w'_def w1_def[symmetric])
    then show ?thesis using M(4) store_inv_vals abs_store_vals abs_store_keyIndex by metis
  qed
qed

end

text \<open>C19: Opening.  \<open>NewRedisStoreDB\<close> on an empty database, on a database in good order, or on one
  whose key index an older version kept as a set, leaves a store that satisfies the invariant and has
  the same abstract content; \<open>unix://\<close> addresses select the socket path.\<close>

theorem NewRedisStoreDB_opens:
  assumes "NewRedisStoreDB connect addr n w = (r, w')"
    and "redis_store r view newid" and "openable (view (db w))"
  shows "store_inv (view (db w')) \<and> abs_store (view (db w')) = abs_store (view (db w)) \<and>
    r = \<lparr>rs_redis = fst (connect (redis_options addr n)), rs_net = snd (connect (redis_options addr n)), rs_sink = None\<rparr>"
  using redis_store.open_ok[OF assms(2,3)] assms(1) by (auto simp: NewRedisStoreDB_def Let_def)

theorem NewRedisStoreDB_opens_witness:
  "store_inv (db (snd (NewRedisStoreDB (\<lambda>_. (ref_redis, \<lambda>n. (Answer [], n))) ''unix:///run/redis.sock'' 0
     \<lparr>db = \<lparr>vals = Map.empty, ttls = Map.empty\<rparr>, net = (), snk = ()\<rparr>)))"
proof -
  let ?c = "\<lambda>_ :: Options. (ref_redis, \<lambda>n :: unit. (Answer [], n))"
  let ?w = "\<lparr>db = \<lparr>vals = Map.empty, ttls = Map.empty\<rparr>, net = (), snk = ()\<rparr> :: (keyspace, unit, unit) world"
  obtain r w' where o: "NewRedisStoreDB ?c ''unix:///run/redis.sock'' 0 ?w = (r, w')" by fastforce
  then have "r = \<lparr>rs_redis = ref_redis, rs_net = \<lambda>n. (Answer [], n), rs_sink = None\<rparr>"
    by (simp add: NewRedisStoreDB_def Let_def)
  then have "redis_store r id ref_newid" by (simp add: ref_redis_store)
  from NewRedisStoreDB_opens[OF o this] o show ?thesis by (simp add: openable_def)
qed

end
