(* ===== verification/StoreProps.thy ===== *)
theory StoreProps
  imports StoreOpen
begin

text \<open>
  The properties of the store: every method against the abstract store, for any Redis that keeps the
  laws and a network that answers.
\<close>

text \<open>C3: \<open>Put\<close> refines the abstract put.  It returns the next revision and the value it overwrote,
  changes the abstract store (values, revision, event log, lease attachments) exactly as
  \<open>mvcc_put\<close> says, keeps the store invariant, appends one event to the stream and hands that same
  event, with the next revision, to the sink.\<close>

theorem Put_refines:
  assumes "redis_store r view newid" and "store_inv (view (db w))"
    and "rev_of (view (db w)) < rev_limit" and "lease_ok l"
  shows "fst (Put r k v l w) = Inr (rev_of (view (db w)) + 1, kv_at (view (db w)) k) \<and>
    committed r view (mvcc_put k v l) w (snd (Put r k v l w))"
  using redis_store.Put_ok[OF assms] by simp

theorem Put_refines_witness:
  "fst (Put ref_store ''a'' ''x'' 7 ref_world) = Inr (1, None) \<and>
   committed ref_store id (mvcc_put ''a'' ''x'' 7) ref_world (snd (Put ref_store ''a'' ''x'' 7 ref_world))"
  using Put_refines[OF refs.redis_store_axioms, of ref_world 7 "''a''" "''x''"] store_inv_init
  by (simp add: lease_ok_def rev_limit_def)

text \<open>A world with one key, reached by a put.\<close>

definition one_key :: "(keyspace, unit, Event list) world" where
  "one_key = snd (Put ref_store ''a'' ''x'' 0 ref_world)"

lemma one_key_facts:
  "store_inv (db one_key)" "rev_of (db one_key) = 1"
  "kv_at (db one_key) k = (if k = ''a'' then Some \<lparr>Key = ''a'', Value = ''x'', CreateRevision = 1,
     ModRevision = 1, Version = 1, Lease = 0\<rparr> else None)"
proof -
  have "committed ref_store id (mvcc_put ''a'' ''x'' 0) ref_world one_key"
    unfolding one_key_def
    by (rule refs.Put_ok) (simp_all add: store_inv_init rev_limit_def)
  then have c: "store_inv (db one_key)" "abs_store (db one_key) = mvcc_put ''a'' ''x'' 0 (abs_store init_keyspace)"
    by (simp_all add: committed_def)
  from c(1) show "store_inv (db one_key)" .
  have "m_rev (abs_store (db one_key)) = 1" "m_kv (abs_store (db one_key)) k =
      (if k = ''a'' then Some \<lparr>Key = ''a'', Value = ''x'', CreateRevision = 1,
        ModRevision = 1, Version = 1, Lease = 0\<rparr> else None)"
    unfolding c(2) by (simp_all add: mvcc_put_def mvcc_write_def next_kv_def)
  then show "rev_of (db one_key) = 1"
    "kv_at (db one_key) k = (if k = ''a'' then Some \<lparr>Key = ''a'', Value = ''x'', CreateRevision = 1,
     ModRevision = 1, Version = 1, Lease = 0\<rparr> else None)" by simp_all
qed

text \<open>C9: \<open>Delete\<close> refines the abstract delete.  Of a present key it returns the next revision and the
  deleted value and commits one DELETE event; of an absent key it returns the current revision and
  changes nothing, neither the revision nor the stream nor the sink.\<close>

theorem Delete_refines:
  assumes "redis_store r view newid" and "store_inv (view (db w))" and "rev_of (view (db w)) < rev_limit"
  shows "fst (Delete r k w) = Inr (m_rev (mvcc_delete k (abs_store (view (db w)))), kv_at (view (db w)) k) \<and>
    (if kv_at (view (db w)) k = None then untouched view w (snd (Delete r k w))
     else committed r view (mvcc_delete k) w (snd (Delete r k w)))"
  using redis_store.Delete_ok[OF assms] redis_store.Delete_absent[OF assms(1,2)]
  by (cases "kv_at (view (db w)) k") (simp_all add: mvcc_delete_def mvcc_remove_def)

theorem Delete_refines_witness:
  "fst (Delete ref_store ''a'' one_key) = Inr (2, kv_at (db one_key) ''a'') \<and>
   committed ref_store id (mvcc_delete ''a'') one_key (snd (Delete ref_store ''a'' one_key))"
  using Delete_refines[OF refs.redis_store_axioms, of one_key "''a''"] one_key_facts
  by (simp add: rev_limit_def mvcc_delete_def mvcc_remove_def)

text \<open>C4: \<open>Txn\<close> with a PUT is an atomic compare-and-swap.  It succeeds exactly when the expected
  modification revision is the key's (0 for an absent key, -1 for "must not exist"); then it commits
  the write and hands the sink its event.  Otherwise it changes nothing and returns the current value
  and a revision of at least 1.\<close>

theorem Txn_refines:
  assumes "redis_store r view newid" and "store_inv (view (db w))"
    and "rev_of (view (db w)) < rev_limit" and "lease_ok l"
  shows "if cas_ok e (kv_at (view (db w)) k)
    then fst (Txn r k e ''PUT'' v l w) =
           Inr \<lparr>Succeeded = True, Revision = rev_of (view (db w)) + 1, Current = None\<rparr> \<and>
         committed r view (mvcc_cas k e v l) w (snd (Txn r k e ''PUT'' v l w))
    else fst (Txn r k e ''PUT'' v l w) =
           Inr \<lparr>Succeeded = False, Revision = max 1 (rev_of (view (db w))), Current = kv_at (view (db w)) k\<rparr> \<and>
         untouched view w (snd (Txn r k e ''PUT'' v l w))"
  using redis_store.Txn_put[OF assms, of e k v] redis_store.Txn_fail[OF assms(1,2), of e k "''PUT''" v l]
  by (simp add: committed_def mvcc_cas_def)

theorem Txn_refines_witness:
  "fst (Txn ref_store ''a'' (- 1) ''PUT'' ''y'' 0 one_key) =
     Inr \<lparr>Succeeded = False, Revision = 1, Current = kv_at (db one_key) ''a''\<rparr> \<and>
   fst (Txn ref_store ''a'' 1 ''PUT'' ''y'' 0 one_key) = Inr \<lparr>Succeeded = True, Revision = 2, Current = None\<rparr>"
  using Txn_refines[OF refs.redis_store_axioms, of one_key 0 "- 1" "''a''" "''y''"]
    Txn_refines[OF refs.redis_store_axioms, of one_key 0 1 "''a''" "''y''"] one_key_facts
  by (simp add: rev_limit_def cas_ok_def mod_of_def)

text \<open>\<open>Txn\<close> with a DELETE of a present key removes it and commits one DELETE event.  The write
  leaves the lease attachments alone.\<close>

theorem Txn_delete_refines:
  assumes "redis_store r view newid" and "store_inv (view (db w))" and "rev_of (view (db w)) < rev_limit"
    and "kv_at (view (db w)) k = Some kv" and "e = ModRevision kv" and "e \<noteq> - 1"
  shows "fst (Txn r k e ''DELETE'' v l w) =
      Inr \<lparr>Succeeded = True, Revision = rev_of (view (db w)) + 1, Current = None\<rparr> \<and>
    committed r view (mvcc_remove k) w (snd (Txn r k e ''DELETE'' v l w))"
  using redis_store.Txn_delete[OF assms(1-3) _ assms(4), of e v l] assms(4-6) by (simp add: cas_ok_def mod_of_def)

theorem Txn_delete_refines_witness:
  "fst (Txn ref_store ''a'' 1 ''DELETE'' [] 0 one_key) = Inr \<lparr>Succeeded = True, Revision = 2, Current = None\<rparr>"
  using Txn_delete_refines[OF refs.redis_store_axioms, of one_key "''a''" "the (kv_at (db one_key) ''a'')" 1 "[]" 0]
    one_key_facts
  by (simp add: rev_limit_def)

text \<open>Deleting an absent key through \<open>Txn\<close> (expected revision 0 or -1) fails with the error of
  the aborted script, after the counter was increased: a revision is consumed for which the stream
  has no event and the sink gets none, so the store invariant is lost.\<close>

theorem Txn_delete_absent_gap:
  assumes "redis_store r view newid" and "store_inv (view (db w))" and "rev_of (view (db w)) < rev_limit"
    and "kv_at (view (db w)) k = None" and "e = 0 \<or> e = - 1"
  shows "fst (Txn r k e ''DELETE'' v l w) = Inl (Wrap ''txn script'' (Redis BadArgument)) \<and>
    rev_of (view (db (snd (Txn r k e ''DELETE'' v l w)))) = rev_of (view (db w)) + 1 \<and>
    events_of (view (db (snd (Txn r k e ''DELETE'' v l w)))) = events_of (view (db w)) \<and>
    snk (snd (Txn r k e ''DELETE'' v l w)) = snk w \<and>
    \<not> store_inv (view (db (snd (Txn r k e ''DELETE'' v l w))))"
proof -
  note t = redis_store.Txn_delete_absent[OF assms(1-3) assms(5,4)]
  have "length (events_of (view (db w))) = nat (rev_of (view (db w)))"
    if "store_inv (view (db w))" for w :: "('a, 'b, 'c) world"
  proof -
    have "map EvRev (m_log (abs_store (view (db w)))) = [1..rev_of (view (db w))]"
      using store_invD(2)[OF that] by (simp add: mvcc_inv_def)
    from arg_cong[OF this, of length] show ?thesis by (simp add: events_of_log[symmetric])
  qed
  from this[OF assms(2)] this[of "snd (Txn r k e ''DELETE'' v l w)"] t store_invD(3)[OF assms(2)]
  show ?thesis by auto
qed

theorem Txn_delete_absent_gap_witness:
  "fst (Txn ref_store ''a'' 0 ''DELETE'' [] 0 ref_world) = Inl (Wrap ''txn script'' (Redis BadArgument)) \<and>
   rev_of (db (snd (Txn ref_store ''a'' 0 ''DELETE'' [] 0 ref_world))) = 1"
  using Txn_delete_absent_gap[OF refs.redis_store_axioms, of ref_world "''a''" 0 "[]" 0] store_inv_init
  by (simp add: rev_limit_def)

text \<open>\<open>Range\<close> returns the current values of exactly the keys with the prefix, each once, in
  ascending key order, with a revision of at least 1, and changes nothing.\<close>

theorem Range_exact:
  assumes "redis_store r view newid" and "store_inv (view (db w))"
  shows "\<exists>kvs. fst (Range r p w) = Inr (max 1 (rev_of (view (db w))), kvs) \<and>
    sorted_wrt (<) (map Key kvs) \<and>
    set kvs = {kv. \<exists>k. kv_at (view (db w)) k = Some kv \<and> prefix p k} \<and>
    untouched view w (snd (Range r p w))"
proof -
  let ?s = "view (db w)" and ?ks = "sorted_list_of_set {k. kv_at (view (db w)) k \<noteq> None \<and> prefix p k}"
  have ks: "set ?ks = {k. kv_at ?s k \<noteq> None \<and> prefix p k}"
    using set_sorted_list_of_set[OF finite_kvs[OF assms(2)]] .
  have "Key (the (kv_at ?s k)) = k" if "k \<in> set ?ks" for k
    using that ks by (auto simp: kv_at_def dest: decodeKV_Key split: option.splits)
  then have "map Key (range_of ?s p) = ?ks"
    by (simp add: range_of_def comp_def map_idI)
  moreover have "set (range_of ?s p) = {kv. \<exists>k. kv_at ?s k = Some kv \<and> prefix p k}"
    unfolding range_of_def set_map ks by force
  ultimately show ?thesis
    using redis_store.Range_ok[OF assms, of p] by auto
qed

theorem Range_exact_witness:
  "\<exists>kvs. fst (Range ref_store [] one_key) = Inr (1, kvs) \<and> set kvs = {the (kv_at (db one_key) ''a'')}"
  using Range_exact[OF refs.redis_store_axioms, of one_key "[]"] one_key_facts by auto

text \<open>\<open>BlockReadEvents\<close> reads the log in order and without gaps.  Started after a known event (or
  at \<open>0\<close>) with at least one event behind it, it returns the next \<open>maxCount\<close> events of the log
  exactly as they were committed, and the ID of the last of them, from which the next call goes on.\<close>

theorem BlockReadEvents_batch:
  assumes "redis_store r view newid" and "store_inv (view (db w))"
    and "known_id lastID (events_of (view (db w)))" and "0 < cnt"
    and "events_after lastID (events_of (view (db w))) \<noteq> []"
  shows "\<exists>evs. fst (BlockReadEvents r c lastID cnt w) = Inr (evs, EvID (last evs)) \<and>
    evs = take (nat cnt) (events_after lastID (events_of (view (db w)))) \<and> evs \<noteq> [] \<and>
    untouched view w (snd (BlockReadEvents r c lastID cnt w))"
  using redis_store.BlockReadEvents_some[OF assms, of c] redis_store.BlockReadEvents_untouched[OF assms(1)] assms(4,5)
  by (simp add: Let_def)

theorem BlockReadEvents_batch_witness:
  "\<exists>ev. fst (BlockReadEvents ref_store False ''0'' 1000 one_key) = Inr ([ev], EvID ev) \<and> EvRev ev = 1 \<and> EvKey ev = ''a''"
proof -
  have "committed ref_store id (mvcc_put ''a'' ''x'' 0) ref_world one_key"
    unfolding one_key_def by (rule refs.Put_ok) (simp_all add: store_inv_init rev_limit_def)
  then obtain ev where ev: "events_of (db one_key) = [ev]" "EvRev ev = 1"
    and abs: "abs_store (db one_key) = mvcc_put ''a'' ''x'' 0 (abs_store init_keyspace)"
    by (auto simp: committed_def)
  have "m_log (abs_store (db one_key)) = [strip ev]" using ev(1) events_of_log[of "db one_key"] by simp
  then have "EvKey (strip ev) = ''a''"
    unfolding abs by (auto simp: mvcc_put_def mvcc_write_def mk_event_def abs_store_def dest!: sym[of _ "strip ev"])
  then have "EvKey ev = ''a''" by (simp add: strip_def)
  with BlockReadEvents_batch[OF refs.redis_store_axioms, of one_key "''0''" 1000 False] ev one_key_facts(1)
  show ?thesis by (simp add: known_id_def events_after_def)
qed

end
