(* ===== verification/LossyNet.thy ===== *)
theory LossyNet
  imports StoreProps
begin

text \<open>
  The store on a network that loses replies.  The client library sends a request at most four times
  (its default of three retries); \<open>lossy_store\<close> says so and nothing else about the network.  Every
  attempt may have been executed.  The lemmas say what a put and a compare-and-swap can then have
  done to the store, and what the caller and the sink learn of it.
\<close>

locale lossy_store = redis_server "rs_redis r" view newid
  for r :: "('d, 'n, 'x) RedisStore" and view :: "'d \<Rightarrow> keyspace" and newid :: "string \<Rightarrow> 'd \<Rightarrow> sid" +
  assumes answered: "fst (rs_net r n) = Answer js \<Longrightarrow> length js \<le> 3"
    and failed: "fst (rs_net r n) = Fail js \<Longrightarrow> length js \<le> 4"

lemma fold_attempts:
  "fold (\<lambda>j d. if j = 0 then d else f d) js d = (f ^^ length (filter (\<lambda>j. j \<noteq> 0) js)) (d :: 'd)"
  by (induction js arbitrary: d) (auto simp: funpow_swap1)

context lossy_store
begin

lemma call_lossy:
  obtains n where "n \<le> 4" and "db (snd (call r c w)) = ((\<lambda>d. snd (c d)) ^^ n) (db w)"
    and "snk (snd (call r c w)) = snk w"
    and "fst (call r c w) = Inl ConnLost \<or>
      (\<exists>m. n = Suc m \<and> fst (call r c w) = map_sum Redis id (fst (c (((\<lambda>d. snd (c d)) ^^ m) (db w)))))"
proof -
  obtain oc nt where net: "rs_net r (net w) = (oc, nt)" by fastforce
  let ?k = "\<lambda>js. length (filter (\<lambda>j. j \<noteq> 0) js)"
  show ?thesis
  proof (cases oc)
    case (Answer js)
    then have "?k js \<le> 3" using answered[of "net w"] net length_filter_le[of "\<lambda>j. j \<noteq> 0" js] by (metis fst_conv le_trans)
    with Answer net that[of "Suc (?k js)"] show ?thesis
      by (simp add: call_def roundtrip_def fold_attempts split_beta)
  next
    case (Fail js)
    then have "?k js \<le> 4" using failed[of "net w"] net length_filter_le[of "\<lambda>j. j \<noteq> 0" js] by (metis fst_conv le_trans)
    with Fail net that[of "?k js"] show ?thesis
      by (simp add: call_def roundtrip_def fold_attempts)
  qed
qed

abbreviation put_script :: "bytes \<Rightarrow> bytes \<Rightarrow> int \<Rightarrow> ('d, rerr, reply list) cmd" where
  "put_script k v l \<equiv> write_lua (rs_redis r) (redisKey k) revisionKey eventStream keyIndex ''PUT'' v (format_int l)"

abbreviation txn_script :: "bytes \<Rightarrow> int \<Rightarrow> bytes \<Rightarrow> int \<Rightarrow> ('d, rerr, reply list) cmd" where
  "txn_script k e v l \<equiv>
     txn_lua (rs_redis r) (redisKey k) revisionKey eventStream keyIndex (format_int e) v ''PUT'' (format_int l)"

lemma put_once:
  assumes "store_inv (view d)" and "rev_of (view d) < rev_limit" and "lease_ok l"
  shows "store_inv (view (snd (put_script k v l d)))"
    and "abs_store (view (snd (put_script k v l d))) = mvcc_put k v l (abs_store (view d))"
    and "\<exists>ev. events_of (view (snd (put_script k v l d))) = events_of (view d) @ [ev] \<and>
      (\<exists>i. fst (put_script k v l d) = Inr [RBulk (format_int (rev_of (view d) + 1)), RBulk (raw_or_empty (view d) k),
          RBulk (put_blob k v l (view d)), RBulk (sid_str i)] \<and>
        ev = makeEvent ''PUT'' k (rev_of (view d) + 1) (put_blob k v l (view d)) (raw_or_empty (view d) k) (sid_str i))"
proof -
  obtain i d' where run: "put_script k v l d = (Inr [RBulk (format_int (rev_of (view d) + 1)), RBulk (raw_or_empty (view d) k),
            RBulk (put_blob k v l (view d)), RBulk (sid_str i)], d')"
    and d': "view d' = ks_commit k (Some (put_blob k v l (view d))) (lease_of (kv_at (view d) k)) l
      (i, put_fields k (rev_of (view d) + 1) (put_blob k v l (view d)) (raw_of (view d) k)) (view d)"
    and i: "fresh_id i (view d)"
    using write_lua_put[OF assms, of k v] by blast
  note src = cur_lease_of_stored(2)[OF assms(1), of k]
  show "store_inv (view (snd (put_script k v l d)))"
    using run d' inv_commit_put[OF assms src assms(3) i, of k v] by simp
  show "abs_store (view (snd (put_script k v l d))) = mvcc_put k v l (abs_store (view d))"
    using run d' abs_commit_put[OF assms src assms(3), of k v i] by (simp add: mvcc_put_def)
  have "events_of (view d') = events_of (view d) @ [makeEvent ''PUT'' k (rev_of (view d) + 1)
      (put_blob k v l (view d)) (raw_or_empty (view d) k) (sid_str i)]"
    unfolding d' by (intro events_of_commit parse_put_fields rev_below assms)
  with run show "\<exists>ev. events_of (view (snd (put_script k v l d))) = events_of (view d) @ [ev] \<and>
      (\<exists>i. fst (put_script k v l d) = Inr [RBulk (format_int (rev_of (view d) + 1)), RBulk (raw_or_empty (view d) k),
          RBulk (put_blob k v l (view d)), RBulk (sid_str i)] \<and>
        ev = makeEvent ''PUT'' k (rev_of (view d) + 1) (put_blob k v l (view d)) (raw_or_empty (view d) k) (sid_str i))"
    by auto
qed

lemma m_rev_put [simp]: "m_rev (mvcc_put k v l m) = m_rev m + 1"
  by (simp add: mvcc_put_def mvcc_write_def)

lemma put_iterated:
  assumes "store_inv (view d)" and "rev_of (view d) + int n \<le> rev_limit" and "lease_ok l"
  shows "store_inv (view (((\<lambda>d. snd (put_script k v l d)) ^^ n) d)) \<and>
    abs_store (view (((\<lambda>d. snd (put_script k v l d)) ^^ n) d)) = (mvcc_put k v l ^^ n) (abs_store (view d)) \<and>
    rev_of (view (((\<lambda>d. snd (put_script k v l d)) ^^ n) d)) = rev_of (view d) + int n"
  using assms(2)
proof (induction n)
  case (Suc n)
  let ?d = "((\<lambda>d. snd (put_script k v l d)) ^^ n) d"
  have IH: "store_inv (view ?d)" "abs_store (view ?d) = (mvcc_put k v l ^^ n) (abs_store (view d))"
    "rev_of (view ?d) = rev_of (view d) + int n" using Suc by simp_all
  then have lt: "rev_of (view ?d) < rev_limit" using Suc.prems by simp
  have "rev_of (view (snd (put_script k v l ?d))) = rev_of (view ?d) + 1"
    using put_once(2)[OF IH(1) lt assms(3), of k v] by (metis abs_store_sel(2) m_rev_put)
  with put_once(1,2)[OF IH(1) lt assms(3), of k v] IH show ?case by simp
qed (simp add: assms(1))

lemma Put_lossy:
  assumes inv: "store_inv (view (db w))" and lim: "rev_of (view (db w)) + 4 \<le> rev_limit" and l: "lease_ok l"
  shows "\<exists>n\<le>4. store_inv (view (db (snd (Put r k v l w)))) \<and>
    abs_store (view (db (snd (Put r k v l w)))) = (mvcc_put k v l ^^ n) (abs_store (view (db w))) \<and>
    (fst (Put r k v l w) = Inl (Wrap ''put script'' ConnLost) \<and> snk (snd (Put r k v l w)) = snk w \<or>
     1 \<le> n \<and> (\<exists>prev. fst (Put r k v l w) = Inr (rev_of (view (db w)) + int n, prev)) \<and>
     snk (snd (Put r k v l w)) = feed r (last (events_of (view (db (snd (Put r k v l w)))))) (snk w))"
proof -
  let ?c = "put_script k v l"
  let ?ex = "\<lambda>d. snd (?c d)"
  obtain n where n: "n \<le> 4" "db (snd (call r ?c w)) = (?ex ^^ n) (db w)" "snk (snd (call r ?c w)) = snk w"
    "fst (call r ?c w) = Inl ConnLost \<or>
      (\<exists>m. n = Suc m \<and> fst (call r ?c w) = map_sum Redis id (fst (?c ((?ex ^^ m) (db w)))))"
    by (rule call_lossy)
  have it: "j \<le> 4 \<Longrightarrow> store_inv (view ((?ex ^^ j) (db w))) \<and>
      abs_store (view ((?ex ^^ j) (db w))) = (mvcc_put k v l ^^ j) (abs_store (view (db w))) \<and>
      rev_of (view ((?ex ^^ j) (db w))) = rev_of (view (db w)) + int j" for j
    using put_iterated[OF inv _ l, of j] lim by simp
  from n(4) show ?thesis
  proof (elim disjE exE conjE)
    assume lost: "fst (call r ?c w) = Inl ConnLost"
    then have "Put r k v l w = (Inl (Wrap ''put script'' ConnLost), snd (call r ?c w))"
      by (simp add: Put_def step writeScript_def)
    with n it[OF n(1)] show ?thesis by (intro exI[of _ n]) auto
  next
    fix m assume m: "n = Suc m" and ans: "fst (call r ?c w) = map_sum Redis id (fst (?c ((?ex ^^ m) (db w))))"
    define d where "d = (?ex ^^ m) (db w)"
    have d: "store_inv (view d)" "rev_of (view d) = rev_of (view (db w)) + int m"
      using it[of m] m n(1) by (simp_all add: d_def)
    then have lt: "rev_of (view d) < rev_limit" using lim m n(1) by simp
    from put_once(3)[OF d(1) lt l, of k v] obtain ev i where ev: "events_of (view (snd (?c d))) = events_of (view d) @ [ev]"
      and run: "fst (?c d) = Inr [RBulk (format_int (rev_of (view d) + 1)), RBulk (raw_or_empty (view d) k),
          RBulk (put_blob k v l (view d)), RBulk (sid_str i)]"
      and mk: "ev = makeEvent ''PUT'' k (rev_of (view d) + 1) (put_blob k v l (view d)) (raw_or_empty (view d) k) (sid_str i)"
      by blast
    note b = rev_below[OF d(1) lt] store_invD(3)[OF d(1)]
    have db': "db (snd (call r ?c w)) = snd (?c d)" using n(2) m by (simp add: d_def)
    obtain prev where put: "fst (Put r k v l w) = Inr (rev_of (view d) + 1, prev)"
        "snd (Put r k v l w) = (snd (call r ?c w))\<lparr>snk := feed r ev (snk w)\<rparr>"
      using ans b n(3) by (simp add: Put_def step writeScript_def d_def[symmetric] run scriptRev_format scriptStr_def Let_def
          emit_committed mk del: One_nat_def)
    have "last (events_of (view (db (snd (Put r k v l w))))) = ev" using put(2) db' ev by simp
    moreover have "db (snd (Put r k v l w)) = (?ex ^^ n) (db w)" using put(2) n(2) by simp
    moreover have "rev_of (view d) + 1 = rev_of (view (db w)) + int n" using d(2) m by simp
    ultimately show ?thesis
      using it[OF n(1)] n(1) m put by (intro exI[of _ n] conjI disjI2) simp_all
  qed
qed

lemma cas_idem: "mvcc_inv m \<Longrightarrow> \<not> cas_ok e (Some (next_kv k v l m)) \<or> \<not> cas_ok e (m_kv m k)"
proof -
  assume inv: "mvcc_inv m"
  have "mod_of (m_kv m k) \<le> m_rev m"
    using mvcc_invD[OF inv, of k] inv by (cases "m_kv m k") (auto simp: mod_of_def kv_ok_def mvcc_inv_def)
  then show ?thesis using inv by (auto simp: cas_ok_def mod_of_def next_kv_def mvcc_inv_def)
qed

lemma txn_once:
  assumes "store_inv (view d)" and "rev_of (view d) < rev_limit" and "lease_ok l"
  shows "store_inv (view (snd (txn_script k e v l d))) \<and>
    abs_store (view (snd (txn_script k e v l d))) = mvcc_cas k e v l (abs_store (view d)) \<and>
    snd (txn_script k e v l (snd (txn_script k e v l d))) = snd (txn_script k e v l d)"
proof (cases "cas_ok e (kv_at (view d) k)")
  case False
  with txn_lua_fail[OF assms(1) False, of v "''PUT''" "format_int l"] assms(1) show ?thesis
    by (simp add: mvcc_cas_def)
next
  case True
  obtain i res d' where run: "txn_script k e v l d = (Inr res, d')"
    and d': "view d' = ks_commit k (Some (put_blob k v l (view d))) 0 0
      (i, put_fields k (rev_of (view d) + 1) (put_blob k v l (view d)) (raw_of (view d) k)) (view d)"
    and i: "fresh_id i (view d)"
    using txn_lua_put[OF assms True, of v] by blast
  have inv': "store_inv (view d')" using d' inv_commit_put[OF assms lease_ok_0 lease_ok_0 i, of k v] by simp
  have abs': "abs_store (view d') = mvcc_write k v l (abs_store (view d))"
    using d' abs_commit_put[OF assms lease_ok_0 lease_ok_0, of k v i] by (simp add: att_move_def mvcc_write_def)
  have "m_kv (abs_store (view d')) k = Some (next_kv k v l (abs_store (view d)))"
    unfolding abs' by (simp add: mvcc_write_def)
  then have "\<not> cas_ok e (kv_at (view d') k)"
    using cas_idem[OF store_invD(2)[OF assms(1)], of e k v l] True by simp
  from txn_lua_fail[OF inv' this, of v "''PUT''" "format_int l"] run inv' abs' True show ?thesis
    by (simp add: mvcc_cas_def)
qed

lemma funpow_stable: "f (f x) = f x \<Longrightarrow> (f ^^ Suc n) x = f x"
  by (induction n) simp_all

text \<open>One answered run of the compare-and-swap, from the reply to the caller and the sink.\<close>

lemma Txn_reply:
  assumes inv: "store_inv (view d)" and lim: "rev_of (view d) < rev_limit" and l: "lease_ok l"
    and ans: "fst (call r (txn_script k e v l) w) = map_sum Redis id (fst (txn_script k e v l d))"
    and db': "db (snd (call r (txn_script k e v l) w)) = snd (txn_script k e v l d)"
    and snk': "snk (snd (call r (txn_script k e v l) w)) = snk w"
  shows "\<exists>res. fst (Txn r k e ''PUT'' v l w) = Inr res \<and>
    db (snd (Txn r k e ''PUT'' v l w)) = snd (txn_script k e v l d) \<and>
    (if cas_ok e (kv_at (view d) k)
     then Succeeded res \<and>
       snk (snd (Txn r k e ''PUT'' v l w)) = feed r (last (events_of (view (snd (txn_script k e v l d))))) (snk w)
     else \<not> Succeeded res \<and> Current res = kv_at (view d) k \<and> snk (snd (Txn r k e ''PUT'' v l w)) = snk w)"
proof (cases "cas_ok e (kv_at (view d) k)")
  case False
  have b: "\<bar>max 1 (rev_of (view d))\<bar> < 10 ^ 14" "max 1 (rev_of (view d)) \<noteq> 0"
    using store_invD[OF inv] by (auto simp: rev_limit_def)
  have cur: "decodeKV k (raw_or_empty (view d) k) = kv_at (view d) k"
    using decode_raw_or_empty[OF inv, of k] by (cases "raw_or_empty (view d) k = []") (auto simp: decodeKV_def)
  show ?thesis
    using txn_lua_fail[OF inv False, of v "''PUT''" "format_int l"] b cur ans db' snk' False
    by (simp add: Txn_def step txn_succeeded_def txn_current_def txn_revision_def ParseInt_format_int Let_def
        del: max.bounded_iff)
next
  case True
  obtain i d' where run: "txn_script k e v l d =
      (Inr [RInt 1, RBulk (raw_or_empty (view d) k), RBulk (format_int (rev_of (view d) + 1)),
            RBulk (put_blob k v l (view d)), RBulk (sid_str i)], d')"
    and d': "view d' = ks_commit k (Some (put_blob k v l (view d))) 0 0
      (i, put_fields k (rev_of (view d) + 1) (put_blob k v l (view d)) (raw_of (view d) k)) (view d)"
    using txn_lua_put[OF inv lim l True, of v] by blast
  note b = rev_below[OF inv lim] store_invD(3)[OF inv]
  have "events_of (view d') = events_of (view d) @ [makeEvent ''PUT'' k (rev_of (view d) + 1)
      (put_blob k v l (view d)) (raw_or_empty (view d) k) (sid_str i)]"
    unfolding d' by (intro events_of_commit parse_put_fields b)
  with run b ans db' snk' True show ?thesis
    by (simp add: Txn_def step txn_succeeded_def txn_revision_def ParseInt_format_int scriptStr_def Let_def emit_committed)
qed

lemma Txn_lossy:
  fixes k v :: bytes and e :: int
  assumes inv: "store_inv (view (db w))" and lim: "rev_of (view (db w)) + 1 < rev_limit" and l: "lease_ok l"
  defines "cur \<equiv> abs_store (view (db w))" and "w' \<equiv> snd (Txn r k e ''PUT'' v l w)"
  shows "store_inv (view (db w')) \<and>
    (fst (Txn r k e ''PUT'' v l w) = Inl (Wrap ''txn script'' ConnLost) \<and> snk w' = snk w \<and>
       (abs_store (view (db w')) = cur \<or> abs_store (view (db w')) = mvcc_cas k e v l cur) \<or>
     (\<exists>res. fst (Txn r k e ''PUT'' v l w) = Inr res \<and> abs_store (view (db w')) = mvcc_cas k e v l cur \<and>
       (if Succeeded res
        then cas_ok e (m_kv cur k) \<and> snk w' = feed r (last (events_of (view (db w')))) (snk w)
        else snk w' = snk w \<and> Current res = m_kv (mvcc_cas k e v l cur) k)))"
proof -
  let ?c = "txn_script k e v l"
  let ?ex = "\<lambda>d. snd (?c d)"
  have lt: "rev_of (view (db w)) < rev_limit" using lim by simp
  note once = txn_once[OF inv lt l, of k e v]
  then have one: "store_inv (view (?ex (db w)))" "abs_store (view (?ex (db w))) = mvcc_cas k e v l (abs_store (view (db w)))"
    by simp_all
  obtain n where n: "n \<le> 4" "db (snd (call r ?c w)) = (?ex ^^ n) (db w)" "snk (snd (call r ?c w)) = snk w"
    "fst (call r ?c w) = Inl ConnLost \<or>
      (\<exists>m. n = Suc m \<and> fst (call r ?c w) = map_sum Redis id (fst (?c ((?ex ^^ m) (db w)))))"
    by (rule call_lossy)
  have it: "(?ex ^^ Suc m) (db w) = ?ex (db w)" for m
    using once by (intro funpow_stable) simp
  from n(4) show ?thesis
  proof (elim disjE exE conjE)
    assume lost: "fst (call r ?c w) = Inl ConnLost"
    then have "Txn r k e ''PUT'' v l w = (Inl (Wrap ''txn script'' ConnLost), snd (call r ?c w))"
      by (simp add: Txn_def step)
    moreover have "(?ex ^^ n) (db w) = db w \<or> (?ex ^^ n) (db w) = ?ex (db w)" using it by (cases n) auto
    ultimately show ?thesis using n(2,3) one inv unfolding w'_def cur_def by (metis fst_conv snd_conv)
  next
    fix m assume m: "n = Suc m" and ans: "fst (call r ?c w) = map_sum Redis id (fst (?c ((?ex ^^ m) (db w))))"
    define d where "d = (?ex ^^ m) (db w)"
    have d: "?ex d = ?ex (db w)" using it[of m] by (simp add: d_def)
    have db': "db (snd (call r ?c w)) = ?ex d" using n(2) m by (simp add: d_def)
    show ?thesis
    proof (cases m)
      case 0
      then have z: "(?ex ^^ m) (db w) = db w" by simp
      from Txn_reply[OF inv lt l ans[unfolded z] db'[unfolded d_def z] n(3)] obtain res where "fst (Txn r k e ''PUT'' v l w) = Inr res" "db w' = ?ex (db w)"
        "if cas_ok e (kv_at (view (db w)) k) then Succeeded res \<and> snk w' = feed r (last (events_of (view (?ex (db w))))) (snk w)
         else \<not> Succeeded res \<and> Current res = kv_at (view (db w)) k \<and> snk w' = snk w"
        unfolding w'_def by blast
      with one show ?thesis
        by (cases "cas_ok e (kv_at (view (db w)) k)") (simp_all add: cur_def mvcc_cas_def)
    next
      case (Suc m')
      then have e: "d = ?ex (db w)" using it[of m'] by (simp add: d_def del: funpow.simps(2))
      have i: "store_inv (view d)" "abs_store (view d) = mvcc_cas k e v l cur" using once e by (simp_all add: cur_def)
      have "m_rev (mvcc_cas k e v l cur) \<le> m_rev cur + 1" by (simp add: mvcc_cas_def mvcc_write_def)
      then have "rev_of (view d) < rev_limit" using i(2) lim by (metis abs_store_sel(2) cur_def le_less_trans)
      note reply = Txn_reply[OF i(1) this l ans[folded d_def] db' n(3)]
      have kv: "kv_at (view d) k = m_kv (mvcc_cas k e v l cur) k" using i(2) by (metis abs_store_sel(1))
      have "\<not> cas_ok e (kv_at (view d) k)"
        using cas_idem[OF store_invD(2)[OF inv], of e k v l] by (auto simp: kv cur_def mvcc_cas_def mvcc_write_def)
      with reply obtain res where "fst (Txn r k e ''PUT'' v l w) = Inr res" "db w' = ?ex d"
        "\<not> Succeeded res" "Current res = kv_at (view d) k" "snk w' = snk w"
        unfolding w'_def by auto
      with one d kv show ?thesis by (simp add: cur_def)
    qed
  qed
qed

lemma Txn_resent_fails:
  fixes k v :: bytes and e :: int
  assumes inv: "store_inv (view (db w))" and lim: "rev_of (view (db w)) + 1 < rev_limit" and l: "lease_ok l"
    and cas: "cas_ok e (kv_at (view (db w)) k)" and net: "fst (rs_net r (net w)) = Answer [1]"
  defines "w' \<equiv> snd (Txn r k e ''PUT'' v l w)"
  shows "\<exists>res. fst (Txn r k e ''PUT'' v l w) = Inr res \<and> \<not> Succeeded res \<and> snk w' = snk w \<and>
    abs_store (view (db w')) = mvcc_write k v l (abs_store (view (db w)))"
proof -
  let ?c = "txn_script k e v l"
  define d where "d = snd (?c (db w))"
  have lt: "rev_of (view (db w)) < rev_limit" using lim by simp
  have once: "store_inv (view d)" "abs_store (view d) = mvcc_write k v l (abs_store (view (db w)))" "snd (?c d) = d"
    using txn_once[OF inv lt l, of k e v] cas by (simp_all add: d_def mvcc_cas_def)
  have call: "fst (call r ?c w) = map_sum Redis id (fst (?c d))" "db (snd (call r ?c w)) = snd (?c d)"
    "snk (snd (call r ?c w)) = snk w"
    using net by (cases "rs_net r (net w)"; simp add: call_def roundtrip_def split_beta d_def)+
  have "m_rev (abs_store (view d)) = rev_of (view (db w)) + 1" unfolding once(2) by (simp add: mvcc_write_def)
  then have "rev_of (view d) < rev_limit" using lim by simp
  note reply = Txn_reply[OF once(1) this l call]
  have "m_kv (abs_store (view d)) k = Some (next_kv k v l (abs_store (view (db w))))"
    unfolding once(2) by (simp add: mvcc_write_def)
  then have "\<not> cas_ok e (kv_at (view d) k)"
    using cas_idem[OF store_invD(2)[OF inv], of e k v l] cas by simp
  with reply obtain res where "fst (Txn r k e ''PUT'' v l w) = Inr res" "db w' = d" "\<not> Succeeded res" "snk w' = snk w"
    unfolding w'_def once(3) by auto
  with once(2) show ?thesis by auto
qed

end

text \<open>C21: A put on a network that loses replies.  Whatever the network does, the store invariant holds
  afterwards and the put was executed between 0 and 4 times; when the caller gets a revision it is
  the one of the last execution, and the sink has received the event of that execution only.  When
  the caller gets an error the sink has received nothing, although the write may have been
  committed.\<close>

theorem Put_resent:
  assumes "lossy_store r view newid" and "store_inv (view (db w))"
    and "rev_of (view (db w)) + 4 \<le> rev_limit" and "lease_ok l"
  shows "\<exists>n\<le>4. store_inv (view (db (snd (Put r k v l w)))) \<and>
    abs_store (view (db (snd (Put r k v l w)))) = (mvcc_put k v l ^^ n) (abs_store (view (db w))) \<and>
    (fst (Put r k v l w) = Inl (Wrap ''put script'' ConnLost) \<and> snk (snd (Put r k v l w)) = snk w \<or>
     1 \<le> n \<and> (\<exists>prev. fst (Put r k v l w) = Inr (rev_of (view (db w)) + int n, prev)) \<and>
     snk (snd (Put r k v l w)) = feed r (last (events_of (view (db (snd (Put r k v l w)))))) (snk w))"
  using assms by (rule lossy_store.Put_lossy)

definition lossy_ref :: "outcome \<Rightarrow> (keyspace, unit, Event list) RedisStore" where
  "lossy_ref oc = \<lparr>rs_redis = ref_redis, rs_net = (\<lambda>n. (oc, n)), rs_sink = Some (\<lambda>ev x. x @ [ev])\<rparr>"

lemma lossy_ref_ok: "oc = Answer [1] \<or> oc = Fail [1] \<Longrightarrow> lossy_store (lossy_ref oc) id ref_newid"
  using refr.redis_server_axioms
  by (auto simp: lossy_store_def lossy_store_axioms_def lossy_ref_def)

interpretation lossyr: lossy_store "lossy_ref (Answer [1])" id ref_newid
  by (rule lossy_ref_ok) simp

lemma lossy_put_ran:
  "abs_store (db (snd (Put (lossy_ref (Fail [1])) ''a'' ''x'' 0 ref_world))) = mvcc_put ''a'' ''x'' 0 (abs_store init_keyspace)"
  "fst (Put (lossy_ref (Fail [1])) ''a'' ''x'' 0 ref_world) = Inl (Wrap ''put script'' ConnLost)"
proof -
  have "abs_store (db one_key) = mvcc_put ''a'' ''x'' 0 (abs_store init_keyspace)"
    using refs.Put_ok(2)[of ref_world 0 "''a''" "''x''"] store_inv_init by (simp add: one_key_def committed_def rev_limit_def)
  moreover have "db one_key = snd (write_lua ref_redis (redisKey ''a'') revisionKey eventStream keyIndex ''PUT'' ''x'' (format_int 0) init_keyspace)"
    by (simp add: one_key_def Put_def writeScript_def step call_def roundtrip_def ref_store_def split_beta emit_def
        Let_def split: sum.splits)
  ultimately show "abs_store (db (snd (Put (lossy_ref (Fail [1])) ''a'' ''x'' 0 ref_world))) = mvcc_put ''a'' ''x'' 0 (abs_store init_keyspace)"
    by (simp add: Put_def writeScript_def step call_def roundtrip_def lossy_ref_def)
  show "fst (Put (lossy_ref (Fail [1])) ''a'' ''x'' 0 ref_world) = Inl (Wrap ''put script'' ConnLost)"
    by (simp add: Put_def writeScript_def step call_def roundtrip_def lossy_ref_def)
qed

theorem Put_resent_witness:
  "fst (Put (lossy_ref (Fail [1])) ''a'' ''x'' 0 ref_world) = Inl (Wrap ''put script'' ConnLost) \<and>
   snk (snd (Put (lossy_ref (Fail [1])) ''a'' ''x'' 0 ref_world)) = [] \<and>
   rev_of (db (snd (Put (lossy_ref (Fail [1])) ''a'' ''x'' 0 ref_world))) = 1"
proof -
  have "m_rev (abs_store (db (snd (Put (lossy_ref (Fail [1])) ''a'' ''x'' 0 ref_world)))) = 1"
    unfolding lossy_put_ran by (simp add: mvcc_put_def mvcc_write_def)
  with Put_resent[OF lossy_ref_ok, of "Fail [1]" ref_world 0 "''a''" "''x''"] store_inv_init lossy_put_ran(2)
  show ?thesis by (auto simp: rev_limit_def)
qed



text \<open>C38: The failure a resent create reports.  When the reply to the first execution of a
  compare-and-swap that holds is lost and the client sends it again, the caller is told that the
  compare failed although its own write is in the store, and no event is handed to the sink.\<close>

theorem Txn_resent_reports_failure:
  assumes "lossy_store r view newid" and "store_inv (view (db w))"
    and "rev_of (view (db w)) + 1 < rev_limit" and "lease_ok l"
    and "cas_ok e (kv_at (view (db w)) k)" and "fst (rs_net r (net w)) = Answer [1]"
  shows "\<exists>res. fst (Txn r k e ''PUT'' v l w) = Inr res \<and> \<not> Succeeded res \<and>
    snk (snd (Txn r k e ''PUT'' v l w)) = snk w \<and>
    abs_store (view (db (snd (Txn r k e ''PUT'' v l w)))) = mvcc_write k v l (abs_store (view (db w)))"
  using assms by (rule lossy_store.Txn_resent_fails)

theorem Txn_resent_reports_failure_witness:
  "\<exists>res. fst (Txn (lossy_ref (Answer [1])) ''a'' (- 1) ''PUT'' ''x'' 0 ref_world) = Inr res \<and> \<not> Succeeded res \<and>
     snk (snd (Txn (lossy_ref (Answer [1])) ''a'' (- 1) ''PUT'' ''x'' 0 ref_world)) = []"
  using Txn_resent_reports_failure[OF lossy_ref_ok, of "Answer [1]" ref_world 0 "- 1" "''a''" "''x''"] store_inv_init
  by (auto simp: rev_limit_def cas_ok_def lossy_ref_def)

end
