(* ===== verification/WatchFacts.thy ===== *)
theory WatchFacts
  imports WatchServer DispInv LossyNet
begin

text \<open>
  The contracts the watch goroutines rely on, and what each of their loops does.
  \<open>event_log\<close> is the reading side of a store whose reads may fail: a read that succeeds returns the
  next events of the log.  \<open>grpc_stream\<close> is the sending side: a message the stream accepts is
  appended to what the client receives.
\<close>

section \<open>Contracts\<close>

locale event_log =
  fixes S :: "'w Store" and I :: "'w \<Rightarrow> bool" and E :: "'w \<Rightarrow> Event list"
  assumes log_revs: "I w \<Longrightarrow> map EvRev (E w) = [1..int (length (E w))]"
    and log_ids: "I w \<Longrightarrow> distinct (map EvID (E w))" "I w \<Longrightarrow> ''0'' \<notin> EvID ` set (E w)"
    and read: "I w \<Longrightarrow> known_id lastID (E w) \<Longrightarrow> 0 < cnt \<Longrightarrow> fst (st_BlockReadEvents S c lastID cnt w) = Inr (evs, newID) \<Longrightarrow>
      evs = take (nat cnt) (events_after lastID (E w)) \<and> (evs \<noteq> [] \<longrightarrow> newID = EvID (last evs))"
    and read_inv: "I w \<Longrightarrow> I (snd (st_BlockReadEvents S c lastID cnt w))"
    and read_log: "I w \<Longrightarrow> E (snd (st_BlockReadEvents S c lastID cnt w)) = E w"
begin

lemma log_sorted: "I w \<Longrightarrow> sorted_wrt (<) (map EvRev (E w))"
  using log_revs[of w] by simp

end

sublocale event_store \<subseteq> event_log S I E
proof
  fix w :: 'w and lastID c and cnt :: int and evs newID
  assume I: "I w"
  have "map EvRev (E w) = map EvRev (map strip (E w))" by (simp add: strip_def)
  then have "map EvRev (E w) = [1..m_rev (A w)]" using ev_log[OF I] ev_inv[OF I] by (simp add: mvcc_inv_def)
  moreover from this have "length (E w) = length [1..m_rev (A w)]" by (metis length_map)
  moreover have "0 \<le> m_rev (A w)" using ev_inv[OF I] by (simp add: mvcc_inv_def)
  ultimately show "map EvRev (E w) = [1..int (length (E w))]" by simp
  show "distinct (map EvID (E w))" "''0'' \<notin> EvID ` set (E w)" using ev_ids[OF I] .
  show "I (snd (st_BlockReadEvents S c lastID cnt w))" "E (snd (st_BlockReadEvents S c lastID cnt w)) = E w"
    using read_keeps I by blast+
  assume id: "known_id lastID (E w)" and cnt: "0 < cnt" and res: "fst (st_BlockReadEvents S c lastID cnt w) = Inr (evs, newID)"
  show "evs = take (nat cnt) (events_after lastID (E w)) \<and> (evs \<noteq> [] \<longrightarrow> newID = EvID (last evs))"
    using read_none[OF I id cnt _ res] read_some[OF I id cnt, of c] res
    by (cases "events_after lastID (E w) = []") auto
qed

text \<open>On a network that loses replies a read may fail or be executed several times; it still keeps
  the contract.\<close>

context lossy_store
begin

lemma BlockReadEvents_lossy:
  "view (db (snd (BlockReadEvents r c lastID cnt w))) = view (db w)" (is ?keep)
  "fst (BlockReadEvents r c lastID cnt w) = Inr x \<Longrightarrow>
   \<exists>es. r_XREAD (rs_redis r) eventStream lastID cnt 500 (db w) = Inr es \<and> x = readMessages (map xmessage es) [] lastID"
proof -
  define cm where "cm = (readE (r_XREAD (rs_redis r) eventStream lastID cnt 500) :: ('d, rerr, entry list) cmd)"
  have id: "((\<lambda>d. snd (cm d)) ^^ n) d = d" for n d by (induction n) (simp_all add: cm_def readE_def)
  have snd': "snd (BlockReadEvents r c lastID cnt w) = snd (call r cm w)"
    by (auto simp: BlockReadEvents_def step cm_def[symmetric] split: sum.splits)
  obtain n where n: "db (snd (call r cm w)) = ((\<lambda>d. snd (cm d)) ^^ n) (db w)"
    "fst (call r cm w) = Inl ConnLost \<or>
      (\<exists>m. n = Suc m \<and> fst (call r cm w) = map_sum Redis id (fst (cm (((\<lambda>d. snd (cm d)) ^^ m) (db w)))))"
    using call_lossy[of cm w] by blast
  show ?keep using n(1) by (simp add: snd' id)
  assume x: "fst (BlockReadEvents r c lastID cnt w) = Inr x"
  then have "fst (call r cm w) \<noteq> Inl ConnLost" by (auto simp: BlockReadEvents_def step cm_def[symmetric])
  then have "fst (call r cm w) = map_sum Redis id (r_XREAD (rs_redis r) eventStream lastID cnt 500 (db w))"
    using n(2) by (auto simp: id) (simp add: cm_def readE_def)
  with x show "\<exists>es. r_XREAD (rs_redis r) eventStream lastID cnt 500 (db w) = Inr es \<and> x = readMessages (map xmessage es) [] lastID"
    by (cases "r_XREAD (rs_redis r) eventStream lastID cnt 500 (db w)") (auto simp: BlockReadEvents_def step cm_def[symmetric])
qed

lemma XREAD_events:
  assumes inv: "store_inv (view d)" and id: "known_id lastID (events_of (view d))" and "0 < cnt"
    and es: "r_XREAD (rs_redis r) eventStream lastID cnt 500 d = Inr es"
  shows "list_all entry_ok es" and "map entry_event es = take (nat cnt) (events_after lastID (events_of (view d)))"
proof -
  obtain i where i: "parse_sid lastID = Some i"
    "events_after lastID (events_of (view d)) = map entry_event (filter (\<lambda>e. i < fst e) (stream_of (view d)))"
    using events_after_stream[OF inv id] by blast
  have ok: "\<forall>e\<in>set (stream_of (view d)). entry_ok e" and stm: "is_stream (vals (view d) eventStream)"
    using inv by (auto simp: store_inv_def rep_ok_def list_all_iff)
  have "es = take (nat cnt) (filter (\<lambda>e. i < fst e) (stream_of (view d)))"
  proof (cases "filter (\<lambda>e. i < fst e) (stream_of (view d)) = []")
    case True
    with XREAD_none[OF stm i(1), of cnt 500 es] es show ?thesis by (simp add: stream_of_def)
  next
    case False
    with XREAD[OF stm i(1) \<open>0 < cnt\<close>, of 500] es show ?thesis by (simp add: stream_of_def)
  qed
  then show "list_all entry_ok es" "map entry_event es = take (nat cnt) (events_after lastID (events_of (view d)))"
    using ok i(2) by (auto simp: list_all_iff take_map dest!: in_set_takeD)
qed

end

lemma store_inv_log:
  assumes "store_inv s"
  shows "map EvRev (events_of s) = [1..int (length (events_of s))]" and "int (length (events_of s)) = rev_of s"
proof -
  have "map EvRev (events_of s) = map EvRev (map strip (events_of s))" by (simp add: strip_def)
  moreover have "map EvRev (map strip (events_of s)) = [1..rev_of s]" and pos: "0 \<le> rev_of s"
    using assms events_of_log[of s] by (simp_all add: store_inv_def mvcc_inv_def)
  ultimately have l: "map EvRev (events_of s) = [1..rev_of s]" by metis
  from arg_cong[OF l, of length] pos show n: "int (length (events_of s)) = rev_of s" by simp
  show "map EvRev (events_of s) = [1..int (length (events_of s))]" unfolding n by (rule l)
qed

sublocale lossy_store \<subseteq> lossy_log: event_log "redis_Store r" "\<lambda>w. store_inv (view (db w))" "\<lambda>w. events_of (view (db w))"
proof
  fix w :: "('d, 'n, 'x) world" and lastID c and cnt :: int and evs newID
  assume inv: "store_inv (view (db w))"
  show "map EvRev (events_of (view (db w))) = [1..int (length (events_of (view (db w))))]" by (rule store_inv_log[OF inv])
  show "distinct (map EvID (events_of (view (db w))))" "''0'' \<notin> EvID ` set (events_of (view (db w)))"
    using events_of_ids[OF inv] .
  show "store_inv (view (db (snd (st_BlockReadEvents (redis_Store r) c lastID cnt w))))"
    "events_of (view (db (snd (st_BlockReadEvents (redis_Store r) c lastID cnt w)))) = events_of (view (db w))"
    using BlockReadEvents_lossy(1)[of c lastID cnt w] inv by (simp_all add: redis_Store_def)
  assume id: "known_id lastID (events_of (view (db w)))" and cnt: "0 < cnt"
    and res: "fst (st_BlockReadEvents (redis_Store r) c lastID cnt w) = Inr (evs, newID)"
  from res BlockReadEvents_lossy(2)[of c lastID cnt w] obtain es where
    es: "r_XREAD (rs_redis r) eventStream lastID cnt 500 (db w) = Inr es" "(evs, newID) = readMessages (map xmessage es) [] lastID"
    by (auto simp: redis_Store_def)
  note x = XREAD_events[OF inv id cnt es(1)]
  have "evs = map entry_event es" "newID = (if es = [] then lastID else sid_str (fst (last es)))"
    using es(2) readMessages_ok[OF x(1)] by simp_all
  moreover have "es \<noteq> [] \<Longrightarrow> EvID (last (map entry_event es)) = sid_str (fst (last es))"
    using EvID_entry_event[of "last es"] x(1) by (simp add: last_map list_all_iff)
  ultimately show "evs = take (nat cnt) (events_after lastID (events_of (view (db w)))) \<and> (evs \<noteq> [] \<longrightarrow> newID = EvID (last evs))"
    using x(2) by (cases "es = []") simp_all
qed

section \<open>Streams\<close>

locale grpc_stream =
  fixes send :: "'g sender" and sent :: "'g \<Rightarrow> WatchResponse list"
  assumes send_ok: "fst (send resp g) \<Longrightarrow> sent (snd (send resp g)) = sent g @ [resp]"
    and send_fail: "\<not> fst (send resp g) \<Longrightarrow> sent (snd (send resp g)) = sent g"

text \<open>A client that receives everything.\<close>

definition list_send :: "WatchResponse list sender" where
  "list_send resp g = (True, g @ [resp])"

interpretation list_stream: grpc_stream list_send "\<lambda>g. g"
  by unfold_locales (simp_all add: list_send_def)

text \<open>What one watch has sent.\<close>

definition sent_events :: "int \<Rightarrow> WatchResponse list \<Rightarrow> PbEvent list" where
  "sent_events i rs = concat (map WR_Events (filter (\<lambda>r. WR_WatchId r = i) rs))"

lemma sent_events_simps [simp]:
  "sent_events i (rs @ [r]) = sent_events i rs @ (if WR_WatchId r = i then WR_Events r else [])"
  "sent_events i [] = []"
  by (simp_all add: sent_events_def)

lemma response_sel [simp]:
  "WR_WatchId (response rv i) = i" "WR_Events (response rv i) = []"
  "WR_WatchId (unavailable rv i) = i" "WR_Events (unavailable rv i) = []"
  by (simp_all add: response_def unavailable_def)

section \<open>The loops over events\<close>

definition protos :: "Event list \<Rightarrow> PbEvent list" where
  "protos evs = List.map_filter eventToProto evs"

lemma protos_simps [simp]:
  "protos [] = []" "protos (xs @ ys) = protos xs @ protos ys"
  "protos (ev # evs) = (case eventToProto ev of None \<Rightarrow> protos evs | Some e \<Rightarrow> e # protos evs)"
  by (simp_all add: protos_def List.map_filter_def split: option.splits)

definition in_window :: "bytes \<Rightarrow> bytes \<Rightarrow> int \<Rightarrow> int \<Rightarrow> Event \<Rightarrow> bool" where
  "in_window key rangeEnd s b ev \<longleftrightarrow> s \<le> EvRev ev \<and> EvRev ev \<le> b \<and> matchesWatch (EvKey ev) key rangeEnd"

lemma catch_scan_spec:
  "sorted_wrt (<) (map EvRev evs) \<Longrightarrow>
   catch_scan key rangeEnd s b evs acc =
     (acc @ protos (filter (in_window key rangeEnd s b) evs), \<exists>ev\<in>set evs. b < EvRev ev)"
proof (induction evs arbitrary: acc)
  case (Cons ev evs)
  show ?case
  proof (cases "b < EvRev ev")
    case True
    then have "\<forall>x\<in>set (ev # evs). \<not> in_window key rangeEnd s b x"
      using Cons.prems by (auto simp: in_window_def)
    then have "filter (in_window key rangeEnd s b) (ev # evs) = []" by (simp only: filter_empty_conv)
    then have "protos (filter (in_window key rangeEnd s b) (ev # evs)) = []" by (simp only: protos_simps)
    with True show ?thesis by (simp only: catch_scan.simps if_True append_Nil2) auto
  next
    case False
    with Cons show ?thesis by (auto simp: in_window_def split: option.splits)
  qed
qed simp

lemma collect_loop_spec:
  "\<exists>used rest. ch = used @ rest \<and> length (fst acc @ protos (filter (\<lambda>ev. b < EvRev ev \<and> s \<le> EvRev ev) used)) \<le> max maxSendBatch (length (fst acc)) \<and>
     fst (fst (collect_loop b s ch acc)) = fst acc @ protos (filter (\<lambda>ev. b < EvRev ev \<and> s \<le> EvRev ev) used) \<and>
     snd (collect_loop b s ch acc) = rest \<and>
     (rest = [] \<or> maxSendBatch \<le> length (fst acc @ protos (filter (\<lambda>ev. b < EvRev ev \<and> s \<le> EvRev ev) used)))"
proof (induction b s ch acc rule: collect_loop.induct)
  case (1 b s ch acc)
  show ?case
  proof (cases "length (fst acc) < maxSendBatch")
    case False
    then show ?thesis by (subst (1 2) collect_loop.simps) (intro exI[of _ "[]"] exI[of _ ch], simp)
  next
    case True
    show ?thesis
    proof (cases ch)
      case Nil
      with True show ?thesis by (subst (1 2) collect_loop.simps) (intro exI[of _ "[]"], simp)
    next
      case (Cons ev ch')
      define acc' where "acc' = add_event b s ev acc"
      have acc': "fst acc' = fst acc @ protos (filter (\<lambda>ev. b < EvRev ev \<and> s \<le> EvRev ev) [ev])"
        by (auto simp: acc'_def add_event_def split: option.splits)
      have step: "collect_loop b s ch acc = collect_loop b s ch' acc'"
        using True Cons by (subst collect_loop.simps) (simp add: acc'_def)
      have "length (fst acc') \<le> maxSendBatch"
        using True by (auto simp: acc'_def add_event_def split: option.splits)
      moreover from "1.IH"[OF True Cons, folded acc'_def] obtain used rest where
        "ch' = used @ rest" "length (fst acc' @ protos (filter (\<lambda>ev. b < EvRev ev \<and> s \<le> EvRev ev) used)) \<le> max maxSendBatch (length (fst acc'))"
        "fst (fst (collect_loop b s ch' acc')) = fst acc' @ protos (filter (\<lambda>ev. b < EvRev ev \<and> s \<le> EvRev ev) used)"
        "snd (collect_loop b s ch' acc') = rest"
        "rest = [] \<or> maxSendBatch \<le> length (fst acc' @ protos (filter (\<lambda>ev. b < EvRev ev \<and> s \<le> EvRev ev) used))"
        by blast
      ultimately show ?thesis
        unfolding step using Cons acc' by (intro exI[of _ "ev # used"] exI[of _ rest]) (auto split: option.splits)
    qed
  qed
qed

end
