(* ===== verification/CatchUp.thy ===== *)
theory CatchUp
  imports WatchFacts
begin

text \<open>
  The catch-up of a watch: it delivers exactly the historical events of its window, whatever the
  other goroutines do meanwhile, and it always ends.
\<close>

text \<open>
  What the other goroutines may do between two looks of this watch at the world: keep the invariant,
  append to the log, and send on behalf of other watches only.
\<close>

definition quiet :: "('w \<Rightarrow> bool) \<Rightarrow> ('w \<Rightarrow> Event list) \<Rightarrow> ('g \<Rightarrow> WatchResponse list) \<Rightarrow> int \<Rightarrow>
  (('w, 'g) watch_view \<Rightarrow> ('w, 'g) watch_view) \<Rightarrow> bool"
where
  "quiet I E sent i env \<longleftrightarrow> (\<forall>v. I (v_world v) \<longrightarrow> I (v_world (env v)) \<and> prefix (E (v_world v)) (E (v_world (env v))) \<and>
     sent_events i (sent (v_stream (env v))) = sent_events i (sent (v_stream v)))"

text \<open>How many events lie before a position.\<close>

definition pos :: "string \<Rightarrow> Event list \<Rightarrow> int" where
  "pos lastID evs = int (length evs) - int (length (events_after lastID evs))"

lemma pos_append: "known_id lastID evs \<Longrightarrow> pos lastID (evs @ new) = pos lastID evs"
  by (simp add: pos_def events_after_append)

locale catching = event_log "ws_store ws" I E + grpc_stream send sent
  for ws :: "'w WatchServer" and I :: "'w \<Rightarrow> bool" and E :: "'w \<Rightarrow> Event list"
    and send :: "'g sender" and sent :: "'g \<Rightarrow> WatchResponse list" +
  fixes i :: int and key rangeEnd :: bytes and s b :: int
begin

abbreviation Q :: "Event list \<Rightarrow> PbEvent list" where
  "Q evs \<equiv> protos (filter (in_window key rangeEnd s b) evs)"

abbreviation out :: "('w, 'g) watch_view \<Rightarrow> PbEvent list" where
  "out v \<equiv> sent_events i (sent (v_stream v))"

abbreviation log :: "('w, 'g) watch_view \<Rightarrow> Event list" where
  "log v \<equiv> E (v_world v)"

text \<open>What has been sent, and what lies ahead, is what was to be sent.\<close>

definition catch_inv :: "PbEvent list \<Rightarrow> string \<Rightarrow> ('w, 'g) watch_view \<Rightarrow> bool" where
  "catch_inv old lastID v \<longleftrightarrow> I (v_world v) \<and> known_id lastID (log v) \<and>
     out v @ Q (events_after lastID (log v)) = old @ Q (log v)"

lemma catch_inv_quiet:
  assumes "catch_inv old lastID v" and "quiet I E sent i env"
  shows "catch_inv old lastID (env v)" and "pos lastID (log (env v)) = pos lastID (log v)"
proof -
  have v: "I (v_world v)" "known_id lastID (log v)" "out v @ Q (events_after lastID (log v)) = old @ Q (log v)"
    using assms(1) by (auto simp: catch_inv_def)
  then obtain new where new: "log (env v) = log v @ new" and I: "I (v_world (env v))" and o: "out (env v) = out v"
    using assms(2) unfolding quiet_def by (meson prefixE)
  show "pos lastID (log (env v)) = pos lastID (log v)" using pos_append[OF v(2)] by (simp add: new)
  show "catch_inv old lastID (env v)"
    using events_after_append[OF v(2), of new] v(3) I o by (simp add: catch_inv_def new flip: append_assoc)
qed

lemma Send_cases:
  assumes "WR_WatchId resp = i"
  shows "out (snd (Send send resp v)) = (if fst (Send send resp v) then out v @ WR_Events resp else out v)"
    and "v_world (snd (Send send resp v)) = v_world v"
  using assms send_ok[of resp "v_stream v"] send_fail[of resp "v_stream v"] by (simp_all add: Send_def)

text \<open>One batch.\<close>

lemma batch:
  assumes I: "I w" and id: "known_id lastID (E w)" and evs: "events = take 1000 (events_after lastID (E w))" "events \<noteq> []"
  shows "catch_scan key rangeEnd s b events [] = (Q events, \<exists>ev\<in>set events. b < EvRev ev)"
    and "events_after (EvID (last events)) (E w) = drop 1000 (events_after lastID (E w))"
    and "known_id (EvID (last events)) (E w)"
    and "\<exists>ev\<in>set events. b < EvRev ev \<Longrightarrow> Q (drop 1000 (events_after lastID (E w))) = []"
    and "\<not> (\<exists>ev\<in>set events. b < EvRev ev) \<Longrightarrow> pos lastID (E w) < pos (EvID (last events)) (E w) \<and> pos (EvID (last events)) (E w) \<le> b"
proof -
  define rest where "rest = events_after lastID (E w)"
  define later where "later = drop 1000 rest"
  define e where "e = last events"
  obtain pre where pre: "E w = pre @ rest"
    using known_id_split[OF id log_ids[OF I]] unfolding rest_def by metis
  have rest: "rest = events @ later" using evs(1) by (simp add: rest_def later_def)
  have E: "E w = (pre @ butlast events) @ e # later" using pre rest evs(2) by (simp add: e_def)
  have "sorted_wrt (<) (map EvRev (pre @ events @ later))" using log_sorted[OF I] by (simp add: pre rest)
  then have srt: "sorted_wrt (<) (map EvRev events)" and ord: "\<And>x y. x \<in> set events \<Longrightarrow> y \<in> set later \<Longrightarrow> EvRev x < EvRev y"
    by (simp_all add: sorted_wrt_append)
  show "catch_scan key rangeEnd s b events [] = (Q events, \<exists>ev\<in>set events. b < EvRev ev)"
    using catch_scan_spec[OF srt] by simp
  have e0: "EvID e \<noteq> ''0''" using log_ids(2)[OF I] by (auto simp: E)
  have "distinct (map EvID ((pre @ butlast events) @ e # later))" using log_ids(1)[OF I] by (simp add: E)
  from events_after_split[OF this e0] have after: "events_after (EvID e) (E w) = later" by (simp add: E)
  then show "events_after (EvID (last events)) (E w) = drop 1000 (events_after lastID (E w))"
    by (simp add: e_def rest_def later_def)
  show "known_id (EvID (last events)) (E w)" by (simp add: known_id_def E e_def[symmetric])
  show "Q (drop 1000 (events_after lastID (E w))) = []" if ex: "\<exists>ev\<in>set events. b < EvRev ev"
  proof -
    obtain ev where "ev \<in> set events" "b < EvRev ev" using ex by blast
    with ord have "\<not> in_window key rangeEnd s b x" if "x \<in> set later" for x
      using that by (force simp: in_window_def)
    then have "filter (in_window key rangeEnd s b) later = []" by simp
    then show ?thesis by (simp add: rest_def later_def)
  qed
  show "pos lastID (E w) < pos (EvID (last events)) (E w) \<and> pos (EvID (last events)) (E w) \<le> b"
    if no: "\<not> (\<exists>ev\<in>set events. b < EvRev ev)"
  proof -
    have len: "length (E w) = length pre + length rest" by (simp add: pre)
    have p: "pos lastID (E w) = int (length pre)" using len by (simp add: pos_def rest_def[symmetric])
    have q: "pos (EvID e) (E w) = int (length pre + length events)"
      using len rest by (simp add: pos_def after)
    have bl: "int (length (butlast events)) + 1 = int (length events)"
      using evs(2) by (simp add: Suc_leI of_nat_diff)
    have "map EvRev (E w) ! (length pre + length (butlast events)) = EvRev e" by (simp add: E nth_append)
    then have "EvRev e = int (length pre + length events)"
      using log_revs[OF I] bl by (simp add: E nth_upto)
    moreover have "EvRev e \<le> b" using no evs(2) by (auto simp: e_def not_less)
    ultimately show ?thesis using p q evs(2) by (simp add: e_def)
  qed
qed

definition rank :: "string \<Rightarrow> nat \<Rightarrow> ('w, 'g) watch_view \<Rightarrow> nat" where
  "rank lastID n v = 30 * nat (b - pos lastID (log v)) + (30 - n)"

text \<open>One round: what it returns, or how it comes closer to the end.\<close>

definition round_ok :: "PbEvent list \<Rightarrow> string \<Rightarrow> nat \<Rightarrow> ('w, 'g) watch_view \<Rightarrow> (string \<times> nat + bool) \<times> ('w, 'g) watch_view \<Rightarrow> bool" where
  "round_ok old lastID n v res \<longleftrightarrow>
     (case fst res of
        Inl (lastID', n') \<Rightarrow> catch_inv old lastID' (snd res) \<and> n' < 30 \<and> rank lastID' n' (snd res) < rank lastID n v
      | Inr fin \<Rightarrow> I (v_world (snd res)) \<and> prefix (out (snd res)) (old @ Q (log (snd res))) \<and>
          (fin \<longrightarrow> out (snd res) = old @ Q (log (snd res))))"

lemma catch_inv_prefix: "catch_inv old lastID v \<Longrightarrow> prefix (out v) (old @ Q (log v)) \<and> I (v_world v)"
  unfolding catch_inv_def by (metis prefixI)

lemma round_error:
  assumes inv: "catch_inv old lastID v" and n: "n < 30"
    and p: "pos lastID (log v) = pos lastID (log v0)"
  shows "round_ok old lastID n v0
    (if v_done v then (Inr False, v)
     else if maxReaderErrors \<le> n + 1 then (Inr False, snd (Send send (unavailable rv i) v))
     else (Inl (lastID, n + 1), v))"
proof -
  have "out (snd (Send send (unavailable rv i) v)) = out v" "v_world (snd (Send send (unavailable rv i) v)) = v_world v"
    using Send_cases[of "unavailable rv i" v] by simp_all
  with inv catch_inv_prefix[OF inv] n p show ?thesis
    by (auto simp: round_ok_def maxReaderErrors_def rank_def)
qed

lemma round_batch:
  assumes inv: "catch_inv old lastID v" and n: "n < 30" and p: "pos lastID (log v) = pos lastID (log v0)"
    and evs: "events = take 1000 (events_after lastID (log v))" "events \<noteq> []"
  shows "round_ok old lastID n v0
    (let (matched, reached) = catch_scan key rangeEnd s b events [];
         (ok, v2) = (if matched = [] then (True, v) else Send send ((response rv i)\<lparr>WR_Events := matched\<rparr>) v)
     in if \<not> ok then (Inr False, v2) else if reached then (Inr True, v2) else (Inl (EvID (last events), 0), v2))"
proof -
  have I: "I (v_world v)" and id: "known_id lastID (log v)" and o: "out v @ Q (events_after lastID (log v)) = old @ Q (log v)"
    using inv by (auto simp: catch_inv_def)
  note b = batch[OF I id evs]
  define reached where "reached \<longleftrightarrow> (\<exists>ev\<in>set events. b < EvRev ev)"
  define ok where "ok \<longleftrightarrow> Q events = [] \<or> fst (Send send ((response rv i)\<lparr>WR_Events := Q events\<rparr>) v)"
  define v2 where "v2 = (if Q events = [] then v else snd (Send send ((response rv i)\<lparr>WR_Events := Q events\<rparr>) v))"
  have "out v2 = (if ok then out v @ Q events else out v)" and w2: "v_world v2 = v_world v"
    using Send_cases[of "(response rv i)\<lparr>WR_Events := Q events\<rparr>" v] by (simp_all add: v2_def ok_def)
  then have out2: "ok \<Longrightarrow> out v2 = out v @ Q events" "\<not> ok \<Longrightarrow> out v2 = out v" by simp_all
  have split: "Q (events_after lastID (log v)) = Q events @ Q (drop 1000 (events_after lastID (log v)))"
    using append_take_drop_id[of 1000 "events_after lastID (log v)", symmetric] evs(1)
    by (metis filter_append protos_simps(2))
  have r: "(let (matched, reached) = catch_scan key rangeEnd s b events [];
         (ok, v2) = (if matched = [] then (True, v) else Send send ((response rv i)\<lparr>WR_Events := matched\<rparr>) v)
     in if \<not> ok then (Inr False, v2) else if reached then (Inr True, v2) else (Inl (EvID (last events), 0), v2)) =
    (if \<not> ok then (Inr False, v2) else if reached then (Inr True, v2) else (Inl (EvID (last events), 0), v2))"
    unfolding b(1) reached_def[symmetric] by (simp add: ok_def v2_def split_beta Let_def)
  consider "\<not> ok" | "ok" "reached" | "ok" "\<not> reached" by blast
  then show ?thesis
  proof cases
    case 1
    then show ?thesis unfolding r using out2(2) catch_inv_prefix[OF inv] by (simp add: round_ok_def w2)
  next
    case 2
    then have "out v2 = old @ Q (log v)" using out2(1) o split b(4) by (simp add: reached_def)
    then show ?thesis unfolding r using 2 I by (simp add: round_ok_def w2)
  next
    case 3
    then have "pos lastID (log v) < pos (EvID (last events)) (log v)" "pos (EvID (last events)) (log v) \<le> b"
      using b(5) by (simp_all add: reached_def)
    then have "rank (EvID (last events)) 0 v2 < rank lastID n v0"
      using n by (simp add: rank_def w2 p[symmetric])
    moreover have "catch_inv old (EvID (last events)) v2"
      using I b(2,3) out2(1) 3 o split by (simp add: catch_inv_def w2)
    ultimately show ?thesis unfolding r using 3 by (simp add: round_ok_def)
  qed
qed

lemma catchUp_round_ok:
  assumes inv: "catch_inv old lastID v" and n: "n < 30" and env: "quiet I E sent i env"
  shows "round_ok old lastID n v (catchUp_round ws send env i key rangeEnd s b lastID n v)"
proof -
  define v0 where "v0 = env v"
  note inv0 = catch_inv_quiet[OF inv env, folded v0_def]
  define rd where "rd = st_BlockReadEvents (ws_store ws) (v_done v0) lastID readBatchSize (v_world v0)"
  define v1 where "v1 = v0\<lparr>v_world := snd rd\<rparr>"
  have I0: "I (v_world v0)" "known_id lastID (log v0)" using inv0 by (auto simp: catch_inv_def)
  have log1: "log v1 = log v0" using read_log[OF I0(1)] by (simp add: v1_def rd_def)
  have inv1: "catch_inv old lastID v1"
    using inv0 read_inv[OF I0(1)] log1 by (simp add: catch_inv_def) (simp add: v1_def rd_def)
  have p1: "pos lastID (log v1) = pos lastID (log v)" using log1 inv0(2) by simp
  show ?thesis
  proof (cases "v_done v0")
    case True
    then show ?thesis
      using catch_inv_prefix[OF inv0(1)] by (simp add: catchUp_round_def v0_def round_ok_def)
  next
    case False
    then have dn: "v_done v0 = False" by simp
    have rnd: "catchUp_round ws send env i key rangeEnd s b lastID n v =
      (case fst rd of
         Inl _ \<Rightarrow>
           let v2 = env v1 in
           if v_done v2 then (Inr False, v2)
           else if maxReaderErrors \<le> n + 1 then (Inr False, snd (Send send (unavailable (currentRev (ws_disp ws (v_world v2))) i) v2))
           else (Inl (lastID, n + 1), v2)
       | Inr (events, newLastID) \<Rightarrow>
           if events = [] then (Inr True, v1)
           else let (matched, reached) = catch_scan key rangeEnd s b events [];
                    (ok, v2) = (if matched = [] then (True, v1)
                      else Send send ((response (currentRev (ws_disp ws (v_world v1))) i)\<lparr>WR_Events := matched\<rparr>) v1)
                in if \<not> ok then (Inr False, v2) else if reached then (Inr True, v2) else (Inl (newLastID, 0), v2))"
      unfolding catchUp_round_def v0_def[symmetric] v1_def rd_def dn using False by (simp add: Let_def split_beta)
    show ?thesis
    proof (cases "fst rd")
      case (Inl err)
      note inv2 = catch_inv_quiet[OF inv1 env]
      show ?thesis unfolding rnd Inl Let_def sum.case
        by (rule round_error[OF inv2(1) n]) (simp add: inv2(2) p1)
    next
      case (Inr x)
      obtain events newLastID where x: "x = (events, newLastID)" by fastforce
      have "fst (st_BlockReadEvents (ws_store ws) (v_done v0) lastID readBatchSize (v_world v0)) = Inr (events, newLastID)"
        using Inr x by (simp add: rd_def)
      from read[OF I0 _ this] have evs: "events = take 1000 (events_after lastID (log v1))"
        and new: "events \<noteq> [] \<Longrightarrow> newLastID = EvID (last events)"
        using log1 by (simp_all add: readBatchSize_def)
      show ?thesis
      proof (cases "events = []")
        case True
        then have "events_after lastID (log v1) = []" using evs by simp
        with inv1 True show ?thesis unfolding rnd Inr x by (simp add: round_ok_def catch_inv_def)
      next
        case False
        from round_batch[OF inv1 n p1 evs False] show ?thesis
          unfolding rnd Inr x sum.case prod.case new[OF False] using False by simp
      qed
    qed
  qed
qed

lemma catchUp_loop_ok:
  assumes "catch_inv old lastID v" and "n < 30" and "\<And>m. quiet I E sent i (env m)"
  shows "case catchUp_loop fuel ws send env i key rangeEnd s b lastID n v of (res, v') \<Rightarrow>
    I (v_world v') \<and> prefix (out v') (old @ Q (log v')) \<and>
    (res = Some True \<longrightarrow> out v' = old @ Q (log v')) \<and> (rank lastID n v \<le> fuel \<longrightarrow> res \<noteq> None)"
  using assms(1,2)
proof (induction fuel arbitrary: lastID n v)
  case 0
  then show ?case using catch_inv_prefix[OF 0(1)] by (simp add: rank_def)
next
  case (Suc fuel)
  define res where "res = catchUp_round ws send (env (Suc fuel)) i key rangeEnd s b lastID n v"
  have ok: "round_ok old lastID n v res" unfolding res_def by (rule catchUp_round_ok[OF Suc.prems assms(3)])
  show ?case
  proof (cases res)
    case (Pair out' v')
    show ?thesis
    proof (cases out')
      case (Inr fin)
      with ok Pair show ?thesis by (auto simp: res_def[symmetric] round_ok_def)
    next
      case (Inl x)
      obtain lastID' n' where x: "x = (lastID', n')" by fastforce
      have "catch_inv old lastID' v'" "n' < 30" and rk: "rank lastID' n' v' < rank lastID n v"
        using ok Pair Inl x by (simp_all add: round_ok_def)
      from Suc.IH[OF this(1,2)] rk show ?thesis
        using Pair Inl x by (auto simp: res_def[symmetric])
    qed
  qed
qed

end

end
