(* ===== verification/DispProps.thy ===== *)
theory DispProps
  imports DispInv
begin

text \<open>
  Properties of the dispatcher.  The locale \<open>reorder_buffer\<close> is what the release of events relies
  on: ingesting an unseen event inside the window loses nothing and releases a contiguous run.  From
  that law alone it follows that the arrival order of concurrent writes does not matter.
\<close>

section \<open>The contract of a reorder buffer\<close>

locale reorder_buffer =
  fixes I :: "'d \<Rightarrow> bool" and nxt :: "'d \<Rightarrow> int" and buf :: "'d \<Rightarrow> Event set"
    and ing :: "Event \<Rightarrow> 'd \<Rightarrow> 'd" and out :: "Event list \<Rightarrow> 'd \<Rightarrow> 'd \<Rightarrow> bool" and window :: int
  assumes out_refl: "out [] d d"
    and out_trans: "out r1 d d1 \<Longrightarrow> out r2 d1 d2 \<Longrightarrow> out (r1 @ r2) d d2"
    and buf_above: "I d \<Longrightarrow> e \<in> buf d \<Longrightarrow> nxt d < EvRev e"
    and ing_new: "I d \<Longrightarrow> nxt d \<le> EvRev ev \<Longrightarrow> EvRev ev \<notin> EvRev ` buf d \<Longrightarrow>
      (\<And>e. e \<in> insert ev (buf d) \<Longrightarrow> EvRev e \<le> nxt d + window) \<Longrightarrow>
      \<exists>rel. out rel d (ing ev d) \<and> map EvRev rel = [nxt d..nxt (ing ev d) - 1] \<and> nxt d \<le> nxt (ing ev d) \<and>
        set rel \<union> buf (ing ev d) = insert ev (buf d) \<and> I (ing ev d)"
begin

lemma released_revs: "map EvRev rel = [n..m - 1] \<Longrightarrow> n \<le> v \<Longrightarrow> v < m \<Longrightarrow> v \<in> EvRev ` set rel"
proof -
  assume "map EvRev rel = [n..m - 1]" "n \<le> v" "v < m"
  then have "v \<in> set (map EvRev rel)" by simp
  then show ?thesis by simp
qed

text \<open>Events not yet seen by \<open>d\<close>.\<close>

definition fresh :: "Event list \<Rightarrow> 'd \<Rightarrow> bool" where
  "fresh evs d \<longleftrightarrow> distinct (map EvRev evs) \<and>
     (\<forall>e\<in>set evs. nxt d \<le> EvRev e \<and> EvRev e \<notin> EvRev ` buf d) \<and>
     (\<forall>e\<in>set evs \<union> buf d. EvRev e \<le> nxt d + window)"

lemma fresh_step:
  assumes f: "fresh (ev # evs) d" and n: "nxt d \<le> nxt d1"
    and r: "map EvRev rel = [nxt d..nxt d1 - 1]" and b: "set rel \<union> buf d1 = insert ev (buf d)"
  shows "fresh evs d1"
proof -
  have sub: "set rel \<subseteq> insert ev (buf d)" "buf d1 \<subseteq> insert ev (buf d)" using b by blast+
  have "nxt d1 \<le> EvRev e \<and> EvRev e \<notin> EvRev ` buf d1" if e: "e \<in> set evs" for e
  proof -
    have "EvRev e \<notin> EvRev ` insert ev (buf d)" using f e by (auto simp: fresh_def image_iff)
    then have "EvRev e \<notin> EvRev ` set rel" "EvRev e \<notin> EvRev ` buf d1" 
      using sub by blast+
    moreover have "nxt d \<le> EvRev e" using f e by (auto simp: fresh_def)
    ultimately show ?thesis using released_revs[OF r, of "EvRev e"] by linarith
  qed
  moreover have "EvRev e \<le> nxt d1 + window" if "e \<in> set evs \<union> buf d1" for e
  proof -
    have "e \<in> set (ev # evs) \<union> buf d" using that sub by auto
    then have "EvRev e \<le> nxt d + window" using f unfolding fresh_def by blast
    with n show ?thesis by simp
  qed
  ultimately show ?thesis using f by (simp add: fresh_def)
qed

lemma fold_ing:
  "I d \<Longrightarrow> fresh evs d \<Longrightarrow>
   \<exists>rel. out rel d (fold ing evs d) \<and> map EvRev rel = [nxt d..nxt (fold ing evs d) - 1] \<and>
     nxt d \<le> nxt (fold ing evs d) \<and> set rel \<union> buf (fold ing evs d) = set evs \<union> buf d \<and> I (fold ing evs d)"
proof (induction evs arbitrary: d)
  case Nil
  then show ?case using out_refl by (intro exI[of _ "[]"]) simp
next
  case (Cons ev evs)
  define d1 where "d1 = ing ev d"
  have "nxt d \<le> EvRev ev" "EvRev ev \<notin> EvRev ` buf d" "\<And>e. e \<in> insert ev (buf d) \<Longrightarrow> EvRev e \<le> nxt d + window"
    using Cons.prems(2) by (auto simp: fresh_def)
  from ing_new[OF Cons.prems(1) this, folded d1_def] obtain rel where rel:
    "out rel d d1" "map EvRev rel = [nxt d..nxt d1 - 1]" "nxt d \<le> nxt d1"
    "set rel \<union> buf d1 = insert ev (buf d)" "I d1" by blast
  define d2 where "d2 = fold ing evs d1"
  from Cons.IH[OF rel(5) fresh_step[OF Cons.prems(2) rel(3,2,4)], folded d2_def] obtain rel2 where rel2:
    "out rel2 d1 d2" "map EvRev rel2 = [nxt d1..nxt d2 - 1]" "nxt d1 \<le> nxt d2"
    "set rel2 \<union> buf d2 = set evs \<union> buf d1" "I d2" by blast
  have f: "fold ing (ev # evs) d = d2" by (simp add: d1_def d2_def)
  have "map EvRev (rel @ rel2) = [nxt d..nxt d2 - 1]"
    using rel(2,3) rel2(2,3) upto_split1[of "nxt d" "nxt d1" "nxt d2 - 1"]
    by (cases "nxt d1 = nxt d2") simp_all
  moreover have "set (rel @ rel2) \<union> buf d2 = set (ev # evs) \<union> buf d" using rel(4) rel2(4) by auto
  ultimately show ?case
    unfolding f using out_trans[OF rel(1) rel2(1)] rel(3) rel2(3,5) 
    by (intro exI[of _ "rel @ rel2"] conjI) (assumption | simp)+
qed

lemma sort_key_unique:
  assumes "sorted_wrt (<) (map EvRev rel)" and "set rel = set evs" and "distinct (map EvRev evs)"
  shows "rel = sort_key EvRev evs"
proof (rule map_inj_on)
  show "map EvRev rel = map EvRev (sort_key EvRev evs)"
  proof (rule sorted_distinct_set_unique)
    show "sorted (map EvRev rel)" "distinct (map EvRev rel)" using assms(1) by (simp_all add: strict_sorted_iff)
    show "distinct (map EvRev (sort_key EvRev evs))" using assms(3) by (simp add: distinct_map)
  qed (use assms(2) in simp_all)
  show "inj_on EvRev (set rel \<union> set (sort_key EvRev evs))" using assms(2,3) by (simp add: distinct_map)
qed

lemma confluent:
  assumes I: "I d" and e: "buf d = {}" and dist: "distinct (map EvRev evs)"
    and revs: "EvRev ` set evs = {nxt d..<nxt d + k}" and k: "0 \<le> k" "k \<le> window + 1"
  shows "out (sort_key EvRev evs) d (fold ing evs d) \<and> nxt (fold ing evs d) = nxt d + k \<and>
    buf (fold ing evs d) = {} \<and> I (fold ing evs d)"
proof -
  define d' where "d' = fold ing evs d"
  have "nxt d \<le> EvRev e \<and> EvRev e \<le> nxt d + window" if "e \<in> set evs" for e
  proof -
    have "EvRev e \<in> {nxt d..<nxt d + k}" using that revs by blast
    with k show ?thesis by auto
  qed
  then have "fresh evs d" using dist e by (simp add: fresh_def)
  from fold_ing[OF I this, folded d'_def] obtain rel where rel:
    "out rel d d'" "map EvRev rel = [nxt d..nxt d' - 1]" "nxt d \<le> nxt d'" "set rel \<union> buf d' = set evs" "I d'"
    using e by auto
  have all: "EvRev ` set rel \<union> EvRev ` buf d' = {nxt d..<nxt d + k}" using rel(4) revs by (metis image_Un)
  have rr: "EvRev ` set rel = {nxt d..nxt d' - 1}" using rel(2) by (metis list.set_map set_upto)
  have "nxt d' \<notin> EvRev ` set rel \<union> EvRev ` buf d'" using rr by (auto dest: buf_above[OF rel(5)])
  with all rel(3) have "nxt d + k \<le> nxt d'" by simp
  moreover have "nxt d' \<le> nxt d + k"
  proof (cases "nxt d = nxt d'")
    case False
    then have "nxt d' - 1 \<in> EvRev ` set rel" using rr rel(3) by simp
    then have "nxt d' - 1 \<in> {nxt d..<nxt d + k}" using all by blast
    then show ?thesis by simp
  qed (use k in simp)
  ultimately have n: "nxt d' = nxt d + k" by simp
  have "EvRev x < nxt d'" if "x \<in> buf d'" for x using that all n by auto
  then have "buf d' = {}" using buf_above[OF rel(5)] by force
  moreover have "sorted_wrt (<) (map EvRev rel)" unfolding rel(2) by (rule sorted_wrt_upto)
  ultimately show ?thesis
    unfolding d'_def[symmetric] using sort_key_unique[of rel evs] rel n dist by simp
qed

end

text \<open>The dispatcher keeps the contract; in the window no flush happens.\<close>

definition release_only :: "Event list \<Rightarrow> eventDispatcher \<Rightarrow> eventDispatcher \<Rightarrow> bool" where
  "release_only rel d d' \<longleftrightarrow> after_release rel d d' \<and> d_flushes d' = d_flushes d"

lemma disp_buffer_law:
  assumes "disp_inv d" and "d_nextRev d \<le> EvRev ev" and "EvRev ev \<notin> EvRev ` buffered d"
    and "\<And>e. e \<in> insert ev (buffered d) \<Longrightarrow> EvRev e \<le> d_nextRev d + int maxPendingEvents"
  shows "\<exists>rel. release_only rel d (ingest ev d) \<and> map EvRev rel = [d_nextRev d..d_nextRev (ingest ev d) - 1] \<and>
    d_nextRev d \<le> d_nextRev (ingest ev d) \<and> set rel \<union> buffered (ingest ev d) = insert ev (buffered d) \<and> disp_inv (ingest ev d)"
proof -
  have ok: "buffer_ok d" using assms(1) by (simp add: disp_inv_def)
  have "EvRev ` buffered d = fst ` set (d_pending d)"
    using ok unfolding buffer_ok_def wf_pending_def image_image by (intro image_cong) auto
  with assms(3) have new: "EvRev ev \<notin> fst ` set (d_pending d)" by simp
  have "\<forall>e\<in>insert ev (buffered d). EvRev e \<le> d_nextRev d + int maxPendingEvents" using assms(4) by blast
  from ingest_window[OF ok assms(2) new this] obtain rel where rel: "release_only rel d (ingest ev d)"
    "map EvRev rel = [d_nextRev d..d_nextRev (ingest ev d) - 1]" "d_nextRev d \<le> d_nextRev (ingest ev d)"
    "set rel \<union> buffered (ingest ev d) = insert ev (buffered d)" 
    unfolding release_only_def by blast
  have "disp_inv (ingest ev d)" using ingest_inv[OF assms(1), of ev] by (elim exE conjE)
  with rel show ?thesis by (intro exI[of _ rel] conjI)
qed

lemma buffered_above:
  assumes "disp_inv d" and "e \<in> buffered d"
  shows "d_nextRev d < EvRev e"
proof -
  obtain k where "(k, e) \<in> set (d_pending d)" "wf_pending d" "d_nextRev d \<notin> fst ` set (d_pending d)"
    using assms by (auto simp: disp_inv_def buffer_ok_def)
  then have "EvRev e = k" "d_nextRev d \<le> k" "k \<noteq> d_nextRev d" 
    unfolding wf_pending_def by (metis fst_conv snd_conv, metis fst_conv, metis fst_conv image_eqI)
  then show ?thesis by simp
qed

interpretation rb: reorder_buffer disp_inv d_nextRev buffered ingest release_only "int maxPendingEvents"
proof (rule reorder_buffer.intro)
  show "release_only [] d d" for d by (simp add: release_only_def)
  show "release_only (r1 @ r2) d d2" if "release_only r1 d d1" "release_only r2 d1 d2" for r1 r2 d d1 d2
    using that after_release_trans by (auto simp: release_only_def)
  show "d_nextRev d < EvRev e" if "disp_inv d" "e \<in> buffered d" for d e
    using that by (rule buffered_above)
qed (rule disp_buffer_law)

section \<open>Order\<close>

lemma fold_ingest_inv:
  "disp_inv d \<Longrightarrow>
   \<exists>rel. after_release rel d (fold ingest evs d) \<and> sorted_wrt (<) (map EvRev rel) \<and>
     (\<forall>e\<in>set rel. d_nextRev d \<le> EvRev e) \<and> set rel \<union> buffered (fold ingest evs d) \<subseteq> set evs \<union> buffered d \<and>
     disp_inv (fold ingest evs d)"
proof (induction evs arbitrary: d)
  case Nil
  then show ?case by (intro exI[of _ "[]"]) simp
next
  case (Cons ev evs)
  define d1 where "d1 = ingest ev d"
  define d2 where "d2 = fold ingest evs d1"
  from ingest_inv[OF Cons.prems, of ev, folded d1_def] obtain r1 where r1: "after_release r1 d d1"
    "sorted_wrt (<) (map EvRev r1)" "\<And>e. e \<in> set r1 \<Longrightarrow> d_nextRev d \<le> EvRev e \<and> EvRev e < d_nextRev d1"
    "d_nextRev d \<le> d_nextRev d1" "set r1 \<union> buffered d1 \<subseteq> insert ev (buffered d)" "disp_inv d1"
    by blast
  from Cons.IH[OF r1(6), folded d2_def] obtain r2 where r2: "after_release r2 d1 d2" "sorted_wrt (<) (map EvRev r2)"
    "\<And>e. e \<in> set r2 \<Longrightarrow> d_nextRev d1 \<le> EvRev e" "set r2 \<union> buffered d2 \<subseteq> set evs \<union> buffered d1" "disp_inv d2"
    by blast
  have f: "fold ingest (ev # evs) d = d2" by (simp add: d1_def d2_def)
  have "EvRev x < EvRev y" if "x \<in> set r1" "y \<in> set r2" for x y
    using r1(3)[OF that(1)] r2(3)[OF that(2)] by simp
  then have "sorted_wrt (<) (map EvRev (r1 @ r2))" using r1(2) r2(2) by (simp add: sorted_wrt_append)
  moreover have "\<forall>e\<in>set (r1 @ r2). d_nextRev d \<le> EvRev e" using r1(3,4) r2(3) by force
  moreover have "set (r1 @ r2) \<union> buffered d2 \<subseteq> set (ev # evs) \<union> buffered d" 
    using r1(5) r2(4) unfolding set_append list.set by blast
  ultimately show ?case
    unfolding f using after_release_trans[OF r1(1) r2(1)] r2(5) by blast
qed

text \<open>C22: No watcher ever sees revisions go backwards or twice.  Whatever events arrive, in whatever
  order and however often, each registered watcher's channel grows by the events of its range out of
  one common sequence of strictly ascending revisions, all of them new, up to the point where its
  channel overflows and it is cut loose; what happens to other watchers has no influence on it.\<close>

theorem feed_ascending:
  assumes "disp_inv d"
  shows "\<exists>rel. sorted_wrt (<) (map EvRev rel) \<and> set rel \<subseteq> set evs \<union> buffered d \<and>
    (\<forall>e\<in>set rel. d_nextRev d \<le> EvRev e) \<and>
    (\<forall>i sub. i \<in> set (d_subs d) \<and> d_objs d i = Some sub \<longrightarrow>
       d_objs (fold ingest evs d) i = Some (channel_after rel sub) \<and>
       (i \<in> set (d_subs (fold ingest evs d)) \<longleftrightarrow> \<not> sub_cancelled (channel_after rel sub)))"
proof -
  from fold_ingest_inv[OF assms, of evs] obtain rel where rel: "after_release rel d (fold ingest evs d)"
    "sorted_wrt (<) (map EvRev rel)" "\<forall>e\<in>set rel. d_nextRev d \<le> EvRev e" "set rel \<subseteq> set evs \<union> buffered d"
    by blast
  have "subs_ok d" using assms by (simp add: disp_inv_def)
  from releases_channel[OF this] have "d_objs (fold ingest evs d) i = Some (channel_after rel sub) \<and>
      (i \<in> set (d_subs (fold ingest evs d)) \<longleftrightarrow> \<not> sub_cancelled (channel_after rel sub))"
    if "i \<in> set (d_subs d)" "d_objs d i = Some sub" for i sub
    using that after_release_sel(1,2)[OF rel(1)] by simp
  with rel show ?thesis by blast
qed

text \<open>A dispatcher at revision 1 with one watcher of everything.\<close>

definition one_watcher :: eventDispatcher where
  "one_watcher = snd (register [] nul (newEventDispatcher\<lparr>d_latestRev := 1, d_nextRev := 2\<rparr>))"

definition put_event :: "int \<Rightarrow> Event" where
  "put_event n = \<lparr>EvType = ''PUT'', EvKey = ''a'', EvRev = n, EvKV = None, EvPrevKV = None, EvCreatedMs = 0, EvID = format_int n\<rparr>"

lemma put_event_sel [simp]: "EvRev (put_event n) = n" "EvKey (put_event n) = ''a''" "EvID (put_event n) = format_int n"
  by (simp_all add: put_event_def)

lemma primed_inv:
  assumes "1 \<le> n"
  shows "disp_inv (newEventDispatcher\<lparr>d_latestRev := max 1 (n - 1), d_nextRev := n\<rparr>)"
  using assms by (simp add: disp_inv_def subs_ok_def buffer_ok_def wf_pending_def index_sorted_def newEventDispatcher_def)

lemma one_watcher_inv: "disp_inv one_watcher"
  unfolding one_watcher_def using primed_inv[of 2] by (intro register_inv) simp

lemma one_watcher_sel: "d_subs one_watcher = [1]" "d_nextRev one_watcher = 2" "d_pending one_watcher = []" "d_flushes one_watcher = 0"
  "d_checkpoints one_watcher = []" "d_latestRev one_watcher = 1" "d_nextID one_watcher = 1"
  "d_objs one_watcher = [1 \<mapsto> \<lparr>sub_key = [], sub_rangeEnd = nul, sub_ch = [], sub_cancelled = False\<rparr>]"
  by (simp_all add: one_watcher_def register_sel) (simp_all add: newEventDispatcher_def)

theorem feed_ascending_witness:
  "\<exists>rel. sorted_wrt (<) (map EvRev rel) \<and> set rel \<subseteq> {put_event 3, put_event 2} \<and>
    d_objs (fold ingest [put_event 3, put_event 2, put_event 3] one_watcher) 1 =
      Some (channel_after rel \<lparr>sub_key = [], sub_rangeEnd = nul, sub_ch = [], sub_cancelled = False\<rparr>)"
proof -
  from feed_ascending[OF one_watcher_inv, of "[put_event 3, put_event 2, put_event 3]"]
  show ?thesis unfolding one_watcher_sel by (auto simp: insert_commute)
qed

text \<open>C13: Arrival order does not matter.  When the events of the next \<open>k\<close> revisions arrive, in any
  order, the dispatcher ends in exactly the state of releasing them one by one in revision order: same
  channels, same cuts, same checkpoints, and nothing left in the buffer.  The bound on \<open>k\<close> is what
  the buffer holds before it gives up waiting.\<close>

theorem arrival_order_irrelevant:
  assumes "disp_inv d" and "d_pending d = []" and "distinct (map EvRev evs)"
    and "EvRev ` set evs = {d_nextRev d..<d_nextRev d + k}" and "0 \<le> k" and "k \<le> 4097"
  shows "fold ingest evs d = (fold releaseLocked (sort_key EvRev evs) d)\<lparr>d_nextRev := d_nextRev d + k\<rparr>"
proof -
  define d' where "d' = fold ingest evs d"
  have "buffered d = {}" "k \<le> int maxPendingEvents + 1" using assms(2,6) by (simp_all add: maxPendingEvents_def)
  from rb.confluent[OF assms(1) this(1) assms(3,4,5) this(2), folded d'_def]
  have r: "after_release (sort_key EvRev evs) d d'" "d_flushes d' = d_flushes d" "d_nextRev d' = d_nextRev d + k" "d_pending d' = []"
    by (simp_all add: release_only_def)
  have "d' = (fold releaseLocked (sort_key EvRev evs) d)\<lparr>d_pending := d_pending d', d_nextRev := d_nextRev d', d_flushes := d_flushes d'\<rparr>"
    using r(1) by (simp only: after_release_def[symmetric])
  also have "\<dots> = (fold releaseLocked (sort_key EvRev evs) d)\<lparr>d_pending := d_pending (fold releaseLocked (sort_key EvRev evs) d),
      d_nextRev := d_nextRev d + k, d_flushes := d_flushes (fold releaseLocked (sort_key EvRev evs) d)\<rparr>"
    using r assms(2) by simp
  finally show ?thesis unfolding d'_def by simp
qed

theorem arrival_order_irrelevant_witness:
  "fold ingest [put_event 4, put_event 2, put_event 3] one_watcher =
   (fold releaseLocked [put_event 2, put_event 3, put_event 4] one_watcher)\<lparr>d_nextRev := 5\<rparr>"
proof -
  have "{4, 2, 3} = {2..<2 + (3 :: int)}" by auto
  with arrival_order_irrelevant[OF one_watcher_inv, of "[put_event 4, put_event 2, put_event 3]" 3]
  show ?thesis by (simp add: one_watcher_sel sort_key_def)
qed

text \<open>C23: The invariant of the dispatcher: at most 4096 events wait in the buffer, each under its own
  revision and above the next one to release; a channel holds at most 8192 events; the watchers in
  the map exist and have not been cut; the checkpoints are strictly ascending; the revision reported
  is the last one released (at least 1).  Every operation keeps it.\<close>

theorem dispatcher_invariant:
  assumes "disp_inv d"
  shows "disp_inv (ingest ev d) \<and> disp_inv (snd (register k e d)) \<and> disp_inv (deregister i d) \<and>
    length (d_pending (ingest ev d)) \<le> 4096 \<and> d_nextRev d \<le> d_nextRev (ingest ev d) \<and>
    currentRev (ingest ev d) = max 1 (d_nextRev (ingest ev d) - 1)"
proof -
  have i: "disp_inv (ingest ev d)" "d_nextRev d \<le> d_nextRev (ingest ev d)" using ingest_inv[OF assms, of ev] by blast+
  from i(1) have "length (d_pending (ingest ev d)) \<le> 4096" "d_latestRev (ingest ev d) = max 1 (d_nextRev (ingest ev d) - 1)"
    by (simp_all add: disp_inv_def buffer_ok_def maxPendingEvents_def)
  with i register_inv[OF assms] deregister_inv[OF assms] show ?thesis by (simp add: currentRev_def)
qed

theorem dispatcher_invariant_witness:
  "disp_inv (ingest (put_event 7) one_watcher) \<and> length (d_pending (ingest (put_event 7) one_watcher)) \<le> 4096"
  using dispatcher_invariant[OF one_watcher_inv, of "put_event 7"] by blast

section \<open>The safety valve\<close>

text \<open>C36: What the safety valve costs.  When an event does not arrive and the buffer holds 4096 later
  ones, the next one empties the buffer and the feed goes on behind it; but the missing event, should
  it arrive after all, is taken for a duplicate and dropped: no watcher gets it.\<close>

theorem flush_loses_late_event:
  assumes "disp_inv d" and "length (d_pending d) = 4096" and "d_nextRev d < EvRev ev"
    and "EvRev ev \<notin> fst ` set (d_pending d)" and "EvRev late = d_nextRev d"
  shows "d_pending (ingest ev d) = [] \<and> d_flushes (ingest ev d) = d_flushes d + 1 \<and>
    EvRev ev < d_nextRev (ingest ev d) \<and> ingest late (ingest ev d) = ingest ev d"
proof -
  have ok: "buffer_ok d" using assms(1) by (simp add: disp_inv_def)
  define d0 where "d0 = d\<lparr>d_pending := AList.update (EvRev ev) ev (d_pending d)\<rparr>"
  have p: "d_pending d0 = d_pending d @ [(EvRev ev, ev)]" using update_new[OF assms(4)] by (simp add: d0_def)
  have "map_of (d_pending d0) (d_nextRev d0) = None"
    using ok assms(3) by (simp add: map_of_eq_None_iff p buffer_ok_def) (simp add: d0_def)
  then have rr: "release_ready d0 = d0" by (subst release_ready.simps) simp
  have wf: "wf_pending d0" using wf_pending_update ok assms(3) by (simp add: d0_def buffer_ok_def)
  have ing: "ingest ev d = flushPendingLocked d0"
    using ingest_new[OF ok, of ev] assms(2,3) rr p by (simp add: d0_def[symmetric] maxPendingEvents_def)
  have "d_pending d0 \<noteq> []" using p by simp
  from flush_releases[OF wf this] obtain rel where rel: "sorted_wrt (<) (map EvRev rel)" "set rel = buffered d0"
    "d_pending (ingest ev d) = []" "rel \<noteq> []" "d_nextRev (ingest ev d) = EvRev (last rel) + 1"
    "d_flushes (ingest ev d) = d_flushes d0 + 1"
    unfolding ing by blast
  have "ev \<in> set rel" using rel(2) p by simp
  from sorted_last_max[OF rel(1) this] have n: "EvRev ev < d_nextRev (ingest ev d)" using rel(5) by simp
  have "buffer_ok (ingest ev d)" using ingest_inv[OF assms(1), of ev] by (auto simp: disp_inv_def)
  from ingest_dup[OF this, of late] have "ingest late (ingest ev d) = ingest ev d" using n assms(3,5) by simp
  with n rel show ?thesis by (simp add: d0_def)
qed

definition stalled :: eventDispatcher where
  "stalled = one_watcher\<lparr>d_pending := map (\<lambda>j. (int j + 3, put_event (int j + 3))) [0..<4096]\<rparr>"

lemma stalled_sel: "length (d_pending stalled) = 4096" "fst ` set (d_pending stalled) = {3..4098}" "d_nextRev stalled = 2"
proof -
  show "length (d_pending stalled) = 4096" "d_nextRev stalled = 2" by (simp_all add: stalled_def one_watcher_sel)
  have "(\<lambda>j. int j + 3) ` {0..<4096} = {3..4098}"
  proof
    show "{3..4098} \<subseteq> (\<lambda>j. int j + 3) ` {0..<4096}"
    proof
      fix v :: int assume "v \<in> {3..4098}"
      then show "v \<in> (\<lambda>j. int j + 3) ` {0..<4096}" by (intro image_eqI[of _ _ "nat (v - 3)"]) auto
    qed
  qed auto
  then show "fst ` set (d_pending stalled) = {3..4098}" by (simp add: stalled_def image_image)
qed

lemma stalled_inv: "disp_inv stalled"
proof -
  have "distinct (map fst (d_pending stalled))"
    by (auto simp: stalled_def distinct_map inj_on_def)
  moreover have "\<forall>x\<in>set (d_pending stalled). EvRev (snd x) = fst x \<and> 2 \<le> fst x" by (auto simp: stalled_def)
  ultimately have "buffer_ok stalled"
    by (simp add: buffer_ok_def wf_pending_def stalled_sel maxPendingEvents_def)
  moreover have "subs_ok stalled" "index_sorted stalled" "d_latestRev stalled = max 1 (d_nextRev stalled - 1)"
    by (simp_all add: stalled_def subs_ok_def index_sorted_def one_watcher_sel)
  ultimately show ?thesis by (simp add: disp_inv_def)
qed

theorem flush_loses_late_event_witness:
  "ingest (put_event 2) (ingest (put_event 5000) stalled) = ingest (put_event 5000) stalled \<and>
   d_flushes (ingest (put_event 5000) stalled) = 1"
  using flush_loses_late_event[OF stalled_inv stalled_sel(1), of "put_event 5000" "put_event 2"] stalled_sel
  by (simp add: stalled_def one_watcher_sel)

section \<open>Seeking\<close>

text \<open>The binary search of \<open>seekStreamID\<close> terminates and finds what a linear scan finds: the last
  but one checkpoint below the start revision, or the beginning of the stream.\<close>

theorem seek_binary_search:
  assumes "index_sorted d"
  shows "seekStreamID startRev d =
    (let below = filter (\<lambda>c. ck_rev c < startRev) (d_checkpoints d)
     in if length below < 2 then ''0'' else ck_id (below ! (length below - 2)))"
  using assms seekStreamID_spec[of d startRev] by (simp add: index_sorted_def seek_spec_def)

definition indexed :: eventDispatcher where
  "indexed = one_watcher\<lparr>d_latestRev := 1500, d_nextRev := 1501,
     d_checkpoints := [\<lparr>ck_rev = 2, ck_id = format_int 2\<rparr>, \<lparr>ck_rev = 514, ck_id = format_int 514\<rparr>, \<lparr>ck_rev = 1026, ck_id = format_int 1026\<rparr>],
     d_ckCounter := 474\<rparr>"

theorem seek_binary_search_witness: "seekStreamID 1200 indexed = format_int 514"
proof -
  have "index_sorted indexed" by (simp add: index_sorted_def indexed_def)
  from seek_binary_search[OF this, of 1200] show ?thesis by (simp add: indexed_def)
qed

text \<open>C24: A catch-up never misses an event.  While the checkpoints point into the event log, the
  position \<open>seekStreamID\<close> returns for a start revision is one the store knows, and every event of
  the log from the start revision on lies behind it.\<close>

theorem seek_never_skips:
  assumes "index_sorted d" and "index_of_log log d" and "sorted_wrt (<) (map EvRev log)"
    and "distinct (map EvID log)" and "''0'' \<notin> EvID ` set log"
  shows "known_id (seekStreamID startRev d) log \<and>
    filter (\<lambda>ev. startRev \<le> EvRev ev) (events_after (seekStreamID startRev d) log) = filter (\<lambda>ev. startRev \<le> EvRev ev) log"
  using seek_covers[OF assms] by simp

lemma format_int_0: "format_int 0 = ''0''"
  by code_simp

theorem seek_never_skips_witness:
  "known_id (seekStreamID 1200 indexed) (map put_event [1..1500])"
proof -
  have "''0'' \<noteq> format_int n" if "1 \<le> n" for n
    using that format_int_inject[of 0 n] by (simp add: format_int_0)
  then have "\<forall>n\<in>{1..1500}. ''0'' \<noteq> format_int n" by simp
  moreover have "index_of_log (map put_event [1..1500]) indexed"
    by (simp add: index_of_log_def indexed_def)
  moreover have "index_sorted indexed" by (simp add: index_sorted_def indexed_def)
  ultimately show ?thesis
    using seek_never_skips[of indexed "map put_event [1..1500]" 1200]
    by (auto simp: comp_def distinct_map inj_on_def image_iff)
qed



end
