(* ===== verification/LiveFeed.thy ===== *)
theory LiveFeed
  imports CatchUp DispProps StoreProps
begin

text \<open>
  The running system.  Handlers write concurrently: a handler's script commits its event to the
  stream, and some time later, when the reply has reached the handler, the handler hands the event to
  the dispatcher.  The world's sink therefore holds the events in between, \<open>f_inflight\<close>, next to
  the dispatcher.  \<open>sys_step\<close> is one step of any goroutine other than the watch under
  consideration, whose subscriber ID is \<open>i\<close>; \<open>do_write\<close> is a write by one of the store's own
  operations \<open>Put\<close>, \<open>Delete\<close> and \<open>Txn\<close>.

  The invariant \<open>feed_inv\<close> accounts for every event of the log: released, waiting in the reorder
  buffer, or in flight.  \<open>follows\<close> says what a subscriber has received: exactly the events of its
  range released since it registered.
\<close>

section \<open>State and steps\<close>

record feed_state =
  f_inflight :: "Event list"
  f_disp :: eventDispatcher

definition enqueue :: "Event \<Rightarrow> feed_state \<Rightarrow> feed_state" where
  "enqueue ev x = x\<lparr>f_inflight := f_inflight x @ [ev]\<rparr>"

type_synonym ('d, 'n) fworld = "('d, 'n, feed_state) world"

abbreviation disp :: "('d, 'n) fworld \<Rightarrow> eventDispatcher" where
  "disp w \<equiv> f_disp (snk w)"

definition upd_disp :: "(eventDispatcher \<Rightarrow> eventDispatcher) \<Rightarrow> ('d, 'n) fworld \<Rightarrow> ('d, 'n) fworld" where
  "upd_disp f w = w\<lparr>snk := (snk w)\<lparr>f_disp := f (disp w)\<rparr>\<rparr>"

definition emit_step :: "Event \<Rightarrow> ('d, 'n) fworld \<Rightarrow> ('d, 'n) fworld" where
  "emit_step ev w = w\<lparr>snk := \<lparr>f_inflight = remove1 ev (f_inflight (snk w)), f_disp = ingest ev (disp w)\<rparr>\<rparr>"

text \<open>
  Writes are admitted while the revision counter has room and the oldest event not yet released is
  less than 4096 revisions behind, the size of the reorder buffer.
\<close>

definition admitted :: "('d \<Rightarrow> keyspace) \<Rightarrow> ('d, 'n) fworld \<Rightarrow> bool" where
  "admitted view w \<longleftrightarrow> rev_of (view (db w)) < rev_limit \<and> rev_of (view (db w)) < d_nextRev (disp w) + int maxPendingEvents"

text \<open>A write of a client: what it does to the store and hands to the sink.\<close>

datatype write_op = WPut bytes bytes int | WDelete bytes | WTxn bytes int bytes int

fun write_lease :: "write_op \<Rightarrow> int" where
  "write_lease (WPut k v l) = l"
| "write_lease (WDelete k) = 0"
| "write_lease (WTxn k e v l) = l"

fun do_write :: "('d, 'n, 'x) RedisStore \<Rightarrow> write_op \<Rightarrow> ('d, 'n, 'x) world \<Rightarrow> ('d, 'n, 'x) world" where
  "do_write r (WPut k v l) w = snd (Put r k v l w)"
| "do_write r (WDelete k) w = snd (Delete r k w)"
| "do_write r (WTxn k e v l) w = snd (Txn r k e ''PUT'' v l w)"

lemma write_effect:
  assumes st: "redis_store r view newid" and si: "store_inv (view (db w))" and lim: "rev_of (view (db w)) < rev_limit"
    and l: "lease_ok (write_lease op)"
  shows "(\<exists>f. committed r view f w (do_write r op w)) \<or> untouched view w (do_write r op w)"
proof (cases op)
  case (WPut k v l)
  then show ?thesis using redis_store.Put_ok(2)[OF st si lim] assms(4) by auto
next
  case (WDelete k)
  then show ?thesis
    using redis_store.Delete_ok(2)[OF st si lim, of k] redis_store.Delete_absent(2)[OF st si, of k]
    by (cases "kv_at (view (db w)) k") auto
next
  case (WTxn k e v l)
  then have op: "do_write r op w = snd (Txn r k e ''PUT'' v l w)" "lease_ok l" using assms(4) by simp_all
  show ?thesis unfolding op
    using redis_store.Txn_put(2)[OF st si lim op(2)] redis_store.Txn_fail(2)[OF st si]
    by (cases "cas_ok e (kv_at (view (db w)) k)") blast+
qed

inductive sys_step :: "('d, 'n, feed_state) RedisStore \<Rightarrow> ('d \<Rightarrow> keyspace) \<Rightarrow> int \<Rightarrow> ('d, 'n) fworld \<Rightarrow> ('d, 'n) fworld \<Rightarrow> bool"
  for r view i
where
  sys_write: "admitted view w \<Longrightarrow> lease_ok (write_lease op) \<Longrightarrow> sys_step r view i w (do_write r op w)"
| sys_read: "untouched view w w' \<Longrightarrow> sys_step r view i w w'"
| sys_emit: "ev \<in> set (f_inflight (snk w)) \<Longrightarrow> sys_step r view i w (emit_step ev w)"
| sys_register: "sys_step r view i w (upd_disp (\<lambda>d. snd (register k e d)) w)"
| sys_deregister: "j \<noteq> i \<Longrightarrow> sys_step r view i w (upd_disp (deregister j) w)"
| sys_receive: "j \<noteq> i \<Longrightarrow> d_objs (disp w) j = Some sub \<Longrightarrow> suffix ch (sub_ch sub) \<Longrightarrow>
    sys_step r view i w (upd_disp (set_channel j ch) w)"

inductive_cases sys_stepE: "sys_step r view i w w'"

abbreviation log_of :: "('d \<Rightarrow> keyspace) \<Rightarrow> ('d, 'n) fworld \<Rightarrow> Event list" where
  "log_of view w \<equiv> events_of (view (db w))"

section \<open>Accounting for every event\<close>

definition feed_inv :: "('d \<Rightarrow> keyspace) \<Rightarrow> ('d, 'n) fworld \<Rightarrow> bool" where
  "feed_inv view w \<longleftrightarrow> store_inv (view (db w)) \<and> disp_inv (disp w) \<and> index_of_log (log_of view w) (disp w) \<and> spaced (disp w) \<and>
     distinct (f_inflight (snk w)) \<and> set (f_inflight (snk w)) \<inter> buffered (disp w) = {} \<and>
     set (f_inflight (snk w)) \<union> buffered (disp w) = {ev \<in> set (log_of view w). d_nextRev (disp w) \<le> EvRev ev} \<and>
     d_nextRev (disp w) \<le> rev_of (view (db w)) + 1 \<and> rev_of (view (db w)) \<le> d_nextRev (disp w) + int maxPendingEvents"

text \<open>What subscriber \<open>i\<close>, registered when revision \<open>n0\<close> was the next to release, has taken out of
  its channel (\<open>got\<close>) and still finds there.\<close>

definition follows :: "('d \<Rightarrow> keyspace) \<Rightarrow> int \<Rightarrow> bytes \<Rightarrow> bytes \<Rightarrow> int \<Rightarrow> Event list \<Rightarrow> ('d, 'n) fworld \<Rightarrow> bool" where
  "follows view i key rangeEnd n0 got w \<longleftrightarrow>
     (\<exists>sub. d_objs (disp w) i = Some sub \<and> sub_key sub = key \<and> sub_rangeEnd sub = rangeEnd \<and>
        (i \<in> set (d_subs (disp w)) \<longleftrightarrow> \<not> sub_cancelled sub) \<and> n0 \<le> d_nextRev (disp w) \<and>
        prefix (got @ sub_ch sub)
          (filter (\<lambda>ev. matchesWatch (EvKey ev) key rangeEnd \<and> n0 \<le> EvRev ev \<and> EvRev ev < d_nextRev (disp w)) (log_of view w)) \<and>
        (\<not> sub_cancelled sub \<longrightarrow> got @ sub_ch sub =
          filter (\<lambda>ev. matchesWatch (EvKey ev) key rangeEnd \<and> n0 \<le> EvRev ev \<and> EvRev ev < d_nextRev (disp w)) (log_of view w)))"

lemma log_facts:
  assumes "store_inv s"
  shows "sorted_wrt (<) (map EvRev (events_of s))" and "\<And>ev. ev \<in> set (events_of s) \<Longrightarrow> 1 \<le> EvRev ev \<and> EvRev ev \<le> rev_of s \<and> EvID ev \<noteq> []"
    and "inj_on EvRev (set (events_of s))" and "distinct (events_of s)"
proof -
  note l = store_inv_log[OF assms]
  show "sorted_wrt (<) (map EvRev (events_of s))" unfolding l(1) by (rule sorted_wrt_upto)
  have "distinct (map EvRev (events_of s))" unfolding l(1) by simp
  then show "inj_on EvRev (set (events_of s))" "distinct (events_of s)" by (simp_all add: distinct_map)
  fix ev assume ev: "ev \<in> set (events_of s)"
  then have "EvRev ev \<in> set (map EvRev (events_of s))" by simp
  then have "1 \<le> EvRev ev \<and> EvRev ev \<le> rev_of s" using l by simp
  moreover have "EvID ev \<noteq> []"
  proof -
    obtain e where "ev = entry_event e" "entry_ok e"
      using ev assms by (auto simp: events_of_def store_inv_def rep_ok_def list_all_iff)
    then show ?thesis by (simp add: EvID_entry_event sid_str_def)
  qed
  ultimately show "1 \<le> EvRev ev \<and> EvRev ev \<le> rev_of s \<and> EvID ev \<noteq> []" by simp
qed

text \<open>A write adds one event, which is in flight.\<close>

lemma write_inv:
  assumes inv: "feed_inv view w" and adm: "admitted view w" and sink: "rs_sink r = Some enqueue"
    and com: "committed r view f w w'"
  shows "feed_inv view w'" and "\<exists>ev. log_of view w' = log_of view w @ [ev] \<and> disp w' = disp w \<and> d_nextRev (disp w) \<le> EvRev ev"
proof -
  obtain ev where ev: "log_of view w' = log_of view w @ [ev]" "EvRev ev = rev_of (view (db w)) + 1" "snk w' = enqueue ev (snk w)"
    and st: "store_inv (view (db w'))"
    using com sink by (auto simp: committed_def feed_def)
  have st0: "store_inv (view (db w))" using inv by (simp add: feed_inv_def)
  have d: "disp w' = disp w" "f_inflight (snk w') = f_inflight (snk w) @ [ev]" by (simp_all add: ev(3) enqueue_def)
  have rv: "rev_of (view (db w')) = rev_of (view (db w)) + 1"
    using store_inv_log(2)[OF st] store_inv_log(2)[OF st0] by (simp add: ev(1))
  have new: "ev \<notin> set (log_of view w)" using log_facts(2)[OF st0, of ev] ev(2) by auto
  have le: "d_nextRev (disp w) \<le> EvRev ev" using inv by (simp add: feed_inv_def ev(2))
  show "\<exists>ev. log_of view w' = log_of view w @ [ev] \<and> disp w' = disp w \<and> d_nextRev (disp w) \<le> EvRev ev"
    using ev(1) d(1) le by blast
  have acc: "set (f_inflight (snk w)) \<union> buffered (disp w) = {ev \<in> set (log_of view w). d_nextRev (disp w) \<le> EvRev ev}"
    using inv by (simp add: feed_inv_def)
  then have "ev \<notin> set (f_inflight (snk w))" "ev \<notin> buffered (disp w)" using new by blast+
  moreover have "insert ev (set (f_inflight (snk w)) \<union> buffered (disp w)) = {x \<in> set (log_of view w @ [ev]). d_nextRev (disp w) \<le> EvRev x}"
    unfolding acc using le by auto
  ultimately show "feed_inv view w'"
    using inv st index_of_log_append[of "log_of view w" "disp w" "[ev]"] adm
    unfolding feed_inv_def d ev(1) rv admitted_def by auto
qed

lemma write_follows:
  assumes f: "follows view i key rangeEnd n0 got w" and "log_of view w' = log_of view w @ [ev]" "disp w' = disp w"
    and "d_nextRev (disp w) \<le> EvRev ev"
  shows "follows view i key rangeEnd n0 got w'"
proof -
  have "filter (\<lambda>ev. matchesWatch (EvKey ev) key rangeEnd \<and> n0 \<le> EvRev ev \<and> EvRev ev < d_nextRev (disp w)) (log_of view w') =
      filter (\<lambda>ev. matchesWatch (EvKey ev) key rangeEnd \<and> n0 \<le> EvRev ev \<and> EvRev ev < d_nextRev (disp w)) (log_of view w)"
    using assms(2,4) by simp
  with f show ?thesis unfolding follows_def assms(3) by simp
qed

section \<open>Handing an event to the dispatcher\<close>

lemma filter_split_sorted:
  fixes f :: "'a \<Rightarrow> int"
  assumes "sorted_wrt (<) (map f xs)" and "n \<le> m"
  shows "filter (\<lambda>x. Q x \<and> f x < m) xs = filter (\<lambda>x. Q x \<and> f x < n) xs @ filter (\<lambda>x. Q x \<and> n \<le> f x \<and> f x < m) xs"
  using assms(1)
proof (induction xs)
  case (Cons x xs)
  show ?case
  proof (cases "f x < n")
    case True
    with Cons assms(2) show ?thesis by auto
  next
    case False
    have "\<not> f y < n" if "y \<in> set xs" for y
    proof -
      have "f x < f y" using Cons.prems that by simp
      with False show ?thesis by simp
    qed
    then have "filter (\<lambda>x. Q x \<and> f x < n) xs = []" by (auto simp: filter_empty_conv)
    with False Cons show ?thesis by simp
  qed
qed simp

text \<open>Two sorted lists with the same elements are equal: the events released are the next ones of the
  log.\<close>

lemma released_is_log_segment:
  assumes st: "store_inv s" and sub: "set rel \<subseteq> set (events_of s)" and revs: "map EvRev rel = [n..m - 1]"
  shows "filter (\<lambda>ev. n \<le> EvRev ev \<and> EvRev ev < m) (events_of s) = rel"
proof (rule map_inj_on)
  note l = log_facts[OF st]
  let ?f = "filter (\<lambda>ev. n \<le> EvRev ev \<and> EvRev ev < m) (events_of s)"
  have rv: "EvRev ` set rel = {n..m - 1}" using revs by (metis list.set_map set_upto)
  have "set ?f = set rel"
  proof
    show "set ?f \<subseteq> set rel"
    proof
      fix x assume x: "x \<in> set ?f"
      then have "EvRev x \<in> EvRev ` set rel" using rv by simp
      then obtain y where y: "y \<in> set rel" "EvRev y = EvRev x" by (metis imageE)
      have "y = x" using inj_onD[OF l(3) y(2)] y(1) sub x by auto
      with y(1) show "x \<in> set rel" by simp
    qed
    show "set rel \<subseteq> set ?f"
    proof
      fix x assume "x \<in> set rel"
      moreover from this have "EvRev x \<in> {n..m - 1}" using rv by blast
      ultimately show "x \<in> set ?f" using sub by auto
    qed
  qed
  then show "inj_on EvRev (set ?f \<union> set rel)" using inj_on_subset[OF l(3) sub] by simp
  show "map EvRev ?f = map EvRev rel"
  proof (rule sorted_distinct_set_unique)
    have "sorted_wrt (\<lambda>x y. EvRev x < EvRev y) (events_of s)" using l(1) by (simp add: sorted_wrt_map)
    then have "sorted_wrt (\<lambda>x y. EvRev x < EvRev y) ?f" by (rule sorted_wrt_filter)
    then have "sorted_wrt (<) (map EvRev ?f)" by (simp add: sorted_wrt_map)
    then show "sorted (map EvRev ?f)" "distinct (map EvRev ?f)" by (simp_all add: strict_sorted_iff)
    show "sorted (map EvRev rel)" "distinct (map EvRev rel)" by (simp_all add: revs)
  qed (use \<open>set ?f = set rel\<close> in simp)
qed

lemma emit_release:
  assumes inv: "feed_inv view w" and ev: "ev \<in> set (f_inflight (snk w))"
  defines "d \<equiv> disp w" and "d' \<equiv> ingest ev (disp w)"
  shows "\<exists>rel. after_release rel d d' \<and> d_flushes d' = d_flushes d \<and> map EvRev rel = [d_nextRev d..d_nextRev d' - 1] \<and> d_nextRev d \<le> d_nextRev d' \<and>
    set rel \<union> buffered d' = insert ev (buffered d) \<and> disp_inv d' \<and> set rel \<subseteq> set (log_of view w)"
proof -
  have di: "disp_inv d" and st: "store_inv (view (db w))" and win: "rev_of (view (db w)) \<le> d_nextRev d + int maxPendingEvents"
    and dis: "set (f_inflight (snk w)) \<inter> buffered d = {}"
    and acc: "set (f_inflight (snk w)) \<union> buffered d = {ev \<in> set (log_of view w). d_nextRev d \<le> EvRev ev}"
    using inv by (simp_all add: feed_inv_def d_def)
  note l = log_facts[OF st]
  have mem: "ev \<in> set (log_of view w)" "d_nextRev d \<le> EvRev ev" and buf: "buffered d \<subseteq> set (log_of view w)"
    using acc ev by blast+
  have nb: "EvRev ev \<notin> EvRev ` buffered d"
  proof
    assume "EvRev ev \<in> EvRev ` buffered d"
    then obtain x where x: "x \<in> buffered d" "EvRev x = EvRev ev" by (metis imageE)
    have "x = ev" by (rule inj_onD[OF l(3) x(2) _ mem(1)]) (rule subsetD[OF buf x(1)])
    with x(1) ev dis show False by (metis IntI emptyE)
  qed
  have wb: "EvRev e \<le> d_nextRev d + int maxPendingEvents" if "e \<in> insert ev (buffered d)" for e
  proof -
    have "e \<in> set (log_of view w)" using that mem(1) buf by (metis insertE subsetD)
    from l(2)[OF this] win show ?thesis by linarith
  qed
  have "\<exists>rel. release_only rel d (ingest ev d) \<and> map EvRev rel = [d_nextRev d..d_nextRev (ingest ev d) - 1] \<and>
      d_nextRev d \<le> d_nextRev (ingest ev d) \<and> set rel \<union> buffered (ingest ev d) = insert ev (buffered d) \<and> disp_inv (ingest ev d)"
    by (rule disp_buffer_law[OF di mem(2) nb]) (rule wb)
  then obtain rel where rel: "release_only rel d (ingest ev d)" "map EvRev rel = [d_nextRev d..d_nextRev (ingest ev d) - 1]"
    "d_nextRev d \<le> d_nextRev (ingest ev d)" "set rel \<union> buffered (ingest ev d) = insert ev (buffered d)" "disp_inv (ingest ev d)"
    by (elim exE conjE)
  have "set rel \<subseteq> insert ev (buffered d)" using rel(4) by (metis Un_upper1)
  then have "set rel \<subseteq> set (log_of view w)" using mem(1) buf by (metis insert_subset order_trans)
  with rel show ?thesis
    unfolding d'_def d_def[symmetric] by (intro exI[of _ rel]) (simp add: release_only_def)
qed

lemma emit_inv:
  assumes inv: "feed_inv view w" and ev: "ev \<in> set (f_inflight (snk w))"
  shows "feed_inv view (emit_step ev w)"
proof -
  define d d' where "d = disp w" and "d' = ingest ev (disp w)"
  define fl where "fl = f_inflight (snk w)"
  obtain rel where rel: "after_release rel d d'" "d_flushes d' = d_flushes d" "map EvRev rel = [d_nextRev d..d_nextRev d' - 1]"
    "d_nextRev d \<le> d_nextRev d'" "set rel \<union> buffered d' = insert ev (buffered d)" "disp_inv d'" "set rel \<subseteq> set (log_of view w)"
    using emit_release[OF inv ev] unfolding d_def d'_def by blast
  have i: "store_inv (view (db w))" "disp_inv d" "index_of_log (log_of view w) d" "spaced d" "distinct fl"
    "set fl \<inter> buffered d = {}" "set fl \<union> buffered d = {ev \<in> set (log_of view w). d_nextRev d \<le> EvRev ev}"
    "d_nextRev d \<le> rev_of (view (db w)) + 1" "rev_of (view (db w)) \<le> d_nextRev d + int maxPendingEvents"
    using inv by (simp_all add: feed_inv_def d_def fl_def)
  define B B' where "B = buffered d" and "B' = buffered d'"
  have b: "set rel \<union> B' = insert ev B" "set fl \<inter> B = {}" "set fl \<union> B = {ev \<in> set (log_of view w). d_nextRev d \<le> EvRev ev}"
    "ev \<in> set fl"
    using rel(5) i(6,7) ev by (simp_all add: B_def B'_def fl_def)
  have b': "B' \<subseteq> insert ev B" "set rel \<subseteq> insert ev B" "B \<subseteq> set rel \<union> B'" "set fl \<subseteq> set (log_of view w)" "B \<subseteq> set (log_of view w)"
    unfolding b(1) using b(1,3) by (metis Un_upper2, metis Un_upper1, metis subset_insertI, auto)
  have above: "d_nextRev d' < EvRev x" if "x \<in> B'" for x using buffered_above[OF rel(6)] that unfolding B'_def .
  note l = log_facts[OF i(1)]
  have rv: "EvRev ` set rel = {d_nextRev d..d_nextRev d' - 1}" using rel(3) by (metis list.set_map set_upto)
  have ge: "d_nextRev d' \<le> EvRev x" if x: "x \<in> set fl" "x \<noteq> ev" for x
  proof (rule ccontr)
    have xl: "x \<in> set (log_of view w)" "d_nextRev d \<le> EvRev x" using x b(3) by blast+
    assume "\<not> d_nextRev d' \<le> EvRev x"
    then have "EvRev x \<in> EvRev ` set rel" using rv xl(2) by simp
    then obtain y where y: "y \<in> set rel" "EvRev y = EvRev x" by (metis imageE)
    then have "y = x" using inj_onD[OF l(3) y(2)] xl(1) rel(7) by blast
    then have "x \<in> B" using y(1) b'(2) x(2) by blast
    with x(1) b(2) show False by blast
  qed
  have sel: "disp (emit_step ev w) = d'" "f_inflight (snk (emit_step ev w)) = remove1 ev fl" "db (emit_step ev w) = db w"
    by (simp_all add: emit_step_def d'_def fl_def)
  have rem: "set (remove1 ev fl) = set fl - {ev}" using i(5) by (rule set_remove1_eq)
  have acc: "set fl - {ev} \<union> B' = {x \<in> set (log_of view w). d_nextRev d' \<le> EvRev x}"
  proof (intro equalityI subsetI)
    fix x assume x: "x \<in> set fl - {ev} \<union> B'"
    then have "x \<in> set fl \<union> B" using b'(1) b(4) by blast
    then have "x \<in> set (log_of view w)" using b'(4,5) by blast
    moreover have "d_nextRev d' \<le> EvRev x"
    proof (cases "x \<in> B'")
      case True
      from above[OF this] show ?thesis by simp
    qed (use x ge in blast)
    ultimately show "x \<in> {x \<in> set (log_of view w). d_nextRev d' \<le> EvRev x}" by simp
  next
    fix x assume x: "x \<in> {x \<in> set (log_of view w). d_nextRev d' \<le> EvRev x}"
    then have "x \<in> set fl \<union> B" unfolding b(3) using rel(4) by simp
    moreover have "x \<notin> set rel"
    proof
      assume "x \<in> set rel"
      then have "EvRev x \<in> {d_nextRev d..d_nextRev d' - 1}" using rv by blast
      with x show False by simp
    qed
    moreover have "x \<noteq> ev \<or> x \<in> B'" using \<open>x \<notin> set rel\<close> b(1) by blast
    ultimately show "x \<in> set fl - {ev} \<union> B'" using b'(3) by blast
  qed
  have "d_nextRev d' \<le> rev_of (view (db w)) + 1"
  proof (cases "d_nextRev d = d_nextRev d'")
    case False
    then have "d_nextRev d' - 1 \<in> EvRev ` set rel" using rv rel(4) by simp
    then obtain y where y: "y \<in> set rel" "EvRev y = d_nextRev d' - 1" by (metis imageE)
    then have "y \<in> set (log_of view w)" using rel(7) by blast
    from l(2)[OF this] y(2) show ?thesis by simp
  qed (use i(8) in simp)
  moreover have "index_of_log (log_of view w) d'"
    using releases_log[OF i(3) rel(7)] after_release_sel(4)[OF rel(1)] by (simp add: index_of_log_def)
  moreover have "spaced d'"
  proof -
    have "spaced ((fold releaseLocked rel d)\<lparr>d_nextRev := d_nextRev d'\<rparr>)"
      using i(2,4) rel(3,4) l(2) rel(7) by (intro releases_spaced ballI) (simp_all add: disp_inv_def buffer_ok_def subset_iff)
    then show ?thesis unfolding spaced_def after_release_sel(3,4,6)[OF rel(1)] by auto
  qed
  moreover have "(set fl - {ev}) \<inter> B' = {}" using b'(1) b(2) by blast
  ultimately show ?thesis
    unfolding feed_inv_def sel rem B'_def[symmetric] acc using i(1,5,9) rel(4,6) by simp
qed

lemma emit_follows:
  assumes inv: "feed_inv view w" and ev: "ev \<in> set (f_inflight (snk w))"
    and f: "follows view i key rangeEnd n0 got w"
  shows "follows view i key rangeEnd n0 got (emit_step ev w)"
proof -
  define d d' where "d = disp w" and "d' = ingest ev (disp w)"
  obtain rel where rel: "after_release rel d d'" "map EvRev rel = [d_nextRev d..d_nextRev d' - 1]"
    "d_nextRev d \<le> d_nextRev d'" "set rel \<subseteq> set (log_of view w)"
    using emit_release[OF inv ev] unfolding d_def d'_def by blast
  have st: "store_inv (view (db w))" and so: "subs_ok d" using inv by (simp_all add: feed_inv_def disp_inv_def d_def)
  note seg = released_is_log_segment[OF st rel(4,2)]
  define P where "P n ev \<longleftrightarrow> matchesWatch (EvKey ev) key rangeEnd \<and> n0 \<le> EvRev ev \<and> EvRev ev < n" for n and ev :: Event
  obtain sub where sub: "d_objs d i = Some sub" "sub_key sub = key" "sub_rangeEnd sub = rangeEnd"
    "i \<in> set (d_subs d) \<longleftrightarrow> \<not> sub_cancelled sub" "n0 \<le> d_nextRev d"
    "prefix (got @ sub_ch sub) (filter (P (d_nextRev d)) (log_of view w))"
    "\<not> sub_cancelled sub \<Longrightarrow> got @ sub_ch sub = filter (P (d_nextRev d)) (log_of view w)"
    using f unfolding follows_def d_def[symmetric] P_def by blast
  have sel: "disp (emit_step ev w) = d'" "db (emit_step ev w) = db w" by (simp_all add: emit_step_def d'_def)
  have srt: "sorted_wrt (<) (map EvRev (log_of view w))" by (rule log_facts(1)[OF st])
  have "filter (P (d_nextRev d')) (log_of view w) =
      filter (P (d_nextRev d)) (log_of view w) @
      filter (\<lambda>ev. (matchesWatch (EvKey ev) key rangeEnd \<and> n0 \<le> EvRev ev) \<and> d_nextRev d \<le> EvRev ev \<and> EvRev ev < d_nextRev d') (log_of view w)"
    using filter_split_sorted[OF srt rel(3), of "\<lambda>ev. matchesWatch (EvKey ev) key rangeEnd \<and> n0 \<le> EvRev ev"]
    by (simp add: P_def[abs_def] conj_assoc)
  also have "filter (\<lambda>ev. (matchesWatch (EvKey ev) key rangeEnd \<and> n0 \<le> EvRev ev) \<and> d_nextRev d \<le> EvRev ev \<and> EvRev ev < d_nextRev d') (log_of view w)
      = filter (\<lambda>ev. matchesWatch (EvKey ev) key rangeEnd) (filter (\<lambda>ev. d_nextRev d \<le> EvRev ev \<and> EvRev ev < d_nextRev d') (log_of view w))"
    using sub(5) by (auto simp: filter_filter intro!: filter_cong)
  finally have grow: "filter (P (d_nextRev d')) (log_of view w) = filter (P (d_nextRev d)) (log_of view w) @ filter (\<lambda>ev. takes ev sub) rel"
    unfolding seg takes_def sub(2,3) .
  note as = after_release_sel[OF rel(1)]
  have "\<exists>sub'. d_objs d' i = Some sub' \<and> sub_key sub' = key \<and> sub_rangeEnd sub' = rangeEnd \<and> (i \<in> set (d_subs d') \<longleftrightarrow> \<not> sub_cancelled sub') \<and>
      prefix (got @ sub_ch sub') (filter (P (d_nextRev d')) (log_of view w)) \<and>
      (\<not> sub_cancelled sub' \<longrightarrow> got @ sub_ch sub' = filter (P (d_nextRev d')) (log_of view w))"
  proof (cases "sub_cancelled sub")
    case True
    then have "i \<notin> set (d_subs d)" using sub(4) by simp
    from releases_channel_out[OF so this, of rel] have "d_objs d' i = Some sub" "i \<notin> set (d_subs d')"
      using as(1,2) sub(1) by simp_all
    with True sub(2,3,6) show ?thesis unfolding grow by auto
  next
    case False
    then have i: "i \<in> set (d_subs d)" using sub(4) by simp
    define all where "all = sub_ch sub @ filter (\<lambda>ev. takes ev sub) rel"
    have ca: "channel_after rel sub = sub\<lparr>sub_ch := take subChanBuffer all, sub_cancelled := subChanBuffer < length all\<rparr>"
      using False by (simp add: channel_after_def all_def)
    from releases_channel[OF so i sub(1), of rel] as(1,2)
    have o: "d_objs d' i = Some (channel_after rel sub)" "i \<in> set (d_subs d') \<longleftrightarrow> \<not> sub_cancelled (channel_after rel sub)" by simp_all
    have all: "got @ all = filter (P (d_nextRev d')) (log_of view w)" unfolding grow all_def using sub(7)[OF False] by simp
    have "prefix (got @ take subChanBuffer all) (got @ all)" by (simp add: take_is_prefix)
    moreover have "\<not> subChanBuffer < length all \<Longrightarrow> take subChanBuffer all = all" by simp
    ultimately show ?thesis using o ca all sub(2,3) by auto
  qed
  then obtain sub' where s': "d_objs d' i = Some sub'" "sub_key sub' = key" "sub_rangeEnd sub' = rangeEnd"
    "i \<in> set (d_subs d') \<longleftrightarrow> \<not> sub_cancelled sub'" "prefix (got @ sub_ch sub') (filter (P (d_nextRev d')) (log_of view w))"
    "\<not> sub_cancelled sub' \<longrightarrow> got @ sub_ch sub' = filter (P (d_nextRev d')) (log_of view w)" by blast
  have "n0 \<le> d_nextRev d'" using sub(5) rel(3) by simp
  with s' show ?thesis unfolding follows_def sel P_def by (intro exI[of _ sub'] conjI)
qed

section \<open>The other steps\<close>

lemma upd_disp_sel [simp]: "disp (upd_disp f w) = f (disp w)" "f_inflight (snk (upd_disp f w)) = f_inflight (snk w)" "db (upd_disp f w) = db w"
  by (simp_all add: upd_disp_def)

definition same_buffer :: "eventDispatcher \<Rightarrow> eventDispatcher \<Rightarrow> bool" where
  "same_buffer d d' \<longleftrightarrow> d_pending d' = d_pending d \<and> d_nextRev d' = d_nextRev d \<and> d_latestRev d' = d_latestRev d \<and>
     d_checkpoints d' = d_checkpoints d \<and> d_ckCounter d' = d_ckCounter d"

lemma same_buffer_index:
  assumes "same_buffer d d'"
  shows "index_of_log l d \<Longrightarrow> index_of_log l d'" and "spaced d \<Longrightarrow> spaced d'"
proof -
  have e: "d_nextRev d' = d_nextRev d" "d_latestRev d' = d_latestRev d" "d_checkpoints d' = d_checkpoints d" "d_ckCounter d' = d_ckCounter d"
    using assms by (simp_all add: same_buffer_def)
  show "index_of_log l d \<Longrightarrow> index_of_log l d'" "spaced d \<Longrightarrow> spaced d'" unfolding index_of_log_def spaced_def e .
qed

lemma upd_inv:
  assumes "feed_inv view w" and "disp_inv (f (disp w))" and "same_buffer (disp w) (f (disp w))"
  shows "feed_inv view (upd_disp f w)"
proof -
  have "index_of_log (log_of view w) (f (disp w))" "spaced (f (disp w))"
    using assms(1) same_buffer_index[OF assms(3)] by (simp_all add: feed_inv_def)
  with assms show ?thesis unfolding feed_inv_def upd_disp_sel same_buffer_def by simp
qed

lemma set_channel_inv:
  assumes inv: "disp_inv d" and "d_objs d j = Some sub" and "length ch \<le> length (sub_ch sub)"
  shows "disp_inv (set_channel j ch d)"
proof -
  have "subs_ok (set_channel j ch d)"
    using inv assms(2,3) unfolding disp_inv_def subs_ok_def set_channel_def
    by (auto simp: dom_def) (meson le_trans)
  moreover have "buffer_ok (set_channel j ch d)" "index_sorted (set_channel j ch d)"
    using inv by (auto simp: disp_inv_def set_channel_def buffer_ok_def wf_pending_def index_sorted_def)
  ultimately show ?thesis using inv by (simp add: disp_inv_def set_channel_def)
qed

lemma follows_other:
  assumes "follows view i key rangeEnd n0 got w" and "same_buffer (disp w) (f (disp w))"
    and "d_objs (f (disp w)) i = d_objs (disp w) i" and "i \<in> set (d_subs (f (disp w))) \<longleftrightarrow> i \<in> set (d_subs (disp w))"
  shows "follows view i key rangeEnd n0 got (upd_disp f w)"
  using assms unfolding follows_def same_buffer_def upd_disp_sel by simp

lemma follows_read: "follows view i key rangeEnd n0 got w \<Longrightarrow> untouched view w w' \<Longrightarrow> follows view i key rangeEnd n0 got w'"
  by (simp add: follows_def untouched_def)

lemma feed_inv_read: "feed_inv view w \<Longrightarrow> untouched view w w' \<Longrightarrow> feed_inv view w'"
  by (simp add: feed_inv_def untouched_def)

text \<open>Every step keeps both.\<close>

abbreviation watching :: "('d \<Rightarrow> keyspace) \<Rightarrow> int \<Rightarrow> bytes \<Rightarrow> bytes \<Rightarrow> int \<Rightarrow> Event list \<Rightarrow> ('d, 'n) fworld \<Rightarrow> bool" where
  "watching view i key rangeEnd n0 got w \<equiv> feed_inv view w \<and> follows view i key rangeEnd n0 got w"

lemma write_cases:
  assumes st: "redis_store r view newid" and sink: "rs_sink r = Some enqueue" and inv: "feed_inv view w" and adm: "admitted view w"
    and w: "(\<exists>f. committed r view f w w') \<or> untouched view w w'"
  shows "feed_inv view w' \<and> prefix (log_of view w) (log_of view w') \<and>
    (follows view i key rangeEnd n0 got w \<longrightarrow> follows view i key rangeEnd n0 got w')"
  using w
proof
  assume "\<exists>f. committed r view f w w'"
  then obtain f where c: "committed r view f w w'" by blast
  from write_inv(2)[OF inv adm sink c] obtain ev where ev: "log_of view w' = log_of view w @ [ev]" "disp w' = disp w" "d_nextRev (disp w) \<le> EvRev ev"
    by blast
  show ?thesis using write_inv(1)[OF inv adm sink c] write_follows[OF _ ev] ev(1) by auto
next
  assume u: "untouched view w w'"
  then have "log_of view w' = log_of view w" by (simp add: untouched_def)
  then show ?thesis using feed_inv_read[OF inv u] follows_read[OF _ u] by simp
qed

lemma sys_step_keeps:
  assumes st: "redis_store r view newid" and sink: "rs_sink r = Some enqueue" and stp: "sys_step r view i w w'" and inv: "feed_inv view w"
  shows "feed_inv view w' \<and> prefix (log_of view w) (log_of view w') \<and>
    (follows view i key rangeEnd n0 got w \<longrightarrow> follows view i key rangeEnd n0 got w')"
  using stp
proof cases
  have si: "store_inv (view (db w))" and di: "disp_inv (disp w)" using inv by (simp_all add: feed_inv_def)
  note wc = write_cases[OF st sink inv]
  {
    case (sys_write op)
    then have "rev_of (view (db w)) < rev_limit" by (simp add: admitted_def)
    with wc write_effect[OF st si _ sys_write(3)] sys_write show ?thesis by blast
  next
    case sys_read
    then have "log_of view w' = log_of view w" by (simp add: untouched_def)
    then show ?thesis using feed_inv_read[OF inv sys_read] follows_read[OF _ sys_read] by simp
  next
    case (sys_emit ev)
    then show ?thesis using emit_inv[OF inv] emit_follows[OF inv] by (auto simp: emit_step_def)
  next
    case (sys_register k e)
    have "same_buffer (disp w) (snd (register k e (disp w)))" by (simp add: same_buffer_def register_sel)
    moreover have "follows view i key rangeEnd n0 got w \<Longrightarrow> i \<noteq> d_nextID (disp w) + 1"
      using di by (auto simp: follows_def disp_inv_def subs_ok_def dom_def)
    ultimately show ?thesis
      using upd_inv[OF inv, of "\<lambda>d. snd (register k e d)"] register_inv[OF di, of k e] follows_other[of view i key rangeEnd n0 got w "\<lambda>d. snd (register k e d)"] sys_register
      by (auto simp: register_sel)
  next
    case (sys_deregister j)
    have "same_buffer (disp w) (deregister j (disp w))" by (simp add: same_buffer_def deregister_def)
    then show ?thesis
      using upd_inv[OF inv, of "deregister j"] deregister_inv[OF di, of j] follows_other[of view i key rangeEnd n0 got w "deregister j"] sys_deregister
      by (auto simp: deregister_def)
  next
    case (sys_receive j sub ch)
    have "same_buffer (disp w) (set_channel j ch (disp w))" by (simp add: same_buffer_def set_channel_def)
    moreover have "disp_inv (set_channel j ch (disp w))"
      using set_channel_inv[OF di] sys_receive by (auto dest: suffix_length_le)
    ultimately show ?thesis
      using upd_inv[OF inv, of "set_channel j ch"] follows_other[of view i key rangeEnd n0 got w "set_channel j ch"] sys_receive
      by (auto simp: set_channel_def)
  }
qed

end
