(* ===== verification/WatchRun.thy ===== *)
theory WatchRun
  imports LiveFeed
begin

text \<open>
  A whole watch goroutine in the running system: registration, catch-up and tail, with any steps of
  other goroutines in between.
\<close>

section \<open>The world of a watch\<close>

context event_store
begin

lemma is_event_log: "event_log S I E"
  by (rule event_log_axioms)

end

definition feed_server :: "('d, 'n, feed_state) RedisStore \<Rightarrow> ('d, 'n) fworld WatchServer" where
  "feed_server r = \<lparr>ws_store = redis_Store r, ws_disp = (\<lambda>w. disp w), ws_upd = upd_disp\<rparr>"

lemma feed_server_sel [simp]:
  "ws_store (feed_server r) = redis_Store r" "ws_disp (feed_server r) w = disp w" "ws_upd (feed_server r) = upd_disp"
  by (simp_all add: feed_server_def)

text \<open>What the other goroutines do: steps of the system that leave subscriber \<open>subID\<close> to this watch,
  and messages of other watches on its stream.\<close>

definition others :: "('d, 'n, feed_state) RedisStore \<Rightarrow> ('d \<Rightarrow> keyspace) \<Rightarrow> ('g \<Rightarrow> WatchResponse list) \<Rightarrow> int \<Rightarrow> int \<Rightarrow>
  ((('d, 'n) fworld, 'g) watch_view \<Rightarrow> (('d, 'n) fworld, 'g) watch_view) \<Rightarrow> bool"
where
  "others r view sent subID i env \<longleftrightarrow>
     (\<forall>v. (sys_step r view subID)\<^sup>*\<^sup>* (v_world v) (v_world (env v)) \<and>
        sent_events i (sent (v_stream (env v))) = sent_events i (sent (v_stream v)))"

lemma sys_steps_keep:
  assumes "redis_store r view newid" and "rs_sink r = Some enqueue" and "(sys_step r view i)\<^sup>*\<^sup>* w w'" and "feed_inv view w"
  shows "feed_inv view w' \<and> prefix (log_of view w) (log_of view w') \<and>
    (follows view i key rangeEnd n0 got w \<longrightarrow> follows view i key rangeEnd n0 got w')"
  using assms(3)
proof (induction rule: rtranclp_induct)
  case base
  then show ?case using assms(4) by simp
next
  case (step y z)
  then show ?case
    using sys_step_keeps[OF assms(1,2) step(2), of key rangeEnd n0 got] by (meson prefix_order.trans)
qed

section \<open>Logs\<close>

lemma filter_split_sorted2:
  fixes f :: "'a \<Rightarrow> int"
  assumes "sorted_wrt (<) (map f xs)"
  shows "filter Q xs = filter (\<lambda>x. Q x \<and> f x < n) xs @ filter (\<lambda>x. Q x \<and> n \<le> f x) xs"
  using assms
proof (induction xs)
  case (Cons x xs)
  show ?case
  proof (cases "f x < n")
    case True
    with Cons show ?thesis by auto
  next
    case False
    have "\<not> f y < n" if "y \<in> set xs" for y
    proof -
      have "f x < f y" using Cons.prems that by simp
      with False show ?thesis by simp
    qed
    then have "filter (\<lambda>x. Q x \<and> f x < n) xs = []" by (auto simp: filter_empty_conv)
    with False Cons show ?thesis by simp
  qed
qed simp

lemma prefix_protos: "prefix xs ys \<Longrightarrow> prefix (protos (filter P xs)) (protos (filter P ys))"
  by (auto elim!: prefixE)

text \<open>The whole of what a watch from revision \<open>s\<close> is to deliver, and its split at a boundary.\<close>

definition wanted :: "bytes \<Rightarrow> bytes \<Rightarrow> int \<Rightarrow> Event list \<Rightarrow> Event list" where
  "wanted key rangeEnd s evs = filter (\<lambda>ev. s \<le> EvRev ev \<and> matchesWatch (EvKey ev) key rangeEnd) evs"

lemma wanted_split:
  assumes "sorted_wrt (<) (map EvRev evs)"
  shows "wanted key rangeEnd s evs =
    filter (in_window key rangeEnd s b) evs @ filter (\<lambda>ev. matchesWatch (EvKey ev) key rangeEnd \<and> b < EvRev ev \<and> s \<le> EvRev ev) evs"
  unfolding wanted_def
    filter_split_sorted2[OF assms, of "\<lambda>ev. s \<le> EvRev ev \<and> matchesWatch (EvKey ev) key rangeEnd" "b + 1"]
  by (rule arg_cong2[where f = append]; rule filter_cong) (auto simp: in_window_def)

lemma window_stable:
  assumes "store_inv s1" and "store_inv s2" and "prefix (events_of s1) (events_of s2)" and "b \<le> rev_of s1"
  shows "filter (in_window key rangeEnd s b) (events_of s2) = filter (in_window key rangeEnd s b) (events_of s1)"
proof -
  obtain new where new: "events_of s2 = events_of s1 @ new" using assms(3) by (rule prefixE)
  have "b < EvRev x" if x: "x \<in> set new" for x
  proof -
    have l: "map EvRev (events_of s1 @ new) = [1..int (length (events_of s1 @ new))]" using store_inv_log(1)[OF assms(2)] by (simp add: new)
    obtain j where j: "j < length new" "x = new ! j" using x by (metis in_set_conv_nth)
    have "map EvRev (events_of s1 @ new) ! (length (events_of s1) + j) = 1 + int (length (events_of s1) + j)"
      unfolding l using j(1) by (subst nth_upto) auto
    then have "EvRev x = 1 + int (length (events_of s1) + j)" using j by (simp add: nth_append)
    then show ?thesis using store_inv_log(2)[OF assms(1)] assms(4) by simp
  qed
  then have "\<not> in_window key rangeEnd s b x" if "x \<in> set new" for x using that by (force simp: in_window_def)
  then have "filter (in_window key rangeEnd s b) new = []" by simp
  then show ?thesis by (simp add: new)
qed

lemma caught_up:
  assumes inv: "feed_inv view w" and "f_inflight (snk w) = []"
  shows "d_nextRev (disp w) = rev_of (view (db w)) + 1"
proof (rule ccontr)
  assume ne: "d_nextRev (disp w) \<noteq> rev_of (view (db w)) + 1"
  have st: "store_inv (view (db w))" and di: "disp_inv (disp w)" and le: "d_nextRev (disp w) \<le> rev_of (view (db w)) + 1"
    and acc: "buffered (disp w) = {ev \<in> set (log_of view w). d_nextRev (disp w) \<le> EvRev ev}"
    using inv assms(2) by (simp_all add: feed_inv_def)
  have "1 \<le> d_nextRev (disp w)" using di by (simp add: disp_inv_def buffer_ok_def)
  then have "d_nextRev (disp w) \<in> set (map EvRev (log_of view w))"
    using ne le store_inv_log[OF st] by simp
  then obtain ev where "ev \<in> set (log_of view w)" "EvRev ev = d_nextRev (disp w)" by auto
  then have "ev \<in> buffered (disp w)" unfolding acc by simp
  from buffered_above[OF di this] \<open>EvRev ev = _\<close> show False by simp
qed

section \<open>Contracts in the running system\<close>

lemma event_log_strengthen:
  assumes "event_log S I E" and "\<And>w. J w \<Longrightarrow> I w" and "\<And>w c l n. J w \<Longrightarrow> J (snd (st_BlockReadEvents S c l n w))"
  shows "event_log S J E"
proof -
  note e = event_log.log_revs[OF assms(1) assms(2)] event_log.log_ids[OF assms(1) assms(2)]
    event_log.read_log[OF assms(1) assms(2)] assms(3)
  show ?thesis
    by (rule event_log.intro) (fact e | rule event_log.read[OF assms(1) assms(2)], assumption+)+
qed

lemma watching_event_log:
  assumes "redis_store r view newid"
  shows "event_log (redis_Store r) (watching view i key rangeEnd n0 got) (log_of view)"
proof (rule event_log_strengthen)
  show "event_log (redis_Store r) (\<lambda>w. store_inv (view (db w))) (log_of view)"
    by (rule event_store.is_event_log[OF redis_store.is_event_store[OF assms]])
  show "store_inv (view (db w))" if "watching view i key rangeEnd n0 got w" for w using that by (simp add: feed_inv_def)
  show "watching view i key rangeEnd n0 got (snd (st_BlockReadEvents (redis_Store r) c l n w))"
    if "watching view i key rangeEnd n0 got w" for w c l n
  proof -
    have "untouched view w (snd (st_BlockReadEvents (redis_Store r) c l n w))"
      using redis_store.BlockReadEvents_untouched[OF assms] by (simp add: redis_Store_def)
    with that show ?thesis using feed_inv_read[of view w] follows_read[of view i key rangeEnd n0 got w] by simp
  qed
qed

lemma others_quiet:
  assumes "redis_store r view newid" and "rs_sink r = Some enqueue" and "others r view sent subID i env"
  shows "quiet (watching view subID key rangeEnd n0 got) (log_of view) sent i env"
  unfolding quiet_def
proof (intro allI impI)
  fix v :: "(('a, 'b) fworld, 'c) watch_view"
  assume w: "watching view subID key rangeEnd n0 got (v_world v)"
  have o: "(sys_step r view subID)\<^sup>*\<^sup>* (v_world v) (v_world (env v))"
    "sent_events i (sent (v_stream (env v))) = sent_events i (sent (v_stream v))"
    using assms(3) by (simp_all add: others_def)
  from sys_steps_keep[OF assms(1,2) o(1), of key rangeEnd n0 got] w o(2)
  show "watching view subID key rangeEnd n0 got (v_world (env v)) \<and> prefix (log_of view (v_world v)) (log_of view (v_world (env v))) \<and>
      sent_events i (sent (v_stream (env v))) = sent_events i (sent (v_stream v))" by simp
qed

section \<open>Catching up\<close>

context catching
begin

lemma catchUp_ok:
  assumes I: "I (v_world v)" and d: "index_sorted (ws_disp ws (v_world v))" "index_of_log (E (v_world v)) (ws_disp ws (v_world v))"
    and env: "\<And>n. quiet I E sent i (env n)"
  shows "case catchUp fuel ws send env i key rangeEnd s b v of (res, v') \<Rightarrow>
    I (v_world v') \<and> prefix (out v') (out v @ Q (E (v_world v'))) \<and>
    (res = Some True \<longrightarrow> out v' = out v @ Q (E (v_world v'))) \<and> (30 * nat b + 30 \<le> fuel \<longrightarrow> res \<noteq> None)"
proof -
  define lastID where "lastID = seekStreamID s (ws_disp ws (v_world v))"
  note sk = seek_covers[OF d log_sorted[OF I] log_ids[OF I], of s, folded lastID_def]
  have Q: "Q evs = protos (filter (in_window key rangeEnd s b) (filter (\<lambda>ev. s \<le> EvRev ev) evs))" for evs
    by (simp add: in_window_def[abs_def] conj_commute conj_left_commute)
  have inv: "catch_inv (out v) lastID v"
    unfolding catch_inv_def using I sk(1) Q[of "events_after lastID (E (v_world v))"] Q[of "E (v_world v)"] sk(2) by simp
  have "0 \<le> pos lastID (E (v_world v))"
  proof -
    obtain pre where "E (v_world v) = pre @ events_after lastID (E (v_world v))" using known_id_split[OF sk(1) log_ids[OF I]] by metis
    then show ?thesis unfolding pos_def by (metis length_append of_nat_add add_diff_cancel_right' of_nat_0_le_iff)
  qed
  then have "rank lastID 0 v \<le> 30 * nat b + 30" by (simp add: rank_def)
  with catchUp_loop_ok[OF inv, of 0 env fuel] env show ?thesis
    by (auto simp: catchUp_def lastID_def)
qed

end

text \<open>The log only grows meanwhile.\<close>

lemma catchUp_extends:
  assumes c: "catching ws I E send sent" and I: "I (v_world v)"
    and d: "index_sorted (ws_disp ws (v_world v))" "index_of_log (E (v_world v)) (ws_disp ws (v_world v))"
    and env: "\<And>n. quiet I E sent i (env n)"
  shows "prefix (E (v_world v)) (E (v_world (snd (catchUp fuel ws send env i key rangeEnd s b v))))"
proof -
  define J where "J w \<longleftrightarrow> I w \<and> prefix (E (v_world v)) (E w)" for w
  have e: "event_log (ws_store ws) I E" and g: "grpc_stream send sent" using c by (simp_all add: catching_def)
  have "event_log (ws_store ws) J E"
    by (rule event_log_strengthen[OF e]) (simp_all add: J_def event_log.read_inv[OF e] event_log.read_log[OF e])
  then have c': "catching ws J E send sent" using g by (simp add: catching_def)
  have env': "quiet J E sent i (env n)" for n
    using env[of n] unfolding quiet_def J_def by (meson prefix_order.trans)
  from catching.catchUp_ok[OF c', where v = v and i = i and env = env and fuel = fuel and s = s and b = b and key = key and rangeEnd = rangeEnd] I d env' show ?thesis
    by (simp add: J_def split_beta)
qed

section \<open>Tailing\<close>

text \<open>Taking events out of the channel.\<close>

lemma follows_take:
  assumes w: "watching view subID key rangeEnd n0 got w" and o: "d_objs (disp w) subID = Some sub" and ch: "sub_ch sub = used @ rest"
  shows "watching view subID key rangeEnd n0 (got @ used) (upd_disp (set_channel subID rest) w)"
proof
  have di: "disp_inv (disp w)" using w by (simp add: feed_inv_def)
  have len: "length rest \<le> length (sub_ch sub)" using ch by simp
  have sb: "same_buffer (disp w) (set_channel subID rest (disp w))" by (simp add: same_buffer_def set_channel_def)
  show "feed_inv view (upd_disp (set_channel subID rest) w)"
    using upd_inv[of view w "set_channel subID rest"] w set_channel_inv[OF di o len] sb by blast
  show "follows view subID key rangeEnd n0 (got @ used) (upd_disp (set_channel subID rest) w)"
    using w o ch sb unfolding follows_def same_buffer_def upd_disp_sel by (auto simp: set_channel_def)
qed

abbreviation live :: "int \<Rightarrow> int \<Rightarrow> Event list \<Rightarrow> PbEvent list" where
  "live b s evs \<equiv> protos (filter (\<lambda>ev. b < EvRev ev \<and> s \<le> EvRev ev) evs)"

lemma collectEvents_spec:
  "\<exists>used rest. first # ch = used @ rest \<and> fst (fst (collectEvents first ch b s key rangeEnd)) = live b s used \<and>
     snd (collectEvents first ch b s key rangeEnd) = rest \<and> used \<noteq> [] \<and> length (live b s used) \<le> maxSendBatch \<and>
     (rest = [] \<or> length (live b s used) = maxSendBatch)"
proof -
  define acc where "acc = add_event b s first ([], [])"
  have acc: "fst acc = live b s [first]" "length (fst acc) \<le> 1"
    by (auto simp: acc_def add_event_def split: option.splits)
  obtain used rest where c: "ch = used @ rest" "length (fst acc @ live b s used) \<le> max maxSendBatch (length (fst acc))"
    "fst (fst (collect_loop b s ch acc)) = fst acc @ live b s used" "snd (collect_loop b s ch acc) = rest"
    "rest = [] \<or> maxSendBatch \<le> length (fst acc @ live b s used)"
    using collect_loop_spec[of ch acc b s] by blast
  have "length (fst acc @ live b s used) \<le> maxSendBatch" using c(2) acc(2) by (simp add: maxSendBatch_def)
  moreover have "fst acc @ live b s used = live b s (first # used)" using acc(1) by (simp split: option.splits)
  ultimately show ?thesis
    using c by (intro exI[of _ "first # used"] exI[of _ rest]) (auto simp: collectEvents_def acc_def[symmetric])
qed

context grpc_stream
begin

lemma Send_out:
  assumes "WR_WatchId resp = i"
  shows "sent_events i (sent (v_stream (snd (Send send resp v)))) =
      sent_events i (sent (v_stream v)) @ (if fst (Send send resp v) then WR_Events resp else [])"
    and "v_world (snd (Send send resp v)) = v_world v"
  using assms send_ok[of resp "v_stream v"] send_fail[of resp "v_stream v"] by (simp_all add: Send_def)

text \<open>One case of the select: either the watch goes on, having sent what it took, or it returns, and
  then it has sent at most what it took.\<close>

lemma tail_step_ok:
  assumes w: "watching view subID key rangeEnd n0 got (v_world v)"
    and out: "sent_events i (sent (v_stream v)) = base @ live b s got"
    and res: "tail_step (feed_server r) send i key rangeEnd s subID b c v = (ret, v')"
  shows "\<exists>got'. watching view subID key rangeEnd n0 got' (v_world v') \<and> log_of view (v_world v') = log_of view (v_world v) \<and>
    prefix (sent_events i (sent (v_stream v'))) (base @ live b s got') \<and>
    (\<not> ret \<longrightarrow> sent_events i (sent (v_stream v')) = base @ live b s got')"
proof -
  have same: ?thesis if "sent_events i (sent (v_stream v')) = sent_events i (sent (v_stream v))" "v_world v' = v_world v"
    using that w out by (intro exI[of _ got]) simp
  have empty: ?thesis if "v' = snd (Send send resp v)" "WR_WatchId resp = i" "WR_Events resp = []" for resp
    using Send_out[OF that(2), of v] that(1,3) by (intro same) simp_all
  show ?thesis
  proof (cases c)
    case CtxDone
    with res show ?thesis by (intro same) (simp_all add: tail_step_def)
  next
    case CancelCh
    with res show ?thesis by (intro empty) (auto simp: tail_step_def)
  next
    case (Ticker due)
    show ?thesis
    proof (cases due)
      case True
      with res Ticker show ?thesis by (intro empty) (auto simp: tail_step_def split_beta Let_def)
    next
      case False
      with res Ticker show ?thesis by (intro same) (simp_all add: tail_step_def)
    qed
  next
    case SubCh
    show ?thesis
    proof (cases "\<exists>sub ev rest. d_objs (disp (v_world v)) subID = Some sub \<and> sub_ch sub = ev # rest")
      case False
      have "tail_step (feed_server r) send i key rangeEnd s subID b SubCh v = (False, v)"
      proof (cases "d_objs (disp (v_world v)) subID")
        case (Some sub)
        with False have "sub_ch sub = []" by (cases "sub_ch sub") auto
        with Some show ?thesis by (simp add: tail_step_def)
      qed (simp add: tail_step_def)
      with res SubCh show ?thesis by (intro same) simp_all
    next
      case True
      then obtain sub ev ch where o: "d_objs (disp (v_world v)) subID = Some sub" "sub_ch sub = ev # ch" by blast
      obtain used rest where c: "ev # ch = used @ rest" "fst (fst (collectEvents ev ch b s key rangeEnd)) = live b s used"
        "snd (collectEvents ev ch b s key rangeEnd) = rest"
        using collectEvents_spec[of ev ch b s key rangeEnd] by blast
      define v1 where "v1 = v\<lparr>v_world := upd_disp (set_channel subID rest) (v_world v)\<rparr>"
      have w1: "watching view subID key rangeEnd n0 (got @ used) (v_world v1)"
        using follows_take[OF w o(1)] c(1) o(2) by (simp add: v1_def)
      have l1: "log_of view (v_world v1) = log_of view (v_world v)" by (simp add: v1_def)
      define resp where "resp = (response (currentRev (disp (v_world v))) i)\<lparr>WR_Events := live b s used\<rparr>"
      have r: "(ret, v') = (if live b s used = [] then (False, v1) else (\<not> fst (Send send resp v1), snd (Send send resp v1)))"
        using res[symmetric] SubCh o c(2,3) unfolding tail_step_def by (simp add: split_beta Let_def v1_def resp_def)
      have s1: "sent_events i (sent (v_stream v1)) = base @ live b s got" using out by (simp add: v1_def)
      show ?thesis
      proof (cases "live b s used = []")
        case True
        with r have "ret = False" "v' = v1" by simp_all
        with True w1 l1 s1 show ?thesis by (intro exI[of _ "got @ used"]) simp
      next
        case False
        with r have rv: "ret = (\<not> fst (Send send resp v1))" "v' = snd (Send send resp v1)" by simp_all
        have "WR_WatchId resp = i" "WR_Events resp = live b s used" by (simp_all add: resp_def)
        note so = Send_out[OF this(1), of v1, unfolded this(2) s1]
        show ?thesis
          using w1 l1 so rv by (intro exI[of _ "got @ used"]) (auto simp: prefix_def)
      qed
    qed
  qed
qed

lemma tail_loop_ok:
  assumes st: "redis_store r view newid" and sink: "rs_sink r = Some enqueue"
    and "watching view subID key rangeEnd n0 got (v_world v)"
    and "sent_events i (sent (v_stream v)) = base @ live b s got"
    and "\<forall>x\<in>set sched. others r view sent subID i (fst x)"
    and "tail_loop (feed_server r) send i key rangeEnd s subID b sched v = (ret, v')"
  shows "\<exists>got'. watching view subID key rangeEnd n0 got' (v_world v') \<and> prefix (log_of view (v_world v)) (log_of view (v_world v')) \<and>
    prefix (sent_events i (sent (v_stream v'))) (base @ live b s got') \<and>
    (\<not> ret \<longrightarrow> sent_events i (sent (v_stream v')) = base @ live b s got')"
  using assms(3-6)
proof (induction sched arbitrary: v got)
  case Nil
  then show ?case by (intro exI[of _ got]) auto
next
  case (Cons x sched)
  obtain env c where x: "x = (env, c)" by fastforce
  define v0 where "v0 = env v"
  have o: "(sys_step r view subID)\<^sup>*\<^sup>* (v_world v) (v_world v0)" "sent_events i (sent (v_stream v0)) = sent_events i (sent (v_stream v))"
    using Cons.prems(3) x by (simp_all add: others_def v0_def)
  from sys_steps_keep[OF st sink o(1), of key rangeEnd n0 got] Cons.prems(1)
  have w0: "watching view subID key rangeEnd n0 got (v_world v0)" and p0: "prefix (log_of view (v_world v)) (log_of view (v_world v0))" by simp_all
  have s0: "sent_events i (sent (v_stream v0)) = base @ live b s got" using o(2) Cons.prems(2) by simp
  have sch: "\<forall>x\<in>set sched. others r view sent subID i (fst x)" using Cons.prems(3) by simp
  show ?case
  proof (cases "tail_ready (feed_server r) subID c v0")
    case False
    then have "tail_loop (feed_server r) send i key rangeEnd s subID b sched v0 = (ret, v')"
      using Cons.prems(4) x by (simp add: v0_def Let_def)
    from Cons.IH[OF w0 s0 sch this] p0 show ?thesis by (meson prefix_order.trans)
  next
    case True
    obtain ret1 v1 where t: "tail_step (feed_server r) send i key rangeEnd s subID b c v0 = (ret1, v1)" by fastforce
    from tail_step_ok[OF w0 s0 t] obtain got1 where g: "watching view subID key rangeEnd n0 got1 (v_world v1)"
      "log_of view (v_world v1) = log_of view (v_world v0)" "prefix (sent_events i (sent (v_stream v1))) (base @ live b s got1)"
      "\<not> ret1 \<longrightarrow> sent_events i (sent (v_stream v1)) = base @ live b s got1" by blast
    show ?thesis
    proof (cases ret1)
      case True
      then have "ret = True" "v' = v1" using Cons.prems(4) x t \<open>tail_ready _ _ _ _\<close> by (simp_all add: v0_def Let_def)
      with g p0 show ?thesis by (intro exI[of _ got1]) simp
    next
      case False
      then have "tail_loop (feed_server r) send i key rangeEnd s subID b sched v1 = (ret, v')"
        using Cons.prems(4) x t \<open>tail_ready _ _ _ _\<close> by (simp add: v0_def Let_def)
      from Cons.IH[OF g(1) _ sch this] g(2,4) False p0 show ?thesis by auto
    qed
  qed
qed

end

section \<open>The whole goroutine\<close>

lemma register_watching:
  assumes inv: "feed_inv view w"
  shows "watching view (d_nextID (disp w) + 1) key rangeEnd (d_nextRev (disp w)) [] (upd_disp (\<lambda>d. snd (register key rangeEnd d)) w)"
proof
  have di: "disp_inv (disp w)" using inv by (simp add: feed_inv_def)
  have "same_buffer (disp w) (snd (register key rangeEnd (disp w)))" by (simp add: same_buffer_def register_sel)
  then show "feed_inv view (upd_disp (\<lambda>d. snd (register key rangeEnd d)) w)"
    using upd_inv[OF inv, of "\<lambda>d. snd (register key rangeEnd d)"] register_inv[OF di] by simp
  show "follows view (d_nextID (disp w) + 1) key rangeEnd (d_nextRev (disp w)) [] (upd_disp (\<lambda>d. snd (register key rangeEnd d)) w)"
    by (auto simp: follows_def register_sel)
qed

lemma run_prefix:
  assumes w: "watching view subID key rangeEnd n0 got w" and b: "b = n0 - 1"
    and st: "store_inv (view (db w1))" "prefix (log_of view w1) (log_of view w)" "b \<le> rev_of (view (db w1))"
  shows "prefix (protos (filter (in_window key rangeEnd s b) (log_of view w1)) @ live b s got) (protos (wanted key rangeEnd s (log_of view w)))"
    and "f_inflight (snk w) = [] \<Longrightarrow> d_objs (disp w) subID = Some sub \<Longrightarrow> sub_ch sub = [] \<Longrightarrow> \<not> sub_cancelled sub \<Longrightarrow>
      protos (filter (in_window key rangeEnd s b) (log_of view w1)) @ live b s got = protos (wanted key rangeEnd s (log_of view w))"
proof -
  have fi: "feed_inv view w" and st2: "store_inv (view (db w))" using w by (simp_all add: feed_inv_def)
  define all where "all = filter (\<lambda>ev. matchesWatch (EvKey ev) key rangeEnd \<and> n0 \<le> EvRev ev \<and> EvRev ev < d_nextRev (disp w)) (log_of view w)"
  define rest where "rest = filter (\<lambda>ev. matchesWatch (EvKey ev) key rangeEnd \<and> b < EvRev ev \<and> s \<le> EvRev ev) (log_of view w)"
  have split: "protos (wanted key rangeEnd s (log_of view w)) = protos (filter (in_window key rangeEnd s b) (log_of view w1)) @ protos rest"
    unfolding wanted_split[OF log_facts(1)[OF st2], of key rangeEnd s b] window_stable[OF st(1) st2 st(2,3)] rest_def by simp
  have rest: "rest = filter (\<lambda>ev. b < EvRev ev \<and> s \<le> EvRev ev) (filter (\<lambda>ev. matchesWatch (EvKey ev) key rangeEnd \<and> n0 \<le> EvRev ev) (log_of view w))"
    unfolding rest_def filter_filter using b by (auto intro!: filter_cong)
  have "all = filter (\<lambda>ev. (matchesWatch (EvKey ev) key rangeEnd \<and> n0 \<le> EvRev ev) \<and> EvRev ev < d_nextRev (disp w)) (log_of view w)"
    by (simp add: all_def conj_assoc)
  then have "prefix all (filter (\<lambda>ev. matchesWatch (EvKey ev) key rangeEnd \<and> n0 \<le> EvRev ev) (log_of view w))"
    using filter_split_sorted2[OF log_facts(1)[OF st2], of "\<lambda>ev. matchesWatch (EvKey ev) key rangeEnd \<and> n0 \<le> EvRev ev" "d_nextRev (disp w)"]
    by (intro prefixI) simp
  moreover have "prefix got all"
    using w unfolding follows_def all_def[symmetric] by (auto dest: append_prefixD)
  ultimately have "prefix got (filter (\<lambda>ev. matchesWatch (EvKey ev) key rangeEnd \<and> n0 \<le> EvRev ev) (log_of view w))"
    using prefix_order.trans by blast
  from prefix_protos[OF this, of "\<lambda>ev. b < EvRev ev \<and> s \<le> EvRev ev"]
  show "prefix (protos (filter (in_window key rangeEnd s b) (log_of view w1)) @ live b s got) (protos (wanted key rangeEnd s (log_of view w)))"
    unfolding split rest by simp
  assume fl: "f_inflight (snk w) = []" and o: "d_objs (disp w) subID = Some sub" "sub_ch sub = []" "\<not> sub_cancelled sub"
  have got: "got = all" using w o unfolding follows_def all_def by simp
  have "all = filter (\<lambda>ev. matchesWatch (EvKey ev) key rangeEnd \<and> n0 \<le> EvRev ev) (log_of view w)"
    unfolding all_def caught_up[OF fi fl] using log_facts(2)[OF st2] by (intro filter_cong) auto
  then show "protos (filter (in_window key rangeEnd s b) (log_of view w1)) @ live b s got = protos (wanted key rangeEnd s (log_of view w))"
    unfolding split rest got by simp
qed

end
