(* ===== verification/WatchPhases.thy ===== *)
theory WatchPhases
  imports WatchRun
begin

text \<open>
  The two phases of a watch goroutine, from registration to the end of the catch-up and the tail that
  follows, each as one statement about what has been sent.
\<close>

text \<open>The catch-up of a watch that has just registered.\<close>

lemma first_phase:
  fixes v :: "(('d, 'n) fworld, 'g) watch_view"
  assumes st: "redis_store r view newid" and sink: "rs_sink r = Some enqueue" and grpc: "grpc_stream send sent"
    and w: "watching view subID key rangeEnd n0 [] (v_world v)"
    and envs: "\<And>n. others r view sent subID i (env n)"
  shows "case catchUp fuel (feed_server r) send env i key rangeEnd s b v of (res, v') \<Rightarrow>
    watching view subID key rangeEnd n0 [] (v_world v') \<and>
    prefix (sent_events i (sent (v_stream v'))) (sent_events i (sent (v_stream v)) @ protos (filter (in_window key rangeEnd s b) (log_of view (v_world v')))) \<and>
    (res = Some True \<longrightarrow> sent_events i (sent (v_stream v')) = sent_events i (sent (v_stream v)) @ protos (filter (in_window key rangeEnd s b) (log_of view (v_world v')))) \<and>
    (30 * nat b + 30 \<le> fuel \<longrightarrow> res \<noteq> None) \<and> prefix (log_of view (v_world v)) (log_of view (v_world v'))"
proof -
  have c: "catching (feed_server r) (watching view subID key rangeEnd n0 []) (log_of view) send sent"
    unfolding catching_def using watching_event_log[OF st] grpc by simp
  have d: "index_sorted (disp (v_world v))" "index_of_log (log_of view (v_world v)) (disp (v_world v))"
    using w by (simp_all add: feed_inv_def disp_inv_def)
  from catching.catchUp_ok[OF c w, where i = i and env = env and fuel = fuel and s = s and b = b]
    catchUp_extends[OF c w, where i = i and env = env and fuel = fuel and s = s and b = b and key = key and rangeEnd = rangeEnd]
    d others_quiet[OF st sink envs]
  show ?thesis by (simp add: split_beta)
qed

lemma watching_boundary:
  assumes "watching view subID key rangeEnd n0 got w"
  shows "store_inv (view (db w))" and "n0 - 1 \<le> rev_of (view (db w))"
proof -
  have "feed_inv view w" and "n0 \<le> d_nextRev (disp w)" using assms by (auto simp: follows_def)
  then show "store_inv (view (db w))" and "n0 - 1 \<le> rev_of (view (db w))" by (simp_all add: feed_inv_def)
qed

text \<open>No event of the log is below revision 1, so a watch that starts after the boundary has nothing to catch up on.\<close>

lemma window_empty: "b < s \<Longrightarrow> filter (in_window key rangeEnd s b) evs = []"
  by (auto simp: in_window_def filter_empty_conv)


text \<open>From registration to the end of the catch-up.\<close>

lemma start_phase:
  fixes v v1 :: "(('d, 'n) fworld, 'g) watch_view"
  assumes st: "redis_store r view newid" and sink: "rs_sink r = Some enqueue" and grpc: "grpc_stream send sent"
    and w0: "watching view subID key rangeEnd (b + 1) [] (v_world v)" and pos: "1 \<le> b"
    and envs: "\<And>n. others r view sent subID i (env n)"
    and c: "(if s \<le> b then catchUp fuel (feed_server r) send env i key rangeEnd s b v else (Some True, v)) = (caught, v1)"
  defines "past \<equiv> protos (filter (in_window key rangeEnd s b) (log_of view (v_world v1)))"
  shows "watching view subID key rangeEnd (b + 1) [] (v_world v1)"
    and "prefix (sent_events i (sent (v_stream v1))) (sent_events i (sent (v_stream v)) @ past)"
    and "caught = Some True \<Longrightarrow> sent_events i (sent (v_stream v1)) = sent_events i (sent (v_stream v)) @ past"
    and "30 * nat (b + 1) \<le> fuel \<Longrightarrow> caught \<noteq> None"
    and "prefix (log_of view (v_world v)) (log_of view (v_world v1))"
proof -
  have n: "30 * nat (b + 1) = 30 * nat b + 30" using pos by simp
  have "watching view subID key rangeEnd (b + 1) [] (v_world v1) \<and>
    prefix (sent_events i (sent (v_stream v1))) (sent_events i (sent (v_stream v)) @ past) \<and>
    (caught = Some True \<longrightarrow> sent_events i (sent (v_stream v1)) = sent_events i (sent (v_stream v)) @ past) \<and>
    (30 * nat (b + 1) \<le> fuel \<longrightarrow> caught \<noteq> None) \<and> prefix (log_of view (v_world v)) (log_of view (v_world v1))"
  proof (cases "s \<le> b")
    case True
    with c first_phase[OF st sink grpc w0, where i = i and env = env and fuel = fuel and s = s and b = b] envs show ?thesis by (simp add: past_def n)
  next
    case False
    with c have "caught = Some True" "v1 = v" by simp_all
    with False w0 show ?thesis by (simp add: past_def window_empty)
  qed
  then show "watching view subID key rangeEnd (b + 1) [] (v_world v1)"
    "prefix (sent_events i (sent (v_stream v1))) (sent_events i (sent (v_stream v)) @ past)"
    "caught = Some True \<Longrightarrow> sent_events i (sent (v_stream v1)) = sent_events i (sent (v_stream v)) @ past"
    "30 * nat (b + 1) \<le> fuel \<Longrightarrow> caught \<noteq> None"
    "prefix (log_of view (v_world v)) (log_of view (v_world v1))" by simp_all
qed

text \<open>The tail.  \<open>at_rest\<close>: no reply is on its way, and the watch has emptied its channel and was not cut.\<close>

definition at_rest :: "int \<Rightarrow> ('d, 'n) fworld \<Rightarrow> bool" where
  "at_rest subID w \<longleftrightarrow> f_inflight (snk w) = [] \<and>
     (case d_objs (disp w) subID of Some sub \<Rightarrow> sub_ch sub = [] \<and> \<not> sub_cancelled sub | None \<Rightarrow> False)"

lemma tail_phase:
  fixes v v' :: "(('d, 'n) fworld, 'g) watch_view"
  assumes st: "redis_store r view newid" and sink: "rs_sink r = Some enqueue" and grpc: "grpc_stream send sent"
    and w: "watching view subID key rangeEnd (b + 1) [] (v_world v)"
    and out: "sent_events i (sent (v_stream v)) = old @ protos (filter (in_window key rangeEnd s b) (log_of view (v_world v)))"
    and sched: "\<forall>x\<in>set sched. others r view sent subID i (fst x)"
    and run: "tail_loop (feed_server r) send i key rangeEnd s subID b sched v = (ret, v')"
  shows "prefix (sent_events i (sent (v_stream v'))) (old @ protos (wanted key rangeEnd s (log_of view (v_world v'))))"
    and "\<not> ret \<Longrightarrow> at_rest subID (v_world v') \<Longrightarrow>
      sent_events i (sent (v_stream v')) = old @ protos (wanted key rangeEnd s (log_of view (v_world v')))"
    and "store_inv (view (db (v_world v')))" and "prefix (log_of view (v_world v)) (log_of view (v_world v'))"
proof -
  define past where "past = protos (filter (in_window key rangeEnd s b) (log_of view (v_world v)))"
  have "sent_events i (sent (v_stream v)) = (old @ past) @ live b s []" using out by (simp add: past_def)
  from grpc_stream.tail_loop_ok[OF grpc st sink w this sched run]
  obtain got where g: "watching view subID key rangeEnd (b + 1) got (v_world v')" "prefix (log_of view (v_world v)) (log_of view (v_world v'))"
    "prefix (sent_events i (sent (v_stream v'))) ((old @ past) @ live b s got)"
    "\<not> ret \<longrightarrow> sent_events i (sent (v_stream v')) = (old @ past) @ live b s got" by blast
  show "store_inv (view (db (v_world v')))" "prefix (log_of view (v_world v)) (log_of view (v_world v'))"
    using watching_boundary(1)[OF g(1)] g(2) by simp_all
  have b: "b = (b + 1) - 1" by simp
  note at = watching_boundary[OF w, folded b]
  note rp = run_prefix[OF g(1) b at(1) g(2) at(2), where s = s, folded past_def]
  from rp(1) have "prefix ((old @ past) @ live b s got) (old @ protos (wanted key rangeEnd s (log_of view (v_world v'))))" by simp
  with g(3) show "prefix (sent_events i (sent (v_stream v'))) (old @ protos (wanted key rangeEnd s (log_of view (v_world v'))))"
    using prefix_order.trans by blast
  assume "\<not> ret" and "at_rest subID (v_world v')"
  then show "sent_events i (sent (v_stream v')) = old @ protos (wanted key rangeEnd s (log_of view (v_world v')))"
    using g(4) rp(2) by (auto simp: at_rest_def split: option.splits)
qed

text \<open>The whole goroutine, for any start revision.\<close>

lemma goroutine_sends:
  fixes v v' :: "(('d, 'n) fworld, 'g) watch_view"
  assumes st: "redis_store r view newid" and sink: "rs_sink r = Some enqueue"
    and inv: "feed_inv view (v_world v)" and started: "2 \<le> d_nextRev (disp (v_world v))"
    and grpc: "grpc_stream send sent"
    and envs: "\<And>n. others r view sent (d_nextID (disp (v_world v)) + 1) i (env n)"
    and sched: "\<forall>x\<in>set sched. others r view sent (d_nextID (disp (v_world v)) + 1) i (fst x)"
    and run: "tailWatch fuel (feed_server r) send env sched i req v = (ret, v')"
  shows "prefix (sent_events i (sent (v_stream v')))
      (sent_events i (sent (v_stream v)) @ protos (wanted (WC_Key req) (WC_RangeEnd req) (WC_StartRevision req) (log_of view (v_world v')))) \<and>
    (\<not> ret \<and> 30 * nat (d_nextRev (disp (v_world v))) \<le> fuel \<and> at_rest (d_nextID (disp (v_world v)) + 1) (v_world v') \<longrightarrow>
     sent_events i (sent (v_stream v')) =
       sent_events i (sent (v_stream v)) @ protos (wanted (WC_Key req) (WC_RangeEnd req) (WC_StartRevision req) (log_of view (v_world v')))) \<and>
    store_inv (view (db (v_world v'))) \<and> prefix (log_of view (v_world v)) (log_of view (v_world v'))"
proof -
  let ?key = "WC_Key req" and ?till = "WC_RangeEnd req" and ?s = "WC_StartRevision req"
  define subID where "subID = d_nextID (disp (v_world v)) + 1"
  define b where "b = d_latestRev (disp (v_world v))"
  have b: "d_nextRev (disp (v_world v)) = b + 1" "1 \<le> b" using inv started by (simp_all add: b_def feed_inv_def disp_inv_def)
  define v0 where "v0 = v\<lparr>v_world := upd_disp (\<lambda>d. snd (register ?key ?till d)) (v_world v)\<rparr>"
  have w0: "watching view subID ?key ?till (b + 1) [] (v_world v0)"
    using register_watching[OF inv] by (simp add: v0_def subID_def flip: b(1))
  have out0: "v_stream v0 = v_stream v" "view (db (v_world v0)) = view (db (v_world v))" by (simp_all add: v0_def)
  define leave where "leave v = v\<lparr>v_world := upd_disp (deregister subID) (v_world v)\<rparr>" for v :: "(('d, 'n) fworld, 'g) watch_view"
  have leave: "v_stream (leave x) = v_stream x" "view (db (v_world (leave x))) = view (db (v_world x))" for x
    by (simp_all add: leave_def)
  obtain caught v1 where c: "(if ?s \<le> b then catchUp fuel (feed_server r) send env i ?key ?till ?s b v0 else (Some True, v0)) = (caught, v1)"
    by fastforce
  note first = start_phase[OF st sink grpc w0 b(2) envs[folded subID_def] c, unfolded out0]
  obtain ret2 v2 where t: "tail_loop (feed_server r) send i ?key ?till ?s subID b sched v1 = (ret2, v2)" by fastforce
  note tail = tail_phase[OF st sink grpc first(1) first(3) sched[folded subID_def] t]
  have nil: "b = (b + 1) - 1" by simp
  have early: "prefix (sent_events i (sent (v_stream v1)))
      (sent_events i (sent (v_stream v)) @ protos (wanted ?key ?till ?s (log_of view (v_world v1))))"
    using first(2) run_prefix(1)[OF first(1) nil watching_boundary(1)[OF first(1)] _ watching_boundary(2)[OF first(1), folded nil], where s = ?s]
      prefix_order.trans by fastforce
  have "tailWatch fuel (feed_server r) send env sched i req v =
      (case (if ?s \<le> b then catchUp fuel (feed_server r) send env i ?key ?till ?s b v0 else (Some True, v0)) of
         (None, v1) \<Rightarrow> (False, v1)
       | (Some False, v1) \<Rightarrow> (True, leave v1)
       | (Some True, v1) \<Rightarrow>
           (case tail_loop (feed_server r) send i ?key ?till ?s subID b sched v1 of (True, v2) \<Rightarrow> (True, leave v2) | (False, v2) \<Rightarrow> (False, v2)))"
    unfolding tailWatch_def by (simp add: register_sel(1) Let_def v0_def b_def subID_def leave_def split: prod.split option.split bool.split)
  then have "(ret, v') = (case caught of None \<Rightarrow> (False, v1) | Some False \<Rightarrow> (True, leave v1)
      | Some True \<Rightarrow> if ret2 then (True, leave v2) else (False, v2))"
    unfolding c run by (simp add: t split: option.split bool.split)
  moreover have "prefix (log_of view (v_world v)) (log_of view (v_world v2))" if "caught = Some True"
    using first(5) tail(4)[OF that] prefix_order.trans by blast
  ultimately show ?thesis
    using first(4,5) tail early watching_boundary(1)[OF first(1)] by (auto simp: leave subID_def[symmetric] b(1) split: option.splits bool.splits if_splits)
qed

text \<open>A watch that a client has created, from the connection's answer to the end of the goroutine.\<close>

lemma created_watch_sends:
  fixes c :: "(('d, 'n) fworld, 'g) watch_conn" and v v' :: "(('d, 'n) fworld, 'g) watch_view"
  assumes st: "redis_store r view newid" and sink: "rs_sink r = Some enqueue" and grpc: "grpc_stream send sent"
    and inv: "feed_inv view (wc_world c)" and fresh: "sent_events (wc_watchID c + 1) (sent (wc_stream c)) = []"
    and created: "wc_running (handle_create (feed_server r) send cr c) = (i, req) # wc_running c"
    and steps: "(sys_step r view j)\<^sup>*\<^sup>* (wc_world (handle_create (feed_server r) send cr c)) (v_world v)"
    and stream: "sent_events i (sent (v_stream v)) = sent_events i (sent (wc_stream (handle_create (feed_server r) send cr c)))"
    and started: "2 \<le> d_nextRev (disp (v_world v))"
    and envs: "\<And>n. others r view sent (d_nextID (disp (v_world v)) + 1) i (env n)"
    and sched: "\<forall>x\<in>set sched. others r view sent (d_nextID (disp (v_world v)) + 1) i (fst x)"
    and run: "tailWatch fuel (feed_server r) send env sched i req v = (ret, v')"
  defines "start \<equiv> (if 0 < WC_StartRevision cr then WC_StartRevision cr else max 1 (rev_of (view (db (wc_world c)))) + 1)"
  shows "prefix (sent_events i (sent (v_stream v'))) (protos (wanted (WC_Key cr) (WC_RangeEnd cr) start (log_of view (v_world v')))) \<and>
    (\<not> ret \<and> 30 * nat (d_nextRev (disp (v_world v))) \<le> fuel \<and> at_rest (d_nextID (disp (v_world v)) + 1) (v_world v') \<longrightarrow>
     sent_events i (sent (v_stream v')) = protos (wanted (WC_Key cr) (WC_RangeEnd cr) start (log_of view (v_world v')))) \<and>
    store_inv (view (db (v_world v'))) \<and> prefix (log_of view (wc_world c)) (log_of view (v_world v'))"
proof -
  have si: "store_inv (view (db (wc_world c)))" using inv by (simp add: feed_inv_def)
  obtain w1 where rd: "CurrentRevision r (wc_world c) = (Inr (max 1 (rev_of (view (db (wc_world c))))), w1)" "untouched view (wc_world c) w1"
    using redis_store.CurrentRevision_ok[OF st si] by (metis prod.collapse)
  define rv where "rv = max 1 (rev_of (view (db (wc_world c))))"
  have cr: "i = wc_watchID c + 1" "WC_Key req = WC_Key cr" "WC_RangeEnd req = WC_RangeEnd cr" "WC_StartRevision req = start"
      "wc_world (handle_create (feed_server r) send cr c) = w1"
      "wc_stream (handle_create (feed_server r) send cr c) = snd (send ((response rv i)\<lparr>WR_Created := True\<rparr>) (wc_stream c))"
    using created rd(1)
    by (auto simp: handle_create_def rev_or_zero_def redis_Store_def conn_send_def effectiveStartRevision_def start_def rv_def Let_def)
  have fi: "feed_inv view (v_world v)" "prefix (log_of view (wc_world c)) (log_of view (v_world v))"
    using sys_steps_keep[OF st sink steps] feed_inv_read[OF inv rd(2)] cr(5) rd(2) by (simp_all add: untouched_def)
  have out: "sent_events i (sent (v_stream v)) = []"
    using stream fresh grpc_stream.send_ok[OF grpc, of "(response rv i)\<lparr>WR_Created := True\<rparr>" "wc_stream c"]
      grpc_stream.send_fail[OF grpc, of "(response rv i)\<lparr>WR_Created := True\<rparr>" "wc_stream c"]
    by (cases "fst (send ((response rv i)\<lparr>WR_Created := True\<rparr>) (wc_stream c))") (simp_all add: cr(1,6))
  note g = goroutine_sends[OF st sink fi(1) started grpc envs sched run]
  then have "prefix (log_of view (wc_world c)) (log_of view (v_world v'))" using fi(2) prefix_order.trans by blast
  with g show ?thesis unfolding out by (simp add: cr)
qed

end
