(* ===== verification/WatchExample.thy ===== *)
theory WatchExample
  imports WatchPhases
begin

text \<open>
  A small running system on the reference Redis, for the witnesses of the watch properties: a server
  started on a store with one key, a second write whose reply is still on its way, and the steps of
  other goroutines as functions.
\<close>

definition feed_store :: "(keyspace, unit, feed_state) RedisStore" where
  "feed_store = \<lparr>rs_redis = ref_redis, rs_net = (\<lambda>n. (Answer [], n)), rs_sink = Some enqueue\<rparr>"

interpretation fs: redis_store feed_store id ref_newid
  unfolding feed_store_def by (rule ref_redis_store)

lemma feed_store_sink [simp]: "rs_sink feed_store = Some enqueue"
  by (simp add: feed_store_def)

definition started :: "(keyspace, unit) fworld" where
  "started = \<lparr>db = db one_key, net = (), snk = \<lparr>f_inflight = [], f_disp = newEventDispatcher\<lparr>d_latestRev := 1, d_nextRev := 2\<rparr>\<rparr>\<rparr>"

definition running :: "(keyspace, unit) fworld" where
  "running = snd (Put feed_store ''b'' ''y'' 0 started)"

definition emit_env :: "((keyspace, unit) fworld, 'g) watch_view \<Rightarrow> ((keyspace, unit) fworld, 'g) watch_view" where
  "emit_env v = (case f_inflight (snk (v_world v)) of [] \<Rightarrow> v | ev # _ \<Rightarrow> v\<lparr>v_world := emit_step ev (v_world v)\<rparr>)"

lemma started_sel [simp]: "db started = db one_key" "f_inflight (snk started) = []"
  "disp started = newEventDispatcher\<lparr>d_latestRev := 1, d_nextRev := 2\<rparr>"
  by (simp_all add: started_def)

lemma one_key_log: "\<exists>e1. events_of (db one_key) = [e1] \<and> EvRev e1 = 1 \<and> EvType e1 = ''PUT'' \<and> EvKey e1 = ''a''"
proof -
  have "committed ref_store id (mvcc_put ''a'' ''x'' 0) ref_world one_key"
    unfolding one_key_def by (rule refs.Put_ok) (simp_all add: store_inv_init rev_limit_def)
  then obtain ev where ev: "events_of (db one_key) = [ev]"
    and abs: "abs_store (db one_key) = mvcc_put ''a'' ''x'' 0 (abs_store init_keyspace)"
    by (auto simp: committed_def)
  have "m_log (abs_store (db one_key)) = [strip ev]" using ev events_of_log[of "db one_key"] by simp
  then have "strip ev = mk_event ''PUT'' ''a'' 1 (Some (next_kv ''a'' ''x'' 0 (abs_store init_keyspace))) None"
    unfolding abs by (auto simp: mvcc_put_def mvcc_write_def abs_store_def)
  then have "EvRev (strip ev) = 1" "EvType (strip ev) = ''PUT''" "EvKey (strip ev) = ''a''" by (simp_all only: mk_event_def Event.simps)
  with ev show ?thesis by (simp add: strip_def)
qed

lemma started_inv: "feed_inv id started"
proof -
  obtain e1 where "events_of (db one_key) = [e1]" "EvRev e1 = 1" using one_key_log by blast
  then show ?thesis
    using one_key_facts(1,2) primed_inv[of 2]
    by (auto simp: feed_inv_def index_of_log_def spaced_def newEventDispatcher_def maxPendingEvents_def)
qed

lemma running_facts:
  "\<exists>e1 e2. events_of (db running) = [e1, e2] \<and> EvRev e1 = 1 \<and> EvType e1 = ''PUT'' \<and> EvRev e2 = 2 \<and> EvType e2 = ''PUT'' \<and>
     snk running = \<lparr>f_inflight = [e2], f_disp = disp started\<rparr>" (is ?A)
  "store_inv (db running)" "rev_of (db running) = 2" "feed_inv id running"
proof -
  have lim: "store_inv (id (db started))" "rev_of (id (db started)) < rev_limit" using one_key_facts by (simp_all add: rev_limit_def)
  have c: "committed feed_store id (mvcc_put ''b'' ''y'' 0) started running"
    unfolding running_def by (rule fs.Put_ok(2)[OF lim]) (simp add: lease_ok_def)
  then have abs: "abs_store (db running) = mvcc_put ''b'' ''y'' 0 (abs_store (db one_key))" by (simp add: committed_def)
  from c show "store_inv (db running)" by (simp add: committed_def)
  show "rev_of (db running) = 2" using arg_cong[OF abs, of m_rev] one_key_facts(2) by (simp add: mvcc_put_def mvcc_write_def)
  obtain e1 where e1: "events_of (db one_key) = [e1]" "EvRev e1 = 1" "EvType e1 = ''PUT''" using one_key_log by blast
  obtain e2 where e2: "events_of (db running) = [e1, e2]" "EvRev e2 = 2" "snk running = enqueue e2 (snk started)"
    using c e1 one_key_facts(2) by (auto simp: committed_def feed_def)
  have "map strip [e1, e2] = m_log (abs_store (db running))" using events_of_log[of "db running"] e2(1) by simp
  also have "\<dots> = m_log (abs_store (db one_key)) @
      [mk_event ''PUT'' ''b'' 2 (Some (next_kv ''b'' ''y'' 0 (abs_store (db one_key)))) None]"
    unfolding abs using one_key_facts(2,3) by (simp add: mvcc_put_def mvcc_write_def)
  finally have "EvType (strip e2) = ''PUT''" using events_of_log[of "db one_key"] e1(1) by (simp add: mk_event_def)
  then have "EvType e2 = ''PUT''" by (simp add: strip_def)
  with e1 e2 show ?A by (auto simp: enqueue_def started_def)
  have "admitted id started" using one_key_facts(2) by (simp add: admitted_def rev_limit_def maxPendingEvents_def newEventDispatcher_def)
  from write_inv(1)[OF started_inv this feed_store_sink c] show "feed_inv id running" .
qed

lemma emit_env_others:
  fixes sent :: "'g \<Rightarrow> WatchResponse list"
  shows "others feed_store id sent subID i emit_env"
proof -
  have "(sys_step feed_store id subID)\<^sup>*\<^sup>* (v_world v) (v_world (emit_env v))" for v :: "((keyspace, unit) fworld, 'g) watch_view"
    by (cases "f_inflight (snk (v_world v))") (auto simp: emit_env_def intro!: r_into_rtranclp sys_step.sys_emit)
  moreover have "v_stream (emit_env v) = v_stream v" for v :: "((keyspace, unit) fworld, 'g) watch_view"
    by (simp add: emit_env_def split: list.split)
  ultimately show ?thesis by (simp add: others_def)
qed

lemma idle_others: "others r view sent subID i (\<lambda>v. v)"
  by (simp add: others_def)

text \<open>The catch-up of a watch that registered at revision 2, on this store and a client that takes every
  message.\<close>

interpretation fs_catch: catching "feed_server feed_store" "watching id 1 [] nul 2 []" "log_of id" list_send "\<lambda>g. g" 7 "[]" nul 1 1
  unfolding catching_def using watching_event_log[OF fs.redis_store_axioms] list_stream.grpc_stream_axioms by simp

text \<open>A read leaves the world as it is.\<close>

lemma read_same: "snd (BlockReadEvents feed_store c l n w) = w"
  using fs.BlockReadEvents_untouched[of w c l n] by (cases w; cases "snd (BlockReadEvents feed_store c l n w)") (simp add: untouched_def)

text \<open>A watch on every key from revision 1: it catches up on the first event and gets the second one live.\<close>

definition all_keys :: WatchCreateRequest where
  "all_keys = \<lparr>WC_Key = [], WC_RangeEnd = nul, WC_StartRevision = 1\<rparr>"

definition conn0 :: "((keyspace, unit) fworld, WatchResponse list) watch_conn" where
  "conn0 = \<lparr>wc_world = running, wc_stream = [], wc_watchID = 6, wc_cancels = [], wc_cancelled = [], wc_running = []\<rparr>"

definition created :: WatchResponse where
  "created = (response 2 7)\<lparr>WR_Created := True\<rparr>"

definition demo :: "bool \<times> ((keyspace, unit) fworld, WatchResponse list) watch_view" where
  "demo = tailWatch 60 (feed_server feed_store) list_send (\<lambda>_ v. v) [(emit_env, SubCh)] 7 all_keys
     \<lparr>v_world = running, v_stream = [created], v_done = False\<rparr>"

lemma conn0_create:
  "handle_create (feed_server feed_store) list_send all_keys conn0 =
     conn0\<lparr>wc_stream := [created], wc_watchID := 7, wc_cancels := [7], wc_running := [(7, all_keys)]\<rparr>"
proof -
  have inv: "store_inv (id (db running))" using running_facts(2) by simp
  have "snd (CurrentRevision feed_store running) = running"
    using fs.CurrentRevision_ok(2)[OF inv] by (cases running; cases "snd (CurrentRevision feed_store running)") (simp add: untouched_def)
  then have "CurrentRevision feed_store running = (Inr 2, running)"
    using fs.CurrentRevision_ok(1)[OF inv] running_facts(3) by (metis prod.collapse id_apply max_def one_le_numeral)
  then show ?thesis
    by (simp add: handle_create_def rev_or_zero_def redis_Store_def conn_send_def list_send_def conn0_def created_def effectiveStartRevision_def all_keys_def)
qed

lemma matches_all [simp]: "matchesWatch k [] nul"
  by (simp add: matchesWatch_def)

abbreviation registered :: "(keyspace, unit) fworld" where
  "registered \<equiv> upd_disp (\<lambda>d. snd (register [] nul d)) running"

lemma ingest_next:
  assumes "EvRev ev = 2"
  defines "d \<equiv> snd (register [] nul (newEventDispatcher\<lparr>d_latestRev := 1, d_nextRev := 2\<rparr>))"
  shows "d_objs (ingest ev d) 1 = Some \<lparr>sub_key = [], sub_rangeEnd = nul, sub_ch = [ev], sub_cancelled = False\<rparr>"
  using assms
  by (simp add: ingest_def register_def newEventDispatcher_def release_ready.simps releaseLocked_def maybeCheckpoint_def send_or_cut_def
      subChanBuffer_def maxPendingEvents_def Let_def)

lemma demo_run: "\<not> fst demo" "at_rest 1 (v_world (snd demo))" "events_of (db (v_world (snd demo))) = events_of (db running)"
proof -
  obtain e1 e2 where e: "events_of (db running) = [e1, e2]" "EvRev e1 = 1" "EvType e1 = ''PUT''" "EvRev e2 = 2" "EvType e2 = ''PUT''"
    "snk running = \<lparr>f_inflight = [e2], f_disp = disp started\<rparr>" using running_facts(1) by blast
  obtain p1 p2 where p: "eventToProto e1 = Some p1" "eventToProto e2 = Some p2" using e by (simp add: eventToProto_def)
  define w where "w = registered"
  have d: "disp running = disp started" by (simp add: e(6))
  have w: "disp w = snd (register [] nul (disp started))" "events_of (db w) = [e1, e2]" "f_inflight (snk w) = [e2]" "store_inv (db w)" "db w = db running"
    using running_facts(2) by (simp_all add: w_def e(1,6))
  have reg: "fst (register [] nul (disp running)) = (1, 1)" by (simp add: register_def d newEventDispatcher_def)
  have "fst (BlockReadEvents feed_store False ''0'' 1000 w) = Inr ([e1, e2], EvID e2)"
    using fs.BlockReadEvents_some[of w "''0''" 1000 False] w by (simp add: known_id_def events_after_def Let_def)
  then have rd: "BlockReadEvents feed_store False ''0'' 1000 w = (Inr ([e1, e2], EvID e2), w)"
    using read_same by (metis prod.collapse)
  have sk: "seekStreamID 1 (disp w) = ''0''" by (simp add: w(1) register_def newEventDispatcher_def seekStreamID_def seek_loop.simps)
  define r1 where "r1 = (response (currentRev (disp w)) 7)\<lparr>WR_Events := [p1]\<rparr>"
  have round: "catchUp_round (feed_server feed_store) list_send (\<lambda>v. v) 7 [] nul 1 1 ''0'' 0 \<lparr>v_world = w, v_stream = [created], v_done = False\<rparr> =
      (Inr True, \<lparr>v_world = w, v_stream = [created, r1], v_done = False\<rparr>)"
    by (simp add: catchUp_round_def redis_Store_def readBatchSize_def rd e p Send_def list_send_def r1_def)
  have sixty: "(60 :: nat) = Suc 59" by simp
  have cu: "catchUp 60 (feed_server feed_store) list_send (\<lambda>_ v. v) 7 [] nul 1 1 \<lparr>v_world = w, v_stream = [created], v_done = False\<rparr> =
      (Some True, \<lparr>v_world = w, v_stream = [created, r1], v_done = False\<rparr>)"
    unfolding catchUp_def sixty catchUp_loop.simps by (simp add: sk round)
  define w2 where "w2 = emit_step e2 w"
  have o: "d_objs (disp w2) 1 = Some \<lparr>sub_key = [], sub_rangeEnd = nul, sub_ch = [e2], sub_cancelled = False\<rparr>"
    using ingest_next[OF e(4)] by (simp add: w2_def emit_step_def w(1))
  have em: "emit_env \<lparr>v_world = w, v_stream = [created, r1], v_done = False\<rparr> = \<lparr>v_world = w2, v_stream = [created, r1], v_done = False\<rparr>"
    by (simp add: emit_env_def w(3) w2_def)
  define r2 where "r2 = (response (currentRev (disp w2)) 7)\<lparr>WR_Events := [p2]\<rparr>"
  have tl: "tail_loop (feed_server feed_store) list_send 7 [] nul 1 1 1 [(emit_env, SubCh)] \<lparr>v_world = w, v_stream = [created, r1], v_done = False\<rparr> =
      (False, \<lparr>v_world = upd_disp (set_channel 1 []) w2, v_stream = [created, r1, r2], v_done = False\<rparr>)"
    by (simp add: em o tail_ready_def tail_step_def collectEvents_def add_event_def collect_loop.simps e p Send_def list_send_def r2_def maxSendBatch_def)
  have w2: "db w2 = db running" "f_inflight (snk w2) = []" by (simp_all add: w2_def emit_step_def w)
  have dm: "demo = (False, \<lparr>v_world = upd_disp (set_channel 1 []) w2, v_stream = [created, r1, r2], v_done = False\<rparr>)"
    unfolding demo_def tailWatch_def using cu tl by (simp add: all_keys_def reg w_def)
  show "\<not> fst demo" "at_rest 1 (v_world (snd demo))" "events_of (db (v_world (snd demo))) = events_of (db running)"
    unfolding dm using o w2 by (simp_all add: at_rest_def set_channel_def)
qed

end
