(* ===== verification/WatchProps.thy ===== *)
theory WatchProps
  imports WatchExample "HOL-Library.Multiset"
begin

text \<open>
  Properties of the Watch service.
\<close>

section \<open>Exactly once, in order\<close>

text \<open>C1: A watch delivers every event of its range from its start revision on, exactly once and in
  revision order, on a store that has had a write by the time the watch runs and whose connection
  loses no reply.  A client creates it; it starts at the revision the client asked for or, by default,
  at the one after the revision of the answer.  Whatever the handlers, the other watches and the
  dispatcher do before the watch runs and while it runs, the events sent to it are at every moment a
  prefix of the events of the log it is to get; when it is still running, no reply is on its way from
  the store, and it has emptied its channel without being cut, they are all of them.  Catching up
  needs no more than 30 rounds for each revision below the boundary.\<close>

theorem watch_exactly_once:
  fixes c :: "(('d, 'n) fworld, 'g) watch_conn" and v v' :: "(('d, 'n) fworld, 'g) watch_view"
  assumes st: "redis_store r view newid" and sink: "rs_sink r = Some enqueue" and grpc: "grpc_stream send sent"
    and inv: "feed_inv view (wc_world c)" and fresh: "sent_events (wc_watchID c + 1) (sent (wc_stream c)) = []"
    and created: "wc_running (handle_create (feed_server r) send cr c) = (i, req) # wc_running c"
    and steps: "(sys_step r view j)\<^sup>*\<^sup>* (wc_world (handle_create (feed_server r) send cr c)) (v_world v)"
    and stream: "sent_events i (sent (v_stream v)) = sent_events i (sent (wc_stream (handle_create (feed_server r) send cr c)))"
    and started: "2 \<le> d_nextRev (disp (v_world v))"
    and envs: "\<And>n. others r view sent (d_nextID (disp (v_world v)) + 1) i (env n)"
    and sched: "\<forall>x\<in>set sched. others r view sent (d_nextID (disp (v_world v)) + 1) i (fst x)"
    and run: "tailWatch fuel (feed_server r) send env sched i req v = (ret, v')"
  defines "start \<equiv> (if 0 < WC_StartRevision cr then WC_StartRevision cr else max 1 (rev_of (view (db (wc_world c)))) + 1)"
  shows "prefix (sent_events i (sent (v_stream v'))) (protos (wanted (WC_Key cr) (WC_RangeEnd cr) start (log_of view (v_world v')))) \<and>
    (\<not> ret \<and> 30 * nat (d_nextRev (disp (v_world v))) \<le> fuel \<and> at_rest (d_nextID (disp (v_world v)) + 1) (v_world v') \<longrightarrow>
     sent_events i (sent (v_stream v')) = protos (wanted (WC_Key cr) (WC_RangeEnd cr) start (log_of view (v_world v'))))"
  using created_watch_sends[OF st sink grpc inv fresh created steps stream started envs sched run] unfolding start_def by blast

theorem watch_exactly_once_witness:
  "\<exists>e1 e2. log_of id running = [e1, e2] \<and> EvRev e1 = 1 \<and> EvRev e2 = 2 \<and>
     sent_events 7 (v_stream (snd demo)) = protos [e1, e2] \<and> length (protos [e1, e2]) = 2"
proof -
  obtain e1 e2 where e: "log_of id running = [e1, e2]" "EvRev e1 = 1" "EvType e1 = ''PUT''" "EvRev e2 = 2" "EvType e2 = ''PUT''"
    "disp running = disp started" using running_facts(1) by auto
  define v :: "((keyspace, unit) fworld, WatchResponse list) watch_view" where "v = \<lparr>v_world = running, v_stream = [created], v_done = False\<rparr>"
  have run: "tailWatch 60 (feed_server feed_store) list_send (\<lambda>_ v. v) [(emit_env, SubCh)] 7 all_keys v = (fst demo, snd demo)"
    by (simp add: demo_def v_def)
  have c: "wc_running (handle_create (feed_server feed_store) list_send all_keys conn0) = (7, all_keys) # wc_running conn0"
    unfolding conn0_create by (simp add: conn0_def)
  have "sent_events 7 (v_stream (snd demo)) = protos (wanted [] nul 1 (log_of id running))"
    using watch_exactly_once[OF fs.redis_store_axioms feed_store_sink list_stream.grpc_stream_axioms _ _ c _ _ _ _ _ run, of 1]
      running_facts(4) demo_run unfolding conn0_create
    by (simp add: v_def e(6) newEventDispatcher_def all_keys_def idle_others emit_env_others conn0_def created_def)
  with e show ?thesis by (simp add: wanted_def eventToProto_def)
qed

section \<open>A server after its start\<close>

lemma prime_ok:
  assumes "redis_store r view newid" and "store_inv (view (db w))"
  shows "fst (prime (redis_Store r) d w) = d\<lparr>d_latestRev := max 1 (rev_of (view (db w))), d_nextRev := rev_of (view (db w)) + 1\<rparr>"
    and "untouched view w (snd (prime (redis_Store r) d w))"
proof -
  obtain w1 where c: "CurrentRevision r w = (Inr (max 1 (rev_of (view (db w)))), w1)" "untouched view w w1"
    using redis_store.CurrentRevision_ok[OF assms] by (metis prod.collapse)
  then have i: "store_inv (view (db w1))" "rev_of (view (db w1)) = rev_of (view (db w))" using assms(2) by (simp_all add: untouched_def)
  obtain w2 where r: "RawRevision r w1 = (Inr (rev_of (view (db w))), w2)" "untouched view w1 w2"
    using redis_store.RawRevision_ok[OF assms(1) i(1)] i(2) by (metis prod.collapse)
  have "0 \<le> rev_of (view (db w))" using store_inv_log(2)[OF assms(2)] by simp
  then show "fst (prime (redis_Store r) d w) = d\<lparr>d_latestRev := max 1 (rev_of (view (db w))), d_nextRev := rev_of (view (db w)) + 1\<rparr>"
    using c r by (simp add: prime_def redis_Store_def)
  show "untouched view w (snd (prime (redis_Store r) d w))"
    using c r by (auto simp: prime_def redis_Store_def untouched_def)
qed

lemma primed_feed_inv:
  assumes "store_inv (view (db w))" and "f_inflight (snk w) = []"
    and "disp w = newEventDispatcher\<lparr>d_latestRev := max 1 (rev_of (view (db w))), d_nextRev := rev_of (view (db w)) + 1\<rparr>"
  shows "feed_inv view w"
proof -
  have "0 \<le> rev_of (view (db w))" using store_inv_log(2)[OF assms(1)] by simp
  then have "disp_inv (disp w)" using primed_inv[of "rev_of (view (db w)) + 1"] assms(3) by simp
  moreover have "{ev \<in> set (log_of view w). rev_of (view (db w)) + 1 \<le> EvRev ev} = {}" using log_facts(2)[OF assms(1)] by fastforce
  ultimately show ?thesis
    using assms by (auto simp: feed_inv_def index_of_log_def spaced_def newEventDispatcher_def)
qed

text \<open>C6: No event is lost on its way to the watchers.  A server that starts on any store and then
  runs, with writes, replies that come back in any order, and watches that come and go, accounts for
  every event of the log at every moment: it has been released, or it waits for its turn in the
  reorder buffer, or its reply is still on its way; and the dispatcher never skipped a revision.\<close>

theorem no_event_lost:
  assumes "redis_store r view newid" and "rs_sink r = Some enqueue"
    and "store_inv (view (db w))" and "snk w = \<lparr>f_inflight = [], f_disp = fst (prime (redis_Store r) newEventDispatcher w)\<rparr>"
    and "(sys_step r view i)\<^sup>*\<^sup>* w w'"
  shows "set (log_of view w') = {ev \<in> set (log_of view w'). EvRev ev < d_nextRev (disp w')} \<union> buffered (disp w') \<union> set (f_inflight (snk w')) \<and>
    set (f_inflight (snk w')) \<inter> buffered (disp w') = {} \<and> prefix (log_of view w) (log_of view w') \<and>
    (\<forall>ev\<in>buffered (disp w') \<union> set (f_inflight (snk w')). d_nextRev (disp w') \<le> EvRev ev) \<and>
    d_latestRev (disp w') = max 1 (d_nextRev (disp w') - 1) \<and> rev_of (view (db w')) \<le> d_nextRev (disp w') + 4096"
proof -
  have "feed_inv view w" using assms(3,4) prime_ok(1)[OF assms(1,3)] by (intro primed_feed_inv) simp_all
  from sys_steps_keep[OF assms(1,2,5) this]
  have inv: "feed_inv view w'" and "prefix (log_of view w) (log_of view w')" by simp_all
  moreover have "set (f_inflight (snk w')) \<union> buffered (disp w') = {ev \<in> set (log_of view w'). d_nextRev (disp w') \<le> EvRev ev}"
    using inv by (simp add: feed_inv_def)
  ultimately show ?thesis
    by (auto simp: feed_inv_def disp_inv_def maxPendingEvents_def)
qed

theorem no_event_lost_witness:
  "set (log_of id running) = {ev \<in> set (log_of id running). EvRev ev < 2} \<union> set (f_inflight (snk running)) \<and> length (f_inflight (snk running)) = 1"
proof -
  have s: "store_inv (id (db started))" "rev_of (id (db started)) = 1" using one_key_facts by simp_all
  have p: "snk started = \<lparr>f_inflight = [], f_disp = fst (prime (redis_Store feed_store) newEventDispatcher started)\<rparr>"
    using prime_ok(1)[OF fs.redis_store_axioms s(1)] s(2) by (simp add: started_def)
  have "admitted id started" using s(2) by (simp add: admitted_def rev_limit_def maxPendingEvents_def newEventDispatcher_def)
  then have "(sys_step feed_store id 1)\<^sup>*\<^sup>* started running"
    using sys_step.sys_write[of id started "WPut ''b'' ''y'' 0" feed_store 1] by (auto simp: running_def lease_ok_def)
  from no_event_lost[OF fs.redis_store_axioms feed_store_sink s(1) p this] running_facts(1)
  show ?thesis by (auto simp: newEventDispatcher_def)
qed

lemma emit_all:
  assumes "feed_inv view w" and "mset xs = mset (f_inflight (snk w))"
  shows "feed_inv view (fold emit_step xs w) \<and> f_inflight (snk (fold emit_step xs w)) = [] \<and> log_of view (fold emit_step xs w) = log_of view w \<and>
    rev_of (view (db (fold emit_step xs w))) = rev_of (view (db w)) \<and>
    (follows view i key rangeEnd n0 got w \<longrightarrow> follows view i key rangeEnd n0 got (fold emit_step xs w))"
  using assms
proof (induction xs arbitrary: w)
  case (Cons x xs)
  have x: "x \<in> set (f_inflight (snk w))" using Cons.prems(2) by (metis list.set_intros(1) set_mset_mset)
  have "mset xs = mset (f_inflight (snk (emit_step x w)))"
    using Cons.prems(2) by (simp add: emit_step_def) (metis add_mset_remove_trivial)
  from Cons.IH[OF emit_inv[OF Cons.prems(1) x] this] emit_follows[OF Cons.prems(1) x, of i key rangeEnd n0 got]
  show ?case by (auto simp: emit_step_def)
qed simp

text \<open>C14: Delivery is live.  From every state of the running system, once the replies on their way have
  arrived, in whatever order, the dispatcher has released every event of the log: its buffer is empty
  and it reports the store's revision.  A watch that was not cut then has in its channel, after what
  it has taken, every event of its range since it registered.\<close>

theorem feed_is_live:
  assumes "feed_inv view w" and "follows view i key rangeEnd n0 got w" and "mset xs = mset (f_inflight (snk w))"
  defines "w' \<equiv> fold emit_step xs w"
  shows "d_nextRev (disp w') = rev_of (view (db w)) + 1 \<and> d_pending (disp w') = [] \<and>
    currentRev (disp w') = max 1 (rev_of (view (db w))) \<and>
    (\<exists>sub. d_objs (disp w') i = Some sub \<and>
      (\<not> sub_cancelled sub \<longrightarrow> got @ sub_ch sub = filter (\<lambda>ev. matchesWatch (EvKey ev) key rangeEnd \<and> n0 \<le> EvRev ev) (log_of view w)))"
proof -
  note e = emit_all[OF assms(1,3), folded w'_def]
  have inv: "feed_inv view w'" and fl: "f_inflight (snk w') = []" and lg: "log_of view w' = log_of view w"
    and rv: "rev_of (view (db w')) = rev_of (view (db w))" and fo: "follows view i key rangeEnd n0 got w'"
    using e[of i key rangeEnd n0 got] assms(2) by simp_all
  have n: "d_nextRev (disp w') = rev_of (view (db w)) + 1" using caught_up[OF inv fl] rv by simp
  have st: "store_inv (view (db w'))" using inv by (simp add: feed_inv_def)
  have top: "EvRev ev < d_nextRev (disp w')" if "ev \<in> set (log_of view w')" for ev using log_facts(2)[OF st that] n rv by simp
  have "{ev \<in> set (log_of view w'). d_nextRev (disp w') \<le> EvRev ev} = {}" using top by fastforce
  then have "buffered (disp w') = {}" using inv fl by (simp add: feed_inv_def)
  then have "d_pending (disp w') = []" by simp
  moreover have "filter (\<lambda>ev. matchesWatch (EvKey ev) key rangeEnd \<and> n0 \<le> EvRev ev \<and> EvRev ev < d_nextRev (disp w')) (log_of view w') =
      filter (\<lambda>ev. matchesWatch (EvKey ev) key rangeEnd \<and> n0 \<le> EvRev ev) (log_of view w')"
    using top by (intro filter_cong) auto
  ultimately show ?thesis
    using fo inv n lg unfolding follows_def by (auto simp: currentRev_def feed_inv_def disp_inv_def)
qed

theorem feed_is_live_witness:
  "let w = fold emit_step (f_inflight (snk registered)) registered in d_nextRev (disp w) = 3 \<and> d_pending (disp w) = [] \<and> currentRev (disp w) = 2"
proof -
  have "feed_inv id registered" "follows id 1 [] nul 2 [] registered"
    using register_watching[OF running_facts(4), of "[]" nul] running_facts(1) by (auto simp: newEventDispatcher_def)
  from feed_is_live[OF this refl] running_facts(3) show ?thesis by (simp add: Let_def)
qed

section \<open>Catching up over a lossy network\<close>

context lossy_store
begin

lemma is_event_log: "event_log (redis_Store r) (\<lambda>w. store_inv (view (db w))) (\<lambda>w. events_of (view (db w)))"
  by (rule lossy_log.event_log_axioms)

end

text \<open>C15: Catching up ends, whatever the network does.  With calls to Redis failing at will and other
  goroutines writing in between, \<open>catchUp\<close> returns after at most 30 rounds for each revision up to
  the boundary, and 30 more.  What it has sent is a prefix of the events of the watch's range from the
  start revision to the boundary, and all of them when it returns true.\<close>

theorem catchUp_terminates:
  assumes "lossy_store r view newid" and "ws_store ws = redis_Store r" and "grpc_stream send sent"
    and "store_inv (view (db (v_world v)))"
    and "index_sorted (ws_disp ws (v_world v))" and "index_of_log (events_of (view (db (v_world v)))) (ws_disp ws (v_world v))"
    and "\<And>n. quiet (\<lambda>w. store_inv (view (db w))) (\<lambda>w. events_of (view (db w))) sent i (env n)"
    and "30 * nat b + 30 \<le> fuel"
  shows "\<exists>ok v'. catchUp fuel ws send env i key rangeEnd s b v = (Some ok, v') \<and>
    (let out = sent_events i (sent (v_stream v'));
         todo = sent_events i (sent (v_stream v)) @ protos (filter (in_window key rangeEnd s b) (events_of (view (db (v_world v')))))
     in prefix out todo \<and> (ok \<longrightarrow> out = todo))"
proof -
  have c: "catching ws (\<lambda>w. store_inv (view (db w))) (\<lambda>w. events_of (view (db w))) send sent"
    unfolding catching_def assms(2) using lossy_store.is_event_log[OF assms(1)] assms(3) by simp
  from catching.catchUp_ok[where env = env and i = i and fuel = fuel and b = b and s = s and key = key and rangeEnd = rangeEnd, OF c assms(4-7)] assms(8)
  show ?thesis by (auto split: prod.splits simp: Let_def)
qed

theorem catchUp_terminates_witness:
  "\<exists>ok v'. catchUp 60 \<lparr>ws_store = redis_Store (lossy_ref (Answer [1])), ws_disp = (\<lambda>_. one_watcher), ws_upd = (\<lambda>_ w. w)\<rparr> list_send (\<lambda>_ v. v)
     7 [] nul 1 1 \<lparr>v_world = one_key, v_stream = [], v_done = False\<rparr> = (Some ok, v')"
proof -
  have d: "index_sorted one_watcher" "index_of_log evs one_watcher" for evs
    by (simp_all add: index_sorted_def index_of_log_def one_watcher_sel)
  show ?thesis
    using catchUp_terminates[OF lossyr.lossy_store_axioms _ list_stream.grpc_stream_axioms, where env = "\<lambda>_ v. v" and fuel = 60 and b = 1,
        of "\<lparr>ws_store = redis_Store (lossy_ref (Answer [1])), ws_disp = (\<lambda>_. one_watcher), ws_upd = (\<lambda>_ w. w)\<rparr>"
          "\<lparr>v_world = one_key, v_stream = [], v_done = False\<rparr>" 7 "[]" nul 1] one_key_facts(1) d
    by (auto simp: quiet_def)
qed

section \<open>Batches\<close>

text \<open>A batch of live events.  \<open>collectEvents\<close> takes events off the channel in order, sends
  exactly those after the boundary and the start revision, at most 1000, and stops only when it has
  1000 or the channel is empty; what it does not send it leaves in the channel.\<close>

theorem collectEvents_exact:
  "\<exists>used rest. first # ch = used @ rest \<and> used \<noteq> [] \<and> snd (collectEvents first ch b s key rangeEnd) = rest \<and>
     fst (fst (collectEvents first ch b s key rangeEnd)) = protos (filter (\<lambda>ev. b < EvRev ev \<and> s \<le> EvRev ev) used) \<and>
     length (fst (fst (collectEvents first ch b s key rangeEnd))) \<le> 1000 \<and>
     (rest = [] \<or> length (fst (fst (collectEvents first ch b s key rangeEnd))) = 1000)"
  using collectEvents_spec[of first ch b s key rangeEnd] unfolding maxSendBatch_def by (elim exE conjE) (intro exI conjI, assumption+, simp_all)

section \<open>Progress notifications\<close>

text \<open>C34: A progress notification can overtake events.  While an event waits in the channel of a watch,
  the periodic notification of that watch and the answer to a progress request both carry a revision
  that is at least the event's, with no events: they tell the client that it has seen everything up to
  that revision before the event is sent.\<close>

theorem progress_overtakes:
  assumes "watching view subID key rangeEnd n0 got w" and "d_objs (disp w) subID = Some sub" and "ev \<in> set (sub_ch sub)"
    and "v_world v = w" and "wc_world c = w"
  shows "\<exists>resp resp'. EvRev ev \<le> HdrRevision (WR_Header resp) \<and> WR_Events resp = [] \<and> WR_WatchId resp = i \<and>
    tail_step (feed_server r) send i key rangeEnd s subID b (Ticker True) v =
      (\<not> fst (send resp (v_stream v)), v\<lparr>v_stream := snd (send resp (v_stream v))\<rparr>) \<and>
    EvRev ev \<le> HdrRevision (WR_Header resp') \<and> WR_Events resp' = [] \<and> WR_WatchId resp' = - 1 \<and>
    handle_msg (feed_server r) send ProgressRequest c = c\<lparr>wc_stream := snd (send resp' (wc_stream c))\<rparr>"
proof -
  have di: "d_latestRev (disp w) = max 1 (d_nextRev (disp w) - 1)" using assms(1) by (simp add: feed_inv_def disp_inv_def)
  have "prefix (got @ sub_ch sub)
      (filter (\<lambda>ev. matchesWatch (EvKey ev) key rangeEnd \<and> n0 \<le> EvRev ev \<and> EvRev ev < d_nextRev (disp w)) (log_of view w))"
    using assms(1,2) by (simp add: follows_def)
  from set_mono_prefix[OF this] assms(3) have "EvRev ev \<le> currentRev (disp w)" by (auto simp: currentRev_def di)
  then show ?thesis
    using assms(4,5)
    by (intro exI[of _ "response (currentRev (disp w)) i"] exI[of _ "response (currentRev (disp w)) (- 1)"])
      (simp add: tail_step_def handle_msg_def Send_def conn_send_def invalidWatchID_def Let_def response_def hdr_def)
qed

theorem progress_overtakes_witness:
  "\<exists>ev resp. ev \<in> set (sub_ch (the (d_objs (disp (emit_step (hd (f_inflight (snk registered))) registered)) 1))) \<and>
     EvRev ev \<le> HdrRevision (WR_Header resp) \<and> WR_Events resp = [] \<and>
     v_stream (snd (tail_step (feed_server feed_store) list_send 7 [] nul 2 1 1 (Ticker True)
       \<lparr>v_world = emit_step (hd (f_inflight (snk registered))) registered, v_stream = [], v_done = False\<rparr>)) = [resp]"
proof -
  obtain e2 where e2: "EvRev e2 = 2" "snk running = \<lparr>f_inflight = [e2], f_disp = disp started\<rparr>" using running_facts(1) by blast
  define w where "w = emit_step (hd (f_inflight (snk registered))) registered"
  have reg: "feed_inv id registered" "follows id 1 [] nul 2 [] registered" "e2 \<in> set (f_inflight (snk registered))"
    using register_watching[OF running_facts(4), of "[]" nul] e2 by (auto simp: newEventDispatcher_def)
  have w: "w = emit_step e2 registered" by (simp add: w_def e2)
  then have wt: "watching id 1 [] nul 2 [] w" using emit_inv[OF reg(1,3)] emit_follows[OF reg(1,3,2)] by simp
  have o: "d_objs (disp w) 1 = Some \<lparr>sub_key = [], sub_rangeEnd = nul, sub_ch = [e2], sub_cancelled = False\<rparr>"
    using ingest_next[OF e2(1)] by (simp add: w emit_step_def e2(2))
  obtain resp where "EvRev e2 \<le> HdrRevision (WR_Header resp)" "WR_Events resp = []"
    "tail_step (feed_server feed_store) list_send 7 [] nul 2 1 1 (Ticker True) \<lparr>v_world = w, v_stream = [], v_done = False\<rparr> =
       (\<not> fst (list_send resp []), \<lparr>v_world = w, v_stream = snd (list_send resp []), v_done = False\<rparr>)"
    using progress_overtakes[OF wt o, of e2 "\<lparr>v_world = w, v_stream = [], v_done = False\<rparr>"
        "\<lparr>wc_world = w, wc_stream = [], wc_watchID = 7, wc_cancels = [], wc_cancelled = [], wc_running = []\<rparr>" 7 feed_store list_send 2 1]
    by auto
  with o show ?thesis unfolding w_def[symmetric] by (intro exI[of _ e2] exI[of _ resp]) (simp add: list_send_def)
qed

section \<open>The first write of a fresh store\<close>

text \<open>C35: The first write of a fresh store does not reach a watch that is already there.  On a store
  without writes the clamped revision is 1, so a watch from now on starts at revision 2 with the
  boundary 1; the first event has revision 1 and is released to its channel, but is filtered there.\<close>

theorem first_write_missed:
  assumes "redis_store r view newid" and "store_inv (view (db w))" and "rev_of (view (db w)) = 0"
    and "EvRev ev = 1" and "matchesWatch (EvKey ev) key rangeEnd"
  defines "d \<equiv> fst (prime (redis_Store r) newEventDispatcher w)"
  shows "fst (CurrentRevision r w) = Inr 1 \<and> effectiveStartRevision 0 1 = 2 \<and> fst (register key rangeEnd d) = (1, 1) \<and>
    (\<exists>sub. d_objs (ingest ev (snd (register key rangeEnd d))) 1 = Some sub \<and> sub_ch sub = [ev]) \<and>
    fst (fst (collectEvents ev [] 1 2 key rangeEnd)) = []"
proof -
  have d: "d = newEventDispatcher\<lparr>d_latestRev := 1, d_nextRev := 1\<rparr>" using prime_ok(1)[OF assms(1,2)] assms(3) by (simp add: d_def)
  have "fst (CurrentRevision r w) = Inr 1" using redis_store.CurrentRevision_ok(1)[OF assms(1,2)] assms(3) by simp
  moreover have "\<exists>sub. d_objs (ingest ev (snd (register key rangeEnd d))) 1 = Some sub \<and> sub_ch sub = [ev]"
    using assms(4,5)
    by (simp add: d ingest_def register_def newEventDispatcher_def release_ready.simps releaseLocked_def maybeCheckpoint_def send_or_cut_def
        subChanBuffer_def maxPendingEvents_def Let_def)
  moreover have "fst (fst (collectEvents ev [] 1 2 key rangeEnd)) = []"
    using assms(4) by (simp add: collectEvents_def add_event_def collect_loop.simps)
  ultimately show ?thesis by (simp add: effectiveStartRevision_def d register_def newEventDispatcher_def)
qed

theorem first_write_missed_witness:
  "fst (CurrentRevision ref_store ref_world) = Inr 1 \<and>
   fst (register [] nul (fst (prime (redis_Store ref_store) newEventDispatcher ref_world))) = (1, 1) \<and>
   fst (fst (collectEvents (put_event 1) [] 1 2 [] nul)) = []"
  using first_write_missed[OF refs.redis_store_axioms, of ref_world "put_event 1" "[]" nul] store_inv_init by simp

end
