(* ===== verification/Leases.thy ===== *)
theory Leases
  imports StoreProps
begin

text \<open>
  Leases in Redis (\<open>store/lease.go\<close>): a counter for the IDs, one expiring key per lease holding
  its granted time to live, a set of all lease IDs and, kept by \<open>write.lua\<close>, one set of attached
  keys per lease.
\<close>

section \<open>Keys and durations\<close>

definition leaseIDCounter :: string where
  "leaseIDCounter = ''lease:id_counter''"

definition leaseSetKey :: string where
  "leaseSetKey = ''leases''"

definition leaseDataKey :: "int \<Rightarrow> string" where
  "leaseDataKey i = ''lease:'' @ format_int i"

text \<open>\<open>time.Duration(ttl) * time.Second\<close>, an int64 product.\<close>

definition seconds :: "int \<Rightarrow> int" where
  "seconds ttl = wrap64 (ttl * second_ns)"

text \<open>\<open>int64(dur.Seconds())\<close>, truncation towards zero.\<close>

definition whole_seconds :: "int \<Rightarrow> int" where
  "whole_seconds dur = sgn dur * (\<bar>dur\<bar> div second_ns)"

definition pipeline3 :: "('d, 'n, 'x) RedisStore \<Rightarrow> ('d, rerr, unit) cmd \<Rightarrow> ('d, rerr, unit) cmd \<Rightarrow> ('d, rerr, unit) cmd \<Rightarrow>
    (('d, 'n, 'x) world, gerr, (rerr + unit) \<times> (rerr + unit) \<times> (rerr + unit)) cmd" where
  "pipeline3 r c1 c2 c3 =
     roundtrip r (\<lambda>j d. if j = 0 then d else if j = 1 then snd (c1 d) else if j = 2 then snd (c2 (snd (c1 d)))
                       else snd (c3 (snd (c2 (snd (c1 d))))))
       (\<lambda>d. let (r1, d1) = c1 d; (r2, d2) = c2 d1; (r3, d3) = c3 d2 in (Inr (r1, r2, r3), d3))"

text \<open>The error \<open>pipe.Exec\<close> returns: the one of the first command that failed.\<close>

fun exec_error :: "(rerr + unit) list \<Rightarrow> rerr option" where
  "exec_error [] = None"
| "exec_error (Inl e # rs) = Some e"
| "exec_error (Inr _ # rs) = exec_error rs"

section \<open>Operations\<close>

definition LeaseGrant :: "('d, 'n, 'x) RedisStore \<Rightarrow> int \<Rightarrow> (('d, 'n, 'x) world, gerr, int) cmd" where
  "LeaseGrant r ttl =
     bindE (mapErr (Wrap ''incr lease id'') (call r (r_INCR (rs_redis r) leaseIDCounter))) (\<lambda>i.
     bindE (mapErr (Wrap ''lease grant'')
       (pipeline2 r (r_SETEX (rs_redis r) (leaseDataKey i) (format_int ttl) (seconds ttl))
                    (r_SADD (rs_redis r) leaseSetKey (format_int i)))) (\<lambda>(a, b).
     case exec_error [a, b] of Some e \<Rightarrow> failE (Wrap ''lease grant'' (Redis e)) | None \<Rightarrow> retE i))"

fun revoke_loop :: "('d, 'n, 'x) RedisStore \<Rightarrow> bytes list \<Rightarrow> (('d, 'n, 'x) world, gerr, unit) cmd" where
  "revoke_loop r [] = retE ()"
| "revoke_loop r (key # keys) =
     bindE (mapErr (Wrap (''delete lease key '' @ key)) (Delete r key)) (\<lambda>_. revoke_loop r keys)"

definition LeaseRevoke :: "('d, 'n, 'x) RedisStore \<Rightarrow> int \<Rightarrow> (('d, 'n, 'x) world, gerr, unit) cmd" where
  "LeaseRevoke r i =
     bindE (mapErr (Wrap ''smembers lease keys'') (call r (readE (r_SMEMBERS (rs_redis r) (leaseKeysSetKey i))))) (\<lambda>keys.
     bindE (revoke_loop r keys) (\<lambda>_.
     bindE (mapErr (Wrap ''lease revoke'')
       (pipeline3 r (r_DEL (rs_redis r) (leaseDataKey i)) (r_DEL (rs_redis r) (leaseKeysSetKey i))
                    (r_SREM (rs_redis r) leaseSetKey (format_int i)))) (\<lambda>(a, b, c).
     case exec_error [a, b, c] of Some e \<Rightarrow> failE (Wrap ''lease revoke'' (Redis e)) | None \<Rightarrow> retE ())))"

definition LeaseRenew :: "('d, 'n, 'x) RedisStore \<Rightarrow> int \<Rightarrow> (('d, 'n, 'x) world, gerr, int) cmd" where
  "LeaseRenew r i =
     bindE (mapErr (Wrap ''get lease'') (call r (readE (r_GET (rs_redis r) (leaseDataKey i))))) (\<lambda>val.
     case val of None \<Rightarrow> failE (LeaseNotFound i)
     | Some ttlStr \<Rightarrow>
         (case ParseInt ttlStr of
            (_, Some e) \<Rightarrow> failE (Wrap ''parse ttl'' (BadInt e))
          | (ttl, None) \<Rightarrow>
              (\<lambda>w. (Inr ttl, snd (call r (r_EXPIRE (rs_redis r) (leaseDataKey i) (seconds ttl)) w)))))"

definition LeaseTimeToLive :: "('d, 'n, 'x) RedisStore \<Rightarrow> int \<Rightarrow> (('d, 'n, 'x) world, gerr, int \<times> int) cmd" where
  "LeaseTimeToLive r i =
     bindE (mapErr (Wrap ''get lease'') (call r (readE (r_GET (rs_redis r) (leaseDataKey i))))) (\<lambda>val.
     case val of None \<Rightarrow> retE (0, - 1)
     | Some ttlStr \<Rightarrow>
         (case ParseInt ttlStr of
            (_, Some e) \<Rightarrow> failE (Wrap ''parse ttl'' (BadInt e))
          | (granted, None) \<Rightarrow>
              bindE (mapErr (Wrap ''ttl'') (call r (readE (r_TTL (rs_redis r) (leaseDataKey i))))) (\<lambda>dur.
              retE (granted, whole_seconds dur))))"

section \<open>The reaper\<close>

text \<open>
  The body of the reaper's ticker.  Every error is ignored: a failed read of the attached keys
  counts as no keys, a failed delete is skipped, and the tracking sets are cleaned up all the same.
\<close>

fun reap_keys :: "('d, 'n, 'x) RedisStore \<Rightarrow> bytes list \<Rightarrow> ('d, 'n, 'x) world \<Rightarrow> ('d, 'n, 'x) world" where
  "reap_keys r [] w = w"
| "reap_keys r (key # keys) w = reap_keys r keys (snd (Delete r key w))"

definition reap_lease :: "('d, 'n, 'x) RedisStore \<Rightarrow> bytes \<Rightarrow> ('d, 'n, 'x) world \<Rightarrow> ('d, 'n, 'x) world" where
  "reap_lease r idStr w =
     (case ParseInt idStr of
        (_, Some _) \<Rightarrow> w
      | (i, None) \<Rightarrow>
          (case call r (readE (r_EXISTS (rs_redis r) (leaseDataKey i))) w of
             (Inl _, w1) \<Rightarrow> w1
           | (Inr n, w1) \<Rightarrow>
               if 0 < n then w1
               else
                 let (keys, w2) = (case call r (readE (r_SMEMBERS (rs_redis r) (leaseKeysSetKey i))) w1 of
                                     (Inl _, w2) \<Rightarrow> ([], w2) | (Inr ks, w2) \<Rightarrow> (ks, w2));
                     w3 = reap_keys r keys w2;
                     w4 = snd (call r (r_DEL (rs_redis r) (leaseKeysSetKey i)) w3)
                 in snd (call r (r_SREM (rs_redis r) leaseSetKey idStr) w4)))"

fun reap_loop :: "('d, 'n, 'x) RedisStore \<Rightarrow> bytes list \<Rightarrow> ('d, 'n, 'x) world \<Rightarrow> ('d, 'n, 'x) world" where
  "reap_loop r [] w = w"
| "reap_loop r (idStr # ids) w = reap_loop r ids (reap_lease r idStr w)"

definition reapExpiredLeases :: "('d, 'n, 'x) RedisStore \<Rightarrow> ('d, 'n, 'x) world \<Rightarrow> ('d, 'n, 'x) world" where
  "reapExpiredLeases r w =
     (case call r (readE (r_SMEMBERS (rs_redis r) leaseSetKey)) w of
        (Inl _, w1) \<Rightarrow> w1
      | (Inr ids, w1) \<Rightarrow> reap_loop r ids w1)"

end
