(* ===== verification/LeaseServer.thy ===== *)
theory LeaseServer
  imports Leases KVServer
begin

text \<open>
  The Lease service of \<open>server/lease.go\<close>.  Its responses carry a header without a revision.
  \<open>LeaseKeepAlive\<close> is a loop over the requests received on the stream; the stream's
  \<open>Send\<close> is a parameter, and the loop ends with the error of \<open>Recv\<close>.
\<close>

record LeaseGrantResponse =
  LG_Header :: ResponseHeader
  LG_ID :: int
  LG_TTL :: int

definition LeaseServer_Grant :: "('d, 'n, 'x) RedisStore \<Rightarrow> int \<Rightarrow> (('d, 'n, 'x) world, gerr, LeaseGrantResponse) cmd" where
  "LeaseServer_Grant r reqTTL =
     (let ttl = (if reqTTL \<le> 0 then 30 else reqTTL) in
      bindE (LeaseGrant r ttl) (\<lambda>i. retE \<lparr>LG_Header = hdr 0, LG_ID = i, LG_TTL = ttl\<rparr>))"

definition LeaseServer_Revoke :: "('d, 'n, 'x) RedisStore \<Rightarrow> int \<Rightarrow> (('d, 'n, 'x) world, gerr, ResponseHeader) cmd" where
  "LeaseServer_Revoke r reqID = bindE (LeaseRevoke r reqID) (\<lambda>_. retE (hdr 0))"

record LeaseKeepAliveResponse =
  LK_Header :: ResponseHeader
  LK_ID :: int
  LK_TTL :: int

fun LeaseKeepAlive ::
  "('d, 'n, 'x) RedisStore \<Rightarrow> (LeaseKeepAliveResponse \<Rightarrow> (('d, 'n, 'x) world, gerr, unit) cmd) \<Rightarrow> gerr \<Rightarrow>
     int list \<Rightarrow> ('d, 'n, 'x) world \<Rightarrow> gerr \<times> ('d, 'n, 'x) world"
where
  "LeaseKeepAlive r send recvErr [] w = (recvErr, w)"
| "LeaseKeepAlive r send recvErr (reqID # reqs) w =
     (case LeaseRenew r reqID w of
        (Inl _, w1) \<Rightarrow>
          LeaseKeepAlive r send recvErr reqs (snd (send \<lparr>LK_Header = hdr 0, LK_ID = reqID, LK_TTL = 0\<rparr> w1))
      | (Inr ttl, w1) \<Rightarrow>
          (case send \<lparr>LK_Header = hdr 0, LK_ID = reqID, LK_TTL = ttl\<rparr> w1 of
             (Inl e, w2) \<Rightarrow> (e, w2)
           | (Inr _, w2) \<Rightarrow> LeaseKeepAlive r send recvErr reqs w2))"

record LeaseTimeToLiveResponse =
  LT_Header :: ResponseHeader
  LT_ID :: int
  LT_TTL :: int
  LT_GrantedTTL :: int

definition LeaseServer_TimeToLive ::
  "('d, 'n, 'x) RedisStore \<Rightarrow> int \<Rightarrow> (('d, 'n, 'x) world, gerr, LeaseTimeToLiveResponse) cmd"
where
  "LeaseServer_TimeToLive r reqID =
     bindE (LeaseTimeToLive r reqID) (\<lambda>(granted, remaining).
     retE \<lparr>LT_Header = hdr 0, LT_ID = reqID, LT_TTL = remaining, LT_GrantedTTL = granted\<rparr>)"

text \<open>A stub: no header, no leases.\<close>

definition LeaseLeases :: "('w, gerr, int list) cmd" where
  "LeaseLeases = retE []"

end
