(* ===== verification/LeaseFacts.thy ===== *)
theory LeaseFacts
  imports LeaseServer
begin

text \<open>
  What the lease operations do.  The keys of the lease bookkeeping and the keys of the store are
  disjoint, so each side keeps what it does not touch (\<open>same_leases\<close>, \<open>store_frame\<close>);
  \<open>lease_inv\<close> is the invariant of the bookkeeping and \<open>att_inv\<close> ties the attachment sets to
  the leases recorded in the values.
\<close>

section \<open>Frames\<close>

definition lease_keys :: "string set" where
  "lease_keys = {leaseIDCounter, leaseSetKey} \<union> range leaseDataKey"

definition same_leases :: "keyspace \<Rightarrow> keyspace \<Rightarrow> bool" where
  "same_leases s s' \<longleftrightarrow> (\<forall>x\<in>lease_keys. vals s' x = vals s x \<and> ttls s' x = ttls s x)"

lemma format_int_no_letter [simp]:
  "format_int i \<noteq> CHR ''k'' # x" "format_int i \<noteq> CHR ''i'' # x"
  "CHR ''k'' # x \<noteq> format_int i" "CHR ''i'' # x \<noteq> format_int i"
proof -
  have *: "is_digit (hd (dec_nat n))" for n
    using list_all_digit_dec_nat[of n] by (cases "dec_nat n") auto
  have "is_digit c \<Longrightarrow> c \<noteq> CHR ''k'' \<and> c \<noteq> CHR ''i''" for c by (auto simp: is_digit_def)
  with *[of "nat i"] have "hd (format_int i) \<noteq> CHR ''k''" "hd (format_int i) \<noteq> CHR ''i''"
    by (auto simp: format_int_def)
  then show "format_int i \<noteq> CHR ''k'' # x" "format_int i \<noteq> CHR ''i'' # x"
    "CHR ''k'' # x \<noteq> format_int i" "CHR ''i'' # x \<noteq> format_int i" by (metis list.sel(1))+
qed

lemma leaseDataKey_inject [simp]: "leaseDataKey a = leaseDataKey b \<longleftrightarrow> a = b"
  by (simp add: leaseDataKey_def)

lemma lease_keys_distinct [simp]:
  "leaseDataKey i \<noteq> leaseIDCounter" "leaseDataKey i \<noteq> leaseSetKey" "leaseIDCounter \<noteq> leaseSetKey"
  "leaseIDCounter \<noteq> leaseDataKey i" "leaseSetKey \<noteq> leaseDataKey i" "leaseSetKey \<noteq> leaseIDCounter"
  "leaseDataKey i \<noteq> lk x" "lk x \<noteq> leaseDataKey i"
  by (simp_all add: leaseDataKey_def leaseIDCounter_def leaseSetKey_def lk_def)

lemma attachment_keys_distinct [simp]:
  "leaseDataKey i \<noteq> leaseKeysSetKey j" "leaseIDCounter \<noteq> leaseKeysSetKey j" "leaseSetKey \<noteq> leaseKeysSetKey j"
  "leaseKeysSetKey j \<noteq> leaseDataKey i" "leaseKeysSetKey j \<noteq> leaseIDCounter" "leaseKeysSetKey j \<noteq> leaseSetKey"
  by (simp_all add: leaseKeysSetKey_def) (simp_all add: lk_def leaseIDCounter_def leaseSetKey_def)

lemma store_keys_not_lease [simp]:
  "redisKey k \<notin> lease_keys" "revisionKey \<notin> lease_keys" "eventStream \<notin> lease_keys" "keyIndex \<notin> lease_keys"
  "lk x \<notin> lease_keys" "lua_lease_key l \<notin> lease_keys" "leaseKeysSetKey l \<notin> lease_keys"
  using lease_keys_distinct(8)
  by (auto simp: lease_keys_def lua_lease_key_lk leaseKeysSetKey_def)
    (auto simp: key_defs leaseDataKey_def leaseIDCounter_def leaseSetKey_def)

text \<open>A change to the lease bookkeeping only is no change to the store.\<close>

lemma store_frame:
  assumes "\<And>x. x \<notin> lease_keys \<Longrightarrow> vals s' x = vals s x"
  shows "abs_store s' = abs_store s" and "store_inv s' = store_inv s"
proof -
  have v: "vals s' (redisKey k) = vals s (redisKey k)" "vals s' revisionKey = vals s revisionKey"
    "vals s' eventStream = vals s eventStream" "vals s' keyIndex = vals s keyIndex"
    "vals s' (lk x) = vals s (lk x)" "vals s' (leaseKeysSetKey l) = vals s (leaseKeysSetKey l)" for k x l
    by (simp_all add: assms)
  show abs: "abs_store s' = abs_store s"
    by (simp add: abs_store_def kv_at_def raw_of_def rev_of_def stream_of_def v fun_eq_iff)
  show "store_inv s' = store_inv s"
    by (simp add: store_inv_def abs) (simp add: rep_ok_def raw_of_def rev_of_def stream_of_def v)
qed

text \<open>A committed write is no change to the lease bookkeeping.\<close>

lemma ks_frames:
  "x \<noteq> k \<Longrightarrow> ttls (ks_put k v s) x = ttls s x" "ttls (ks_upd k v s) x = ttls s x"
  "x \<noteq> k \<Longrightarrow> ttls (ks_del k s) x = ttls s x" "x \<noteq> k \<Longrightarrow> ttls (ks_set k S s) x = ttls s x"
  "x \<noteq> k \<Longrightarrow> ttls (ks_zset k S s) x = ttls s x"
  by (simp_all add: ks_defs)

lemma commit_same_leases: "same_leases s (ks_commit k nb src dst e s)"
proof -
  have "vals (ks_commit k nb src dst e s) x = vals s x \<and> ttls (ks_commit k nb src dst e s) x = ttls s x"
    if x: "x \<in> lease_keys" for x
  proof -
    have n: "x \<noteq> redisKey k" "x \<noteq> revisionKey" "x \<noteq> eventStream" "x \<noteq> keyIndex" "\<And>l. x \<noteq> lua_lease_key l"
      using x store_keys_not_lease by metis+
    then show ?thesis
      by (simp add: ks_commit_def lease_ks_def Let_def ks_frames split: option.split)
  qed
  then show ?thesis by (simp add: same_leases_def)
qed

lemma same_leases_refl [simp]: "same_leases s s"
  by (simp add: same_leases_def)

lemma same_leases_trans: "same_leases s t \<Longrightarrow> same_leases t u \<Longrightarrow> same_leases s u"
  by (simp add: same_leases_def)

section \<open>The invariant of the bookkeeping\<close>

definition counter_of :: "keyspace \<Rightarrow> int" where
  "counter_of s = (case as_str (vals s leaseIDCounter) of None \<Rightarrow> 0
     | Some v \<Rightarrow> (case dec_val v of Some n \<Rightarrow> n | None \<Rightarrow> 0))"

definition live :: "keyspace \<Rightarrow> int \<Rightarrow> bool" where
  "live s i \<longleftrightarrow> vals s (leaseDataKey i) \<noteq> None"

definition lease_inv :: "keyspace \<Rightarrow> bool" where
  "lease_inv s \<longleftrightarrow>
     (vals s leaseIDCounter = None \<or> vals s leaseIDCounter = Some (RString (format_int (counter_of s)))) \<and>
     0 \<le> counter_of s \<and> counter_of s < 2 ^ 63 \<and>
     is_set (vals s leaseSetKey) \<and> as_set (vals s leaseSetKey) \<subseteq> format_int ` {1..counter_of s} \<and>
     (\<forall>i. live s i \<longrightarrow> format_int i \<in> as_set (vals s leaseSetKey) \<and>
        (\<exists>ttl t. vals s (leaseDataKey i) = Some (RString (format_int ttl)) \<and>
           ttls s (leaseDataKey i) = Some t \<and> 0 < t \<and> t \<le> ttl \<and> ttl \<le> 9223372036))"

lemma same_leases_inv: "same_leases s s' \<Longrightarrow> lease_inv s' = lease_inv s \<and> (\<forall>i. live s' i = live s i)"
proof -
  assume "same_leases s s'"
  then have "vals s' leaseIDCounter = vals s leaseIDCounter" "vals s' leaseSetKey = vals s leaseSetKey"
    "vals s' (leaseDataKey i) = vals s (leaseDataKey i)" "ttls s' (leaseDataKey i) = ttls s (leaseDataKey i)" for i
    by (auto simp: same_leases_def lease_keys_def)
  then show ?thesis by (simp add: lease_inv_def counter_of_def live_def)
qed

lemma seconds_exact: "0 < ttl \<Longrightarrow> ttl \<le> 9223372036 \<Longrightarrow> seconds ttl = ttl * second_ns"
  unfolding seconds_def by (rule wrap64_id) auto

lemma lease_inv_init: "lease_inv init_keyspace"
proof -
  have "revisionKey \<noteq> leaseIDCounter" "revisionKey \<noteq> leaseSetKey" "revisionKey \<noteq> leaseDataKey i" for i
    by (simp_all add: revisionKey_def leaseIDCounter_def leaseSetKey_def leaseDataKey_def)
  then have "vals init_keyspace leaseIDCounter = None" "vals init_keyspace leaseSetKey = None"
    "vals init_keyspace (leaseDataKey i) = None" for i
    by (simp_all add: init_keyspace_def eq_commute)
  then show ?thesis by (simp add: lease_inv_def counter_of_def live_def)
qed

section \<open>The operations\<close>

definition granted :: "int \<Rightarrow> int \<Rightarrow> keyspace \<Rightarrow> keyspace" where
  "granted i ttl s =
     ks_set leaseSetKey (insert (format_int i) (as_set (vals s leaseSetKey)))
       (ks_ttl (leaseDataKey i) ttl (ks_put (leaseDataKey i) (RString (format_int ttl))
         (ks_upd leaseIDCounter (RString (format_int i)) s)))"

lemma vals_granted:
  "vals (granted i ttl s) x =
     (if x = leaseSetKey then Some (RSet (insert (format_int i) (as_set (vals s leaseSetKey))))
      else if x = leaseDataKey i then Some (RString (format_int ttl))
      else if x = leaseIDCounter then Some (RString (format_int i)) else vals s x)"
  by (simp add: granted_def ks_set_def)

lemma ttls_granted:
  "ttls (granted i ttl s) x =
     (if x = leaseDataKey i then Some ttl else ttls s x)"
  by (simp add: granted_def ks_defs)

lemma lease_inv_granted:
  assumes "lease_inv s" and "0 < ttl" and "ttl \<le> 9223372036" and "counter_of s < 9223372036854775807"
  shows "lease_inv (granted (counter_of s + 1) ttl s)" and "\<not> live s (counter_of s + 1)"
    and "format_int (counter_of s + 1) \<notin> as_set (vals s leaseSetKey)"
proof -
  let ?i = "counter_of s + 1" and ?s = "granted (counter_of s + 1) ttl s"
  have sub: "as_set (vals s leaseSetKey) \<subseteq> format_int ` {1..counter_of s}" and c: "0 \<le> counter_of s"
    and lv: "\<And>i. live s i \<Longrightarrow> format_int i \<in> as_set (vals s leaseSetKey) \<and>
        (\<exists>ttl t. vals s (leaseDataKey i) = Some (RString (format_int ttl)) \<and>
           ttls s (leaseDataKey i) = Some t \<and> 0 < t \<and> t \<le> ttl \<and> ttl \<le> 9223372036)"
    using assms(1) unfolding lease_inv_def by blast+
  show new: "format_int ?i \<notin> as_set (vals s leaseSetKey)" using sub by auto
  then show "\<not> live s ?i" using lv by blast
  have cnt: "counter_of ?s = ?i" by (simp add: counter_of_def vals_granted)
  have "insert (format_int ?i) (as_set (vals s leaseSetKey)) \<subseteq> format_int ` {1..?i}" using sub c by auto
  moreover have "live ?s j \<Longrightarrow> format_int j \<in> insert (format_int ?i) (as_set (vals s leaseSetKey)) \<and>
        (\<exists>ttl t. vals ?s (leaseDataKey j) = Some (RString (format_int ttl)) \<and>
           ttls ?s (leaseDataKey j) = Some t \<and> 0 < t \<and> t \<le> ttl \<and> ttl \<le> 9223372036)" for j
    using lv[of j] assms(2,3) by (cases "j = ?i") (simp_all add: live_def vals_granted ttls_granted)
  ultimately show "lease_inv ?s"
    using c assms(4) unfolding lease_inv_def cnt by (simp add: vals_granted)
qed

context redis_store
begin

lemma LeaseGrant_ok:
  assumes inv: "lease_inv (view (db w))" and ttl: "0 < ttl" "ttl \<le> 9223372036"
    and lim: "counter_of (view (db w)) < 9223372036854775807"
  shows "fst (LeaseGrant r ttl w) = Inr (counter_of (view (db w)) + 1)"
    and "view (db (snd (LeaseGrant r ttl w))) = granted (counter_of (view (db w)) + 1) ttl (view (db w))"
    and "snk (snd (LeaseGrant r ttl w)) = snk w"
proof -
  define s where "s = view (db w)"
  let ?i = "counter_of s + 1"
  define d1 where "d1 = snd (r_INCR (rs_redis r) leaseIDCounter (db w))"
  have "vals s leaseIDCounter = None \<or> vals s leaseIDCounter = Some (RString (format_int (counter_of s)))"
    using inv by (simp add: lease_inv_def s_def)
  then have incr: "fst (r_INCR (rs_redis r) leaseIDCounter (db w)) = Inr ?i \<and>
      view d1 = ks_upd leaseIDCounter (RString (format_int ?i)) s"
  proof
    assume n: "vals s leaseIDCounter = None"
    then have "counter_of s = 0" by (simp add: counter_of_def)
    with n INCR_new[of "db w" leaseIDCounter] show ?thesis by (simp add: d1_def s_def)
  next
    assume "vals s leaseIDCounter = Some (RString (format_int (counter_of s)))"
    with INCR[of "db w" leaseIDCounter "counter_of s"] lim show ?thesis by (simp add: d1_def s_def)
  qed
  define d2 where "d2 = snd (r_SETEX (rs_redis r) (leaseDataKey ?i) (format_int ttl) (seconds ttl) d1)"
  have setex: "fst (r_SETEX (rs_redis r) (leaseDataKey ?i) (format_int ttl) (seconds ttl) d1) = Inr () \<and>
      view d2 = ks_ttl (leaseDataKey ?i) ttl (ks_put (leaseDataKey ?i) (RString (format_int ttl)) (view d1))"
    using ttl by (simp add: d2_def SETEX seconds_exact)
  have set: "is_set (vals s leaseSetKey)" using inv by (simp add: lease_inv_def s_def)
  then have "is_set (vals (view d2) leaseSetKey)" "as_set (vals (view d2) leaseSetKey) = as_set (vals s leaseSetKey)"
    using setex incr by simp_all
  then have sadd: "fst (r_SADD (rs_redis r) leaseSetKey (format_int ?i) d2) = Inr ()"
    "view (snd (r_SADD (rs_redis r) leaseSetKey (format_int ?i) d2)) = granted ?i ttl s"
    using setex incr by (simp_all add: SADD granted_def)
  show "fst (LeaseGrant r ttl w) = Inr (counter_of (view (db w)) + 1)"
    "view (db (snd (LeaseGrant r ttl w))) = granted (counter_of (view (db w)) + 1) ttl (view (db w))"
    "snk (snd (LeaseGrant r ttl w)) = snk w"
    unfolding s_def[symmetric]
    using incr setex sadd
    by (simp_all add: LeaseGrant_def step call_ok pipeline2_def roundtrip_ok pipe2_def split_beta Let_def
        d1_def[symmetric] d2_def[symmetric])
qed

lemma LeaseRenew_missing:
  assumes "\<not> live (view (db w)) i"
  shows "fst (LeaseRenew r i w) = Inl (LeaseNotFound i)" and "view (db (snd (LeaseRenew r i w))) = view (db w)"
  using assms by (simp_all add: LeaseRenew_def step call_ok GET live_def)

lemma LeaseRenew_ok:
  assumes inv: "lease_inv (view (db w))" and lv: "live (view (db w)) i"
  obtains ttl where "vals (view (db w)) (leaseDataKey i) = Some (RString (format_int ttl))"
    and "0 < ttl" and "ttl \<le> 9223372036" and "fst (LeaseRenew r i w) = Inr ttl"
    and "view (db (snd (LeaseRenew r i w))) = ks_ttl (leaseDataKey i) ttl (view (db w))"
proof -
  obtain ttl t where t: "vals (view (db w)) (leaseDataKey i) = Some (RString (format_int ttl))"
    "0 < t" "t \<le> ttl" "ttl \<le> 9223372036"
    using inv lv unfolding lease_inv_def by blast
  have "ParseInt (format_int ttl) = (ttl, None)" using t by (intro ParseInt_format_int) auto
  with t that[of ttl] show ?thesis
    by (simp add: LeaseRenew_def step call_ok GET seconds_exact EXPIRE)
qed

lemma LeaseTimeToLive_ok:
  assumes inv: "lease_inv (view (db w))"
  shows "fst (LeaseTimeToLive r i w) =
      (if live (view (db w)) i
       then Inr (the (dec_val (the (as_str (vals (view (db w)) (leaseDataKey i))))), the (ttls (view (db w)) (leaseDataKey i)))
       else Inr (0, - 1))"
    and "view (db (snd (LeaseTimeToLive r i w))) = view (db w)"
proof -
  have "fst (LeaseTimeToLive r i w) =
      (if live (view (db w)) i
       then Inr (the (dec_val (the (as_str (vals (view (db w)) (leaseDataKey i))))), the (ttls (view (db w)) (leaseDataKey i)))
       else Inr (0, - 1)) \<and> view (db (snd (LeaseTimeToLive r i w))) = view (db w)"
  proof (cases "live (view (db w)) i")
    case False
    then show ?thesis by (simp add: LeaseTimeToLive_def step call_ok GET live_def)
  next
    case True
    then obtain ttl t where t: "vals (view (db w)) (leaseDataKey i) = Some (RString (format_int ttl))"
      "ttls (view (db w)) (leaseDataKey i) = Some t" "0 < t" "t \<le> ttl" "ttl \<le> 9223372036"
      using inv unfolding lease_inv_def by blast
    have "ParseInt (format_int ttl) = (ttl, None)" using t by (intro ParseInt_format_int) auto
    with t True show ?thesis
      by (simp add: LeaseTimeToLive_def step call_ok GET TTL_some whole_seconds_def sgn_if)
  qed
  then show "fst (LeaseTimeToLive r i w) =
      (if live (view (db w)) i
       then Inr (the (dec_val (the (as_str (vals (view (db w)) (leaseDataKey i))))), the (ttls (view (db w)) (leaseDataKey i)))
       else Inr (0, - 1))" "view (db (snd (LeaseTimeToLive r i w))) = view (db w)" by blast+
qed

lemma Delete_any:
  assumes inv: "store_inv (view (db w))" and lim: "rev_of (view (db w)) < rev_limit"
  shows "\<not> isl (fst (Delete r k w))" and "store_inv (view (db (snd (Delete r k w))))"
    and "abs_store (view (db (snd (Delete r k w)))) = mvcc_delete k (abs_store (view (db w)))"
    and "same_leases (view (db w)) (view (db (snd (Delete r k w))))"
proof -
  have "\<not> isl (fst (Delete r k w)) \<and> store_inv (view (db (snd (Delete r k w)))) \<and>
    abs_store (view (db (snd (Delete r k w)))) = mvcc_delete k (abs_store (view (db w))) \<and>
    same_leases (view (db w)) (view (db (snd (Delete r k w))))"
  proof (cases "kv_at (view (db w)) k")
    case None
    with Delete_absent[OF inv None] inv show ?thesis by (simp add: untouched_def mvcc_delete_def)
  next
    case (Some kv)
    then obtain b where raw: "raw_of (view (db w)) k = Some b" using raw_kv_None[OF inv, of k] by auto
    obtain i d' where "write_lua (rs_redis r) (redisKey k) revisionKey eventStream keyIndex ''DELETE'' [] (format_int 0) (db w) =
      (Inr [RBulk (format_int (rev_of (view (db w)) + 1)), RBulk b, RBulk [], RBulk (sid_str i)], d')"
      and d': "view d' = ks_commit k None (lease_of (kv_at (view (db w)) k)) 0 (i, del_fields k (rev_of (view (db w)) + 1) b) (view (db w))"
      using write_lua_delete[OF inv lim raw, of "[]" "format_int 0"] by blast
    then have "db (snd (Delete r k w)) = d'"
      by (simp add: Delete_def step writeScript_def call_ok Let_def emit_def split: option.split)
    with Delete_ok[OF inv lim Some] d' commit_same_leases show ?thesis by (simp add: committed_def)
  qed
  then show "\<not> isl (fst (Delete r k w))" "store_inv (view (db (snd (Delete r k w))))"
    "abs_store (view (db (snd (Delete r k w)))) = mvcc_delete k (abs_store (view (db w)))"
    "same_leases (view (db w)) (view (db (snd (Delete r k w))))" by blast+
qed

lemma Put_same_leases:
  assumes inv: "store_inv (view (db w))" and lim: "rev_of (view (db w)) < rev_limit" and l: "lease_ok l"
  shows "same_leases (view (db w)) (view (db (snd (Put r k v l w))))"
proof -
  obtain d' res nb src dst e where "write_lua (rs_redis r) (redisKey k) revisionKey eventStream keyIndex ''PUT'' v (format_int l) (db w) =
      (Inr res, d')" and d': "view d' = ks_commit k nb src dst e (view (db w))"
    using write_lua_put[OF inv lim l, of k v] by blast
  then have "db (snd (Put r k v l w)) = d'"
    by (simp add: Put_def step writeScript_def call_ok Let_def emit_def split: option.split)
  with d' commit_same_leases show ?thesis by simp
qed

lemma Txn_same_leases:
  assumes inv: "store_inv (view (db w))" and lim: "rev_of (view (db w)) < rev_limit" and l: "lease_ok l"
    and cas: "cas_ok e (kv_at (view (db w)) k)"
  shows "same_leases (view (db w)) (view (db (snd (Txn r k e ''PUT'' v l w))))"
proof -
  obtain i d' nb src dst en where run: "txn_lua (rs_redis r) (redisKey k) revisionKey eventStream keyIndex (format_int e) v ''PUT'' (format_int l) (db w) =
      (Inr [RInt 1, RBulk (raw_or_empty (view (db w)) k), RBulk (format_int (rev_of (view (db w)) + 1)),
            RBulk (put_blob k v l (view (db w))), RBulk (sid_str i)], d')"
    and d': "view d' = ks_commit k nb src dst en (view (db w))"
    using txn_lua_put[OF inv lim l cas, of v] by blast
  have "db (snd (Txn r k e ''PUT'' v l w)) = d'"
    using rev_below[OF inv lim] store_invD(3)[OF inv]
    by (simp add: Txn_def step call_ok run txn_succeeded_def txn_revision_def ParseInt_format_int Let_def emit_def
        split: option.split)
  with d' commit_same_leases show ?thesis by simp
qed

lemma finite_dom_abs: "store_inv s \<Longrightarrow> finite (dom (m_kv (abs_store s)))"
  using finite_kvs[of s "\<lambda>_. True"] by (simp add: dom_def)

lemma budget_room: "store_inv s \<Longrightarrow> budget (abs_store s) < rev_limit \<Longrightarrow> rev_of s < rev_limit"
  by (simp add: budget_def)

lemma reap_keys_ok:
  assumes "store_inv (view (db w))" and "budget (abs_store (view (db w))) < rev_limit"
  shows "store_inv (view (db (reap_keys r ks w))) \<and>
    abs_store (view (db (reap_keys r ks w))) = fold mvcc_delete ks (abs_store (view (db w))) \<and>
    budget (abs_store (view (db (reap_keys r ks w)))) = budget (abs_store (view (db w))) \<and>
    same_leases (view (db w)) (view (db (reap_keys r ks w))) \<and>
    revoke_loop r ks w = (Inr (), reap_keys r ks w)"
  using assms
proof (induction ks arbitrary: w)
  case (Cons k ks)
  note d = Delete_any[OF Cons.prems(1) budget_room[OF Cons.prems], of k]
  have b: "budget (abs_store (view (db (snd (Delete r k w))))) = budget (abs_store (view (db w)))"
    unfolding d(3) by (rule budget_delete[OF finite_dom_abs[OF Cons.prems(1)]])
  have "revoke_loop r (k # ks) w = revoke_loop r ks (snd (Delete r k w))"
    using d(1) by (cases "fst (Delete r k w)") (simp_all add: step)
  moreover have "budget (abs_store (view (db (snd (Delete r k w))))) < rev_limit" using b Cons.prems(2) by simp
  note IH = Cons.IH[OF d(2) this]
  ultimately show ?case using IH d(3,4) b same_leases_trans by auto
qed (simp add: step)

end

text \<open>Emptying the attachments of one lease.\<close>

definition without_lease :: "int \<Rightarrow> (bytes \<rightharpoonup> KeyValue) \<Rightarrow> (bytes \<rightharpoonup> KeyValue)" where
  "without_lease i kvs = (\<lambda>k. if lease_of (kvs k) = i then None else kvs k)"

lemma fold_delete_other: "k \<notin> set ks \<Longrightarrow> m_kv (fold mvcc_delete ks m) k = m_kv m k"
  by (induction ks arbitrary: m) (auto simp: mvcc_delete_def mvcc_remove_def split: option.split)

lemma lease_without: "i \<noteq> 0 \<Longrightarrow> lease_of (without_lease i f k) \<noteq> i"
  by (auto simp: without_lease_def lease_of_def split: option.splits)

lemma fold_delete_lease:
  assumes "att_inv m" and "i \<noteq> 0" and "distinct ks" and "set ks = m_att m i"
  defines "m' \<equiv> fold mvcc_delete ks m"
  shows "m_kv m' = without_lease i (m_kv m)" and "m_att m' i = {}" and "att_inv m'"
    and "m_rev m' = m_rev m + int (length ks)"
proof -
  have p: "\<forall>k\<in>set ks. m_kv m k \<noteq> None" using assms(1,2,4) att_present by blast
  note f = fold_delete[OF assms(3) p, folded m'_def]
  have mem: "k \<in> set ks \<longleftrightarrow> lease_of (m_kv m k) = i" for k using assms(1,2,4) by (simp add: att_inv_def)
  show kv: "m_kv m' = without_lease i (m_kv m)" using f mem by (simp add: without_lease_def)
  show att: "att_inv m'" unfolding m'_def by (rule att_inv_fold_delete[OF assms(1)])
  then show "m_att m' i = {}"
    using assms(2) kv lease_without[OF assms(2), of "m_kv m"] by (auto simp: att_inv_def)
  show "m_rev m' = m_rev m + int (length ks)" using f by simp
qed

lemma del_lease_keys:
  "abs_store (ks_del (leaseKeysSetKey i) s) = (abs_store s)\<lparr>m_att := (m_att (abs_store s))(i := {})\<rparr>"
  "store_inv s \<Longrightarrow> store_inv (ks_del (leaseKeysSetKey i) s)"
  "same_leases s (ks_del (leaseKeysSetKey i) s)"
proof -
  let ?s = "ks_del (leaseKeysSetKey i) s"
  have v: "vals ?s (redisKey k) = vals s (redisKey k)" "vals ?s revisionKey = vals s revisionKey"
    "vals ?s eventStream = vals s eventStream" "vals ?s keyIndex = vals s keyIndex" for k
    by simp_all
  show abs: "abs_store ?s = (abs_store s)\<lparr>m_att := (m_att (abs_store s))(i := {})\<rparr>"
    by (simp add: abs_store_def kv_at_def raw_of_def rev_of_def stream_of_def fun_eq_iff)
  have sets: "\<forall>x. is_set (vals s (lk x)) \<and> finite (as_set (vals s (lk x))) \<Longrightarrow>
      \<forall>x. is_set (vals ?s (lk x)) \<and> finite (as_set (vals ?s (lk x)))"
    by (auto simp: leaseKeysSetKey_def)
  have "rep_ok s \<Longrightarrow> rep_ok ?s"
    unfolding rep_ok_def rev_of_def raw_of_def stream_of_def v using sets by blast
  then show "store_inv s \<Longrightarrow> store_inv ?s"
    by (simp add: store_inv_def abs mvcc_inv_att)
  have "x \<in> lease_keys \<Longrightarrow> x \<noteq> leaseKeysSetKey i" for x by auto
  then show "same_leases s ?s" by (simp add: same_leases_def ks_frames)
qed

text \<open>A lease leaves the bookkeeping.\<close>

definition lease_gone :: "int \<Rightarrow> keyspace \<Rightarrow> keyspace \<Rightarrow> bool" where
  "lease_gone i s s' \<longleftrightarrow>
     vals s' leaseIDCounter = vals s leaseIDCounter \<and> is_set (vals s' leaseSetKey) \<and>
     as_set (vals s' leaseSetKey) = as_set (vals s leaseSetKey) - {format_int i} \<and>
     vals s' (leaseDataKey i) = None \<and>
     (\<forall>j. j \<noteq> i \<longrightarrow> vals s' (leaseDataKey j) = vals s (leaseDataKey j) \<and> ttls s' (leaseDataKey j) = ttls s (leaseDataKey j))"

lemma lease_gone_inv:
  assumes "lease_inv s" and "lease_gone i s s'"
  shows "lease_inv s'" and "live s' j \<longleftrightarrow> live s j \<and> j \<noteq> i"
proof -
  note g = assms(2)[unfolded lease_gone_def]
  have c: "counter_of s' = counter_of s" using g by (simp add: counter_of_def)
  show live: "live s' j \<longleftrightarrow> live s j \<and> j \<noteq> i" for j using g by (cases "j = i") (simp_all add: live_def)
  have 1: "vals s' leaseIDCounter = None \<or> vals s' leaseIDCounter = Some (RString (format_int (counter_of s)))"
    and 2: "0 \<le> counter_of s" "counter_of s < 2 ^ 63"
    and 3: "as_set (vals s leaseSetKey) \<subseteq> format_int ` {1..counter_of s}"
    and 4: "live s j \<Longrightarrow> format_int j \<in> as_set (vals s leaseSetKey) \<and>
        (\<exists>ttl t. vals s (leaseDataKey j) = Some (RString (format_int ttl)) \<and>
           ttls s (leaseDataKey j) = Some t \<and> 0 < t \<and> t \<le> ttl \<and> ttl \<le> 9223372036)" for j
    using assms(1) g unfolding lease_inv_def by auto
  have 5: "live s' j \<Longrightarrow> format_int j \<in> as_set (vals s' leaseSetKey) \<and>
        (\<exists>ttl t. vals s' (leaseDataKey j) = Some (RString (format_int ttl)) \<and>
           ttls s' (leaseDataKey j) = Some t \<and> 0 < t \<and> t \<le> ttl \<and> ttl \<le> 9223372036)" for j
    using 4[of j] g live[of j] by simp
  have sub: "as_set (vals s' leaseSetKey) \<subseteq> format_int ` {1..counter_of s}" using 3 g by auto
  show "lease_inv s'"
    unfolding lease_inv_def c using 1 2 5 sub g by (intro conjI allI impI) blast+
qed

lemma lease_gone_after:
  assumes "same_leases s t" and "\<not> live s i \<or> dead"
    and "is_set (vals s leaseSetKey)"
  shows "lease_gone i s (ks_set leaseSetKey (as_set (vals t leaseSetKey) - {format_int i})
      (ks_del (leaseKeysSetKey i) (if dead then ks_del (leaseDataKey i) t else t)))"
proof -
  have t: "vals t leaseIDCounter = vals s leaseIDCounter" "vals t leaseSetKey = vals s leaseSetKey"
    "vals t (leaseDataKey j) = vals s (leaseDataKey j)" "ttls t (leaseDataKey j) = ttls s (leaseDataKey j)" for j
    using assms(1) by (auto simp: same_leases_def lease_keys_def)
  show ?thesis
    using assms(2) by (cases dead) (auto simp: lease_gone_def t live_def ks_frames)
qed

lemma lease_change_frame:
  assumes "\<And>x. x \<notin> lease_keys \<Longrightarrow> vals u x = vals (ks_del (leaseKeysSetKey i) t) x"
    and "store_inv t" and "m_att (abs_store t) i = {}"
  shows "store_inv u" and "abs_store u = abs_store t"
proof -
  have "abs_store (ks_del (leaseKeysSetKey i) t) = abs_store t"
    unfolding del_lease_keys(1) using assms(3) by (cases "abs_store t") (simp add: fun_eq_iff)
  with store_frame[of u "ks_del (leaseKeysSetKey i) t", OF assms(1)] del_lease_keys(2)[OF assms(2), of i]
  show "store_inv u" "abs_store u = abs_store t" by simp_all
qed

lemma listed_leases:
  assumes "set ids \<subseteq> format_int ` {1..n}"
  obtains "is" where "ids = map format_int is" and "\<forall>i\<in>set is. 1 \<le> i \<and> i \<le> n"
proof -
  have "ids \<in> lists (format_int ` {1..n})" using assms by auto
  then obtain "is" where "is \<in> lists {1..n}" "ids = map format_int is" unfolding lists_image by blast
  then show thesis by (intro that) auto
qed

context redis_store
begin

lemma lease_members:
  assumes "store_inv (view (db w))"
  obtains ks where "r_SMEMBERS (rs_redis r) (leaseKeysSetKey i) (db w) = Inr ks" and "distinct ks"
    and "set ks = m_att (abs_store (view (db w))) i"
proof -
  have "is_set (vals (view (db w)) (leaseKeysSetKey i))" "finite (as_set (vals (view (db w)) (leaseKeysSetKey i)))"
    using assms unfolding store_inv_def rep_ok_def leaseKeysSetKey_def by blast+
  from SMEMBERS[OF this] that show ?thesis by (auto simp: abs_store_def)
qed

lemma LeaseRevoke_gen:
  fixes i :: int
  assumes inv: "store_inv (view (db w))" "lease_inv (view (db w))"
    and b: "budget (abs_store (view (db w))) < rev_limit"
  defines "m \<equiv> abs_store (view (db w))" and "s' \<equiv> view (db (snd (LeaseRevoke r i w)))"
  obtains ks where "distinct ks" and "set ks = m_att m i" and "fst (LeaseRevoke r i w) = Inr ()"
    and "store_inv s'" and "lease_gone i (view (db w)) s'"
    and "abs_store s' = (fold mvcc_delete ks m)\<lparr>m_att := (m_att (fold mvcc_delete ks m))(i := {})\<rparr>"
proof -
  obtain ks where ks: "r_SMEMBERS (rs_redis r) (leaseKeysSetKey i) (db w) = Inr ks" "distinct ks" "set ks = m_att m i"
    using lease_members[OF inv(1)] unfolding m_def by blast
  define w1 where "w1 = w\<lparr>net := snd (rs_net r (net w))\<rparr>"
  have w1: "db w1 = db w" by (simp add: w1_def)
  define w2 where "w2 = reap_keys r ks w1"
  note rk = reap_keys_ok[of w1 ks, unfolded w1, OF inv(1) b, folded w2_def]
  define t where "t = view (db w2)"
  have t: "store_inv t" "abs_store t = fold mvcc_delete ks m" "same_leases (view (db w)) t"
    using rk by (simp_all add: t_def m_def)
  have S: "is_set (vals t leaseSetKey)" "vals t leaseSetKey = vals (view (db w)) leaseSetKey"
    using inv(2) t(3) by (auto simp: lease_inv_def same_leases_def lease_keys_def)
  define u where "u = ks_set leaseSetKey (as_set (vals t leaseSetKey) - {format_int i})
      (ks_del (leaseKeysSetKey i) (ks_del (leaseDataKey i) t))"
  have run: "fst (LeaseRevoke r i w) = Inr () \<and> s' = u"
    using ks(1) rk S(1)
    by (simp add: LeaseRevoke_def step call_ok w1_def[symmetric] pipeline3_def roundtrip_ok split_beta Let_def DEL SREM
        s'_def u_def t_def[symmetric])
  have "x \<notin> lease_keys \<Longrightarrow> vals u x = vals (ks_del (leaseKeysSetKey i) t) x" for x
    by (auto simp: u_def lease_keys_def)
  from store_frame[of u "ks_del (leaseKeysSetKey i) t", OF this] del_lease_keys(1,2)[where i = i and s = t] t(1,2)
  have u: "store_inv u" "abs_store u = (fold mvcc_delete ks m)\<lparr>m_att := (m_att (fold mvcc_delete ks m))(i := {})\<rparr>"
    by simp_all
  have "lease_gone i (view (db w)) u"
    using lease_gone_after[OF t(3), of i True] S by (simp add: u_def)
  with run u ks that show ?thesis by simp
qed

lemma LeaseRevoke_ok:
  assumes inv: "store_inv (view (db w))" "lease_inv (view (db w))" "att_inv (abs_store (view (db w)))"
    and b: "budget (abs_store (view (db w))) < rev_limit" and i: "i \<noteq> 0"
  defines "m \<equiv> abs_store (view (db w))" and "s' \<equiv> view (db (snd (LeaseRevoke r i w)))"
  shows "fst (LeaseRevoke r i w) = Inr () \<and> store_inv s' \<and> lease_gone i (view (db w)) s' \<and>
    m_kv (abs_store s') = without_lease i (m_kv m) \<and> att_inv (abs_store s') \<and>
    m_rev (abs_store s') = m_rev m + int (card {k. lease_of (m_kv m k) = i})"
proof -
  obtain ks where ks: "distinct ks" "set ks = m_att m i" "fst (LeaseRevoke r i w) = Inr ()" "store_inv s'"
    "lease_gone i (view (db w)) s'"
    "abs_store s' = (fold mvcc_delete ks m)\<lparr>m_att := (m_att (fold mvcc_delete ks m))(i := {})\<rparr>"
    using LeaseRevoke_gen[OF inv(1,2) b, where i = i] unfolding m_def s'_def by blast
  note fd = fold_delete_lease[OF inv(3)[folded m_def] i ks(1,2)]
  have "abs_store s' = fold mvcc_delete ks m"
    unfolding ks(6) using fd(2) by (cases "fold mvcc_delete ks m") (simp add: fun_eq_iff)
  moreover have "m_att m i = {k. lease_of (m_kv m k) = i}" using inv(3) i by (auto simp: att_inv_def m_def)
  then have "length ks = card {k. lease_of (m_kv m k) = i}" using ks(1,2) distinct_card by fastforce
  ultimately show ?thesis using ks fd by simp
qed

definition lease_world :: "('d, 'n, 'x) world \<Rightarrow> bool" where
  "lease_world w \<longleftrightarrow> store_inv (view (db w)) \<and> lease_inv (view (db w)) \<and> att_inv (abs_store (view (db w))) \<and>
     budget (abs_store (view (db w))) < rev_limit"

lemma reap_lease_ok:
  assumes P: "lease_world w" and i: "1 \<le> i" "i \<le> counter_of (view (db w))"
  defines "s \<equiv> view (db w)" and "s' \<equiv> view (db (reap_lease r (format_int i) w))"
  shows "lease_world (reap_lease r (format_int i) w) \<and>
    (if live s i then s' = s
     else lease_gone i s s' \<and> m_kv (abs_store s') = without_lease i (m_kv (abs_store s)))"
proof -
  have inv: "store_inv s" "lease_inv s" "att_inv (abs_store s)" "budget (abs_store s) < rev_limit"
    using P by (simp_all add: lease_world_def s_def)
  have "i < 2 ^ 63" using i inv(2) unfolding lease_inv_def s_def by simp
  then have parse: "ParseInt (format_int i) = (i, None)" using i by (intro ParseInt_format_int) auto
  define w1 where "w1 = w\<lparr>net := snd (rs_net r (net w))\<rparr>"
  have w1: "db w1 = db w" by (simp add: w1_def)
  show ?thesis
  proof (cases "live s i")
    case True
    then have "reap_lease r (format_int i) w = w1"
      by (auto simp: reap_lease_def parse call_ok step EXISTS live_def s_def w1_def)
    with True P w1 show ?thesis by (simp add: lease_world_def s'_def s_def)
  next
    case False
    obtain ks where ks: "r_SMEMBERS (rs_redis r) (leaseKeysSetKey i) (db w) = Inr ks" "distinct ks" "set ks = m_att (abs_store s) i"
      using lease_members[OF inv(1)[unfolded s_def]] unfolding s_def by blast
    define w2 where "w2 = w1\<lparr>net := snd (rs_net r (net w1))\<rparr>"
    have w2: "db w2 = db w" by (simp add: w2_def w1_def)
    define w3 where "w3 = reap_keys r ks w2"
    note rk = reap_keys_ok[of w2 ks, unfolded w2, OF inv(1,4)[unfolded s_def], folded w3_def]
    have i0: "i \<noteq> 0" using i by simp
    note fd = fold_delete_lease[OF inv(3) i0 ks(2,3)]
    define t where "t = view (db w3)"
    have t: "store_inv t" "abs_store t = fold mvcc_delete ks (abs_store s)" "same_leases s t"
      using rk by (simp_all add: t_def s_def)
    have S: "is_set (vals t leaseSetKey)" "is_set (vals s leaseSetKey)"
      using inv(2) t(3) by (auto simp: lease_inv_def same_leases_def lease_keys_def)
    define u where "u = ks_set leaseSetKey (as_set (vals t leaseSetKey) - {format_int i}) (ks_del (leaseKeysSetKey i) t)"
    have run: "s' = u"
      using ks(1) False S(1)
      by (simp add: reap_lease_def parse call_ok step EXISTS live_def s'_def s_def w1_def[symmetric] w2_def[symmetric]
          w3_def[symmetric] w1 Let_def DEL SREM u_def t_def[symmetric])
    have "m_att (abs_store t) i = {}" unfolding t(2) using fd(2) .
    moreover have "x \<notin> lease_keys \<Longrightarrow> vals u x = vals (ks_del (leaseKeysSetKey i) t) x" for x
      by (auto simp: u_def lease_keys_def)
    ultimately have u: "store_inv u" "abs_store u = fold mvcc_delete ks (abs_store s)"
      using lease_change_frame[of u i t] t(1,2) by auto
    have gone: "lease_gone i s u" using lease_gone_after[OF t(3), of i False] False S by (simp add: u_def)
    have "budget (abs_store u) < rev_limit" using u(2) t(2) rk inv(4) by (metis s_def t_def)
    with u fd gone lease_gone_inv(1)[OF inv(2) gone] run False show ?thesis
      by (simp add: lease_world_def s'_def)
  qed
qed

lemma reap_loop_ok:
  assumes "lease_world w" and "\<forall>i\<in>set is. 1 \<le> i \<and> i \<le> counter_of (view (db w))"
  defines "s \<equiv> view (db w)" and "s' \<equiv> view (db (reap_loop r (map format_int is) w))"
  shows "lease_world (reap_loop r (map format_int is) w) \<and> (\<forall>j. live s' j = live s j) \<and>
    as_set (vals s' leaseSetKey) = as_set (vals s leaseSetKey) - format_int ` {i \<in> set is. \<not> live s i} \<and>
    m_kv (abs_store s') = (\<lambda>k. if lease_of (m_kv (abs_store s) k) \<in> {i \<in> set is. \<not> live s i} then None else m_kv (abs_store s) k)"
  using assms(1,2) unfolding s_def s'_def
proof (induction "is" arbitrary: w)
  case (Cons i "is")
  define w1 where "w1 = reap_lease r (format_int i) w"
  define s where "s = view (db w)"
  define t where "t = view (db w1)"
  have i: "1 \<le> i" "i \<le> counter_of s" using Cons.prems(2) by (simp_all add: s_def)
  note one = reap_lease_ok[OF Cons.prems(1) i[unfolded s_def], folded w1_def, folded s_def t_def]
  have li: "lease_inv s" using Cons.prems(1) by (simp add: lease_world_def s_def)
  have step: "\<forall>j. live t j = live s j"
    "as_set (vals t leaseSetKey) = as_set (vals s leaseSetKey) - (if live s i then {} else {format_int i})"
    "m_kv (abs_store t) = (if live s i then m_kv (abs_store s) else without_lease i (m_kv (abs_store s)))"
    "counter_of t = counter_of s"
    using one lease_gone_inv(2)[OF li, of i t] by (auto simp: lease_gone_def counter_of_def split: if_splits)
  have "\<forall>i\<in>set is. 1 \<le> i \<and> i \<le> counter_of (view (db w1))"
    using Cons.prems(2) step(4) by (simp add: t_def s_def)
  note IH = Cons.IH[OF conjunct1[OF one] this, folded t_def]
  have kv: "(\<lambda>k. if lease_of (m_kv (abs_store t) k) \<in> {j \<in> set is. \<not> live t j} then None else m_kv (abs_store t) k) =
      (\<lambda>k. if lease_of (m_kv (abs_store s) k) \<in> {j \<in> set (i # is). \<not> live s j} then None else m_kv (abs_store s) k)"
    using step(1,3) by (auto simp: without_lease_def fun_eq_iff lease_of_def split: if_splits)
  show ?case
    using IH step(1,2) unfolding kv s_def[symmetric] by (auto simp: w1_def[symmetric])
qed simp

lemma reapExpiredLeases_ok:
  assumes P: "lease_world w" and fin: "finite (as_set (vals (view (db w)) leaseSetKey))"
  defines "s \<equiv> view (db w)" and "s' \<equiv> view (db (reapExpiredLeases r w))"
  defines "expired \<equiv> {i. format_int i \<in> as_set (vals s leaseSetKey) \<and> \<not> live s i}"
  shows "lease_world (reapExpiredLeases r w) \<and> (\<forall>j. live s' j = live s j) \<and>
    as_set (vals s' leaseSetKey) = as_set (vals s leaseSetKey) - format_int ` expired \<and>
    m_kv (abs_store s') = (\<lambda>k. if lease_of (m_kv (abs_store s) k) \<in> expired then None else m_kv (abs_store s) k)"
proof -
  have li: "is_set (vals s leaseSetKey)" "as_set (vals s leaseSetKey) \<subseteq> format_int ` {1..counter_of s}"
    using P unfolding lease_world_def lease_inv_def s_def by blast+
  obtain ids where ids: "r_SMEMBERS (rs_redis r) leaseSetKey (db w) = Inr ids" "set ids = as_set (vals s leaseSetKey)"
    using SMEMBERS[of "db w" leaseSetKey] li(1) fin by (auto simp: s_def)
  then obtain "is" where is1: "ids = map format_int is" and is2: "\<forall>i\<in>set is. 1 \<le> i \<and> i \<le> counter_of s"
    using listed_leases[of ids "counter_of s"] li(2) by metis
  define w1 where "w1 = w\<lparr>net := snd (rs_net r (net w))\<rparr>"
  have w1: "db w1 = db w" "lease_world w1" using P by (simp_all add: w1_def lease_world_def)
  have e: "expired = {i \<in> set is. \<not> live s i}" by (auto simp: expired_def ids(2)[symmetric] is1)
  have "reapExpiredLeases r w = reap_loop r (map format_int is) w1"
    using ids(1) is1 by (simp add: reapExpiredLeases_def call_ok step w1_def)
  then show ?thesis
    using reap_loop_ok[OF w1(2), of "is"] is2 unfolding e s_def s'_def w1(1) by simp
qed

end

end
