(* ===== verification/LeaseProps.thy ===== *)
theory LeaseProps
  imports LeaseFacts
begin

text \<open>The properties of leases and of the Lease service.\<close>

text \<open>Granting.  The service grants the requested time to live, or 30 seconds where it is not
  positive, under an ID that no lease had before; the lease is recorded with exactly that time to
  live, the bookkeeping invariant is kept and the stored keys are not touched.\<close>

theorem LeaseGrant_fresh:
  assumes "redis_store r view newid" and "lease_inv (view (db w))" and "req \<le> 9223372036"
    and "counter_of (view (db w)) < 9223372036854775807"
  defines "ttl \<equiv> (if req \<le> 0 then 30 else req)" and "i \<equiv> counter_of (view (db w)) + 1"
    and "s' \<equiv> view (db (snd (LeaseServer_Grant r req w)))"
  shows "fst (LeaseServer_Grant r req w) = Inr \<lparr>LG_Header = hdr 0, LG_ID = i, LG_TTL = ttl\<rparr> \<and>
    \<not> live (view (db w)) i \<and> format_int i \<notin> as_set (vals (view (db w)) leaseSetKey) \<and>
    lease_inv s' \<and> live s' i \<and> ttls s' (leaseDataKey i) = Some ttl \<and>
    abs_store s' = abs_store (view (db w)) \<and> store_inv s' = store_inv (view (db w))"
proof -
  have t: "0 < ttl" "ttl \<le> 9223372036" using assms(3) by (simp_all add: ttl_def)
  note g = redis_store.LeaseGrant_ok[OF assms(1,2) t assms(4), folded i_def]
  note n = lease_inv_granted[OF assms(2) t assms(4), folded i_def]
  have s': "s' = granted i ttl (view (db w))" and f: "fst (LeaseServer_Grant r req w) = Inr \<lparr>LG_Header = hdr 0, LG_ID = i, LG_TTL = ttl\<rparr>"
    using g by (simp_all add: s'_def LeaseServer_Grant_def Let_def step ttl_def[symmetric])
  have "x \<notin> lease_keys \<Longrightarrow> vals (granted i ttl (view (db w))) x = vals (view (db w)) x" for x
    by (auto simp: vals_granted lease_keys_def)
  from store_frame[OF this] show ?thesis
    using n f by (simp add: s' live_def vals_granted ttls_granted)
qed

theorem LeaseGrant_fresh_witness:
  "fst (LeaseServer_Grant ref_store 0 ref_world) = Inr \<lparr>LG_Header = hdr 0, LG_ID = 1, LG_TTL = 30\<rparr>"
proof -
  have "revisionKey \<noteq> leaseIDCounter" by (simp add: revisionKey_def leaseIDCounter_def)
  then have "counter_of init_keyspace = 0" by (simp add: counter_of_def init_keyspace_def)
  then show ?thesis
    using LeaseGrant_fresh[OF refs.redis_store_axioms, of ref_world 0] lease_inv_init by simp
qed



text \<open>C28: The life of a lease.  After \<open>n\<close> seconds a live lease that had \<open>t\<close> seconds left reports
  its granted time and \<open>t - n\<close>, or is gone once \<open>n\<close> reaches \<open>t\<close>: then its time to live is
  reported as \<open>(0, -1)\<close> and renewing fails.  Renewing a live lease returns its granted time and
  resets what is left to it.\<close>

theorem lease_lifecycle:
  assumes "redis_store r view newid" and "lease_inv (view (db w))"
    and "vals (view (db w)) (leaseDataKey i) = Some (RString (format_int ttl))"
    and "ttls (view (db w)) (leaseDataKey i) = Some t" and "0 \<le> n"
  defines "w' \<equiv> w\<lparr>db := r_elapse (rs_redis r) n (db w)\<rparr>"
  shows "(if n < t
     then fst (LeaseTimeToLive r i w') = Inr (ttl, t - n) \<and> fst (LeaseRenew r i w') = Inr ttl \<and>
          ttls (view (db (snd (LeaseRenew r i w')))) (leaseDataKey i) = Some ttl
     else fst (LeaseTimeToLive r i w') = Inr (0, - 1) \<and> fst (LeaseRenew r i w') = Inl (LeaseNotFound i))"
proof -
  note rs = redis_store.axioms(1)[OF assms(1)]
  have s': "view (db w') = ks_elapse n (view (db w))"
    using redis_server.elapse[OF rs assms(5)] by (simp add: w'_def)
  have "live (view (db w)) i" using assms(3) by (simp add: live_def)
  then have t: "0 < t" "t \<le> ttl" "ttl \<le> 9223372036" using assms(2-4) unfolding lease_inv_def by fastforce+
  then have p: "ParseInt (format_int ttl) = (ttl, None)" by (intro ParseInt_format_int) auto
  have v: "vals (view (db w')) (leaseDataKey i) = (if n < t then Some (RString (format_int ttl)) else None)"
    "ttls (view (db w')) (leaseDataKey i) = (if n < t then Some (t - n) else None)"
    using assms(3,4) by (simp_all add: s' ks_elapse_def)
  note laws = redis_server.GET[OF rs] redis_server.TTL_some[OF rs] redis_server.EXPIRE[OF rs] redis_store.call_ok[OF assms(1)]
  show ?thesis
    using v t p by (simp add: LeaseTimeToLive_def LeaseRenew_def step laws whole_seconds_def sgn_if seconds_exact ks_ttl_def)
qed

definition one_lease :: "(keyspace, unit, Event list) world" where
  "one_lease = snd (LeaseGrant ref_store 60 ref_world)"

lemma one_lease_facts:
  "db one_lease = granted 1 60 init_keyspace" "lease_inv (db one_lease)" "store_inv (db one_lease)"
  "abs_store (db one_lease) = abs_store init_keyspace"
proof -
  have "revisionKey \<noteq> leaseIDCounter" by (simp add: revisionKey_def leaseIDCounter_def)
  then have c: "counter_of init_keyspace = 0" by (simp add: counter_of_def init_keyspace_def)
  show g: "db one_lease = granted 1 60 init_keyspace"
    using refs.LeaseGrant_ok(2)[of ref_world 60] lease_inv_init c by (simp add: one_lease_def)
  show "lease_inv (db one_lease)" using lease_inv_granted(1)[OF lease_inv_init, of 60] c by (simp add: g)
  have "x \<notin> lease_keys \<Longrightarrow> vals (granted 1 60 init_keyspace) x = vals init_keyspace x" for x
    by (auto simp: vals_granted lease_keys_def)
  from store_frame[OF this] show "store_inv (db one_lease)" "abs_store (db one_lease) = abs_store init_keyspace"
    using store_inv_init by (simp_all add: g)
qed

theorem lease_lifecycle_witness:
  "fst (LeaseTimeToLive ref_store 1 (one_lease\<lparr>db := ks_elapse 20 (db one_lease)\<rparr>)) = Inr (60, 40) \<and>
   fst (LeaseRenew ref_store 1 (one_lease\<lparr>db := ks_elapse 60 (db one_lease)\<rparr>)) = Inl (LeaseNotFound 1)"
  using lease_lifecycle[OF refs.redis_store_axioms, of one_lease 1 60 60 20]
    lease_lifecycle[OF refs.redis_store_axioms, of one_lease 1 60 60 60] one_lease_facts(2)
  by (simp add: one_lease_facts(1) vals_granted ttls_granted ref_store_def ref_redis_def)

text \<open>C11: Revoking.  When the attachment sets agree with the leases in the values, revoking lease
  \<open>i\<close> deletes exactly the keys that carry it, commits one event for each, removes the lease from the
  bookkeeping and no other, and keeps all three invariants.\<close>

theorem LeaseRevoke_exact:
  assumes "redis_store r view newid" and "store_inv (view (db w))" and "lease_inv (view (db w))"
    and "att_inv (abs_store (view (db w)))" and "budget (abs_store (view (db w))) < rev_limit" and "i \<noteq> 0"
  defines "m \<equiv> abs_store (view (db w))" and "s' \<equiv> view (db (snd (LeaseRevoke r i w)))"
  shows "fst (LeaseRevoke r i w) = Inr () \<and>
    m_kv (abs_store s') = (\<lambda>k. if lease_of (m_kv m k) = i then None else m_kv m k) \<and>
    m_rev (abs_store s') = m_rev m + int (card {k. lease_of (m_kv m k) = i}) \<and>
    (\<forall>j. live s' j \<longleftrightarrow> live (view (db w)) j \<and> j \<noteq> i) \<and>
    store_inv s' \<and> lease_inv s' \<and> att_inv (abs_store s')"
proof -
  note ok = redis_store.LeaseRevoke_ok[OF assms(1-6), folded m_def s'_def]
  then have "lease_gone i (view (db w)) s'" by blast
  from lease_gone_inv[OF assms(3) this] ok show ?thesis by (simp add: without_lease_def)
qed

text \<open>A world with one lease and one key attached to it.\<close>

definition leased_key :: "(keyspace, unit, Event list) world" where
  "leased_key = snd (Put ref_store ''a'' ''x'' 1 one_lease)"

lemma kv_at_init: "kv_at init_keyspace = Map.empty"
  by (rule ext) simp

lemma att_inv_init: "att_inv (abs_store init_keyspace)"
  by (simp add: att_inv_def lease_of_def) (simp add: abs_store_def init_keyspace_def)

lemma leased_key_facts:
  "store_inv (db leased_key)" "abs_store (db leased_key) = mvcc_put ''a'' ''x'' 1 (abs_store init_keyspace)"
  "lease_inv (db leased_key)" "att_inv (abs_store (db leased_key))" "budget (abs_store (db leased_key)) < rev_limit"
  "same_leases (db one_lease) (db leased_key)"
proof -
  have r0: "rev_of (db one_lease) = 0" using one_lease_facts(4) by (metis abs_store_sel(2) init_sel(2))
  have "committed ref_store id (mvcc_put ''a'' ''x'' 1) one_lease leased_key"
    unfolding leased_key_def
    by (rule refs.Put_ok)
      (use one_lease_facts r0 in \<open>simp_all add: lease_ok_def rev_limit_def\<close>)
  then show "store_inv (db leased_key)" and abs: "abs_store (db leased_key) = mvcc_put ''a'' ''x'' 1 (abs_store init_keyspace)"
    using one_lease_facts by (simp_all add: committed_def)
  show sl: "same_leases (db one_lease) (db leased_key)"
    using refs.Put_same_leases[of one_lease 1 "''a''" "''x''"] one_lease_facts r0
    by (simp add: leased_key_def lease_ok_def rev_limit_def)
  show "lease_inv (db leased_key)" using sl same_leases_inv one_lease_facts(2) by blast
  show "att_inv (abs_store (db leased_key))" unfolding abs by (rule att_inv_put[OF att_inv_init])
  have "dom (m_kv (mvcc_put ''a'' ''x'' 1 (abs_store init_keyspace))) = {''a''}"
    by (auto simp: mvcc_put_def mvcc_write_def dom_def)
  then show "budget (abs_store (db leased_key)) < rev_limit"
    unfolding abs by (simp add: budget_def mvcc_put_def mvcc_write_def rev_limit_def kv_at_init)
qed

theorem LeaseRevoke_exact_witness:
  "fst (LeaseRevoke ref_store 1 leased_key) = Inr () \<and>
   m_kv (abs_store (db (snd (LeaseRevoke ref_store 1 leased_key)))) ''a'' = None"
proof -
  have "lease_of (m_kv (abs_store (db leased_key)) ''a'') = 1"
    unfolding leased_key_facts(2) by (simp add: mvcc_put_def mvcc_write_def lease_of_def next_kv_def)
  with LeaseRevoke_exact[OF refs.redis_store_axioms, of leased_key 1] leased_key_facts
  show ?thesis by (simp del: abs_store_sel)
qed

text \<open>C27: The attachment sets stay in agreement with the values under \<open>Put\<close> (which may attach, move or
  detach a key) and \<open>Delete\<close>.\<close>

theorem Put_Delete_keep_attachments:
  assumes "redis_store r view newid" and "store_inv (view (db w))" and "rev_of (view (db w)) < rev_limit"
    and "lease_ok l" and "att_inv (abs_store (view (db w)))"
  shows "att_inv (abs_store (view (db (snd (Put r k v l w))))) \<and>
    att_inv (abs_store (view (db (snd (Delete r k w)))))"
  using redis_store.Put_ok(2)[OF assms(1-4), of k v] redis_store.Delete_any(3)[OF assms(1-3), of k]
    att_inv_put[OF assms(5)] att_inv_delete[OF assms(5)] by (simp add: committed_def)

theorem Put_Delete_keep_attachments_witness:
  "att_inv (abs_store (db (snd (Put ref_store ''a'' ''x'' 1 ref_world))))"
  using Put_Delete_keep_attachments[OF refs.redis_store_axioms, of ref_world 1 "''a''" "''x''"] att_inv_init store_inv_init
  by (simp add: lease_ok_def rev_limit_def)

text \<open>C37: A key written through \<open>Txn\<close> is not attached to its lease: revoking that lease afterwards
  succeeds and leaves the key in the store.\<close>

theorem Txn_key_survives_revoke:
  fixes k v :: bytes and i :: int
  assumes "redis_store r view newid" and "store_inv (view (db w))" and "lease_inv (view (db w))"
    and "att_inv (abs_store (view (db w)))" and "budget (abs_store (view (db w))) + 2 < rev_limit"
    and "kv_at (view (db w)) k = None" and "lease_ok i" and "i \<noteq> 0"
  defines "w1 \<equiv> snd (Txn r k (- 1) ''PUT'' v i w)"
  shows "\<exists>kv. fst (LeaseRevoke r i w1) = Inr () \<and>
    kv_at (view (db (snd (LeaseRevoke r i w1)))) k = Some kv \<and> Lease kv = i"
proof -
  have lim: "rev_of (view (db w)) < rev_limit" using assms(5) by (simp add: budget_def)
  have cas: "cas_ok (- 1) (kv_at (view (db w)) k)" using assms(6) by (simp add: cas_ok_def)
  note c = redis_store.Txn_put(2)[OF assms(1,2) lim assms(7) cas, of v, folded w1_def]
  have abs: "abs_store (view (db w1)) = mvcc_write k v i (abs_store (view (db w)))" and inv: "store_inv (view (db w1))"
    using c by (simp_all add: committed_def)
  have "same_leases (view (db w)) (view (db w1))"
    unfolding w1_def by (rule redis_store.Txn_same_leases[OF assms(1,2) lim assms(7) cas])
  then have li: "lease_inv (view (db w1))" using same_leases_inv assms(3) by blast
  have fin: "finite (dom (m_kv (abs_store (view (db w)))))"
    using redis_store.finite_dom_abs[OF assms(1)] assms(2) by blast
  have "budget (abs_store (view (db w1))) \<le> budget (abs_store (view (db w))) + 2"
    unfolding abs using fin by (simp add: budget_def mvcc_write_def card_insert_if)
  then have b: "budget (abs_store (view (db w1))) < rev_limit" using assms(5) by simp
  obtain ks where ks: "set ks = m_att (abs_store (view (db w1))) i" "fst (LeaseRevoke r i w1) = Inr ()"
    "abs_store (view (db (snd (LeaseRevoke r i w1)))) = (fold mvcc_delete ks (abs_store (view (db w1))))
       \<lparr>m_att := (m_att (fold mvcc_delete ks (abs_store (view (db w1)))))(i := {})\<rparr>"
    using redis_store.LeaseRevoke_gen[OF assms(1) inv li b] by blast
  have "m_kv (abs_store (view (db (snd (LeaseRevoke r i w1))))) k = m_kv (abs_store (view (db w1))) k"
    unfolding ks(3) using ks(1) assms(4,6,8) fold_delete_other[of k ks "abs_store (view (db w1))"]
    by (simp add: abs att_inv_def lease_of_def mvcc_write_def)
  moreover have "\<dots> = Some (next_kv k v i (abs_store (view (db w))))" unfolding abs by (simp add: mvcc_write_def)
  ultimately show ?thesis using ks(2) by (simp add: next_kv_def)
qed

theorem Txn_key_survives_revoke_witness:
  "\<exists>kv. kv_at (db (snd (LeaseRevoke ref_store 1 (snd (Txn ref_store ''a'' (- 1) ''PUT'' ''x'' 1 one_lease))))) ''a'' = Some kv"
proof -
  have "kv_at (db one_lease) ''a'' = None" "budget (abs_store (db one_lease)) + 2 < rev_limit" "att_inv (abs_store (db one_lease))"
    using one_lease_facts(4) att_inv_init by (metis abs_store_sel(1) init_sel(1), simp_all add: budget_def rev_limit_def kv_at_init)
  with Txn_key_survives_revoke[OF refs.redis_store_axioms, of one_lease "''a''" 1 "''x''"] one_lease_facts
  show ?thesis by (auto simp: lease_ok_def)
qed

text \<open>C12: The reaper.  One pass deletes exactly the keys of the leases that have expired since the last
  one (listed, but their key is gone) and drops those leases from the list; keys without a lease and
  keys of live leases stay, no live lease is touched, and the invariants are kept.\<close>

theorem reaper_exact:
  assumes "redis_store r view newid" and "store_inv (view (db w))" and "lease_inv (view (db w))"
    and "att_inv (abs_store (view (db w)))" and "budget (abs_store (view (db w))) < rev_limit"
    and "finite (as_set (vals (view (db w)) leaseSetKey))"
  defines "s \<equiv> view (db w)" and "s' \<equiv> view (db (reapExpiredLeases r w))"
  defines "expired \<equiv> {i. format_int i \<in> as_set (vals s leaseSetKey) \<and> \<not> live s i}"
  shows "kv_at s' = (\<lambda>k. if lease_of (kv_at s k) \<in> expired then None else kv_at s k) \<and>
    as_set (vals s' leaseSetKey) = as_set (vals s leaseSetKey) - format_int ` expired \<and>
    (\<forall>j. live s' j = live s j) \<and> store_inv s' \<and> lease_inv s' \<and> att_inv (abs_store s')"
proof -
  have "redis_store.lease_world view w"
    using assms(2-5) by (simp add: redis_store.lease_world_def[OF assms(1)])
  from redis_store.reapExpiredLeases_ok[OF assms(1) this assms(6)]
  show ?thesis
    unfolding expired_def s_def s'_def redis_store.lease_world_def[OF assms(1)] abs_store_sel by blast
qed

theorem reaper_exact_witness:
  "kv_at (db (reapExpiredLeases ref_store leased_key)) = kv_at (db leased_key)"
proof -
  have v: "vals (db leased_key) leaseSetKey = Some (RSet {format_int 1})" "live (db leased_key) 1"
    using leased_key_facts(6) by (simp_all add: same_leases_def lease_keys_def one_lease_facts(1) vals_granted live_def init_keyspace_def leaseSetKey_def revisionKey_def)
  show ?thesis
    using reaper_exact[OF refs.redis_store_axioms, of leased_key] leased_key_facts v by (auto simp: fun_eq_iff split: if_splits)
qed

end
