(* ===== verification/Startup.thy ===== *)
theory Startup
  imports WatchProps StoreOpen LeaseProps
begin

text \<open>
  Putting the server together, \<open>main.go\<close>: the addresses from the environment, the store, the
  watch server with its dispatcher as the store's sink, and the lease reaper's goroutine.  All
  services share the one store, so what is returned is the store with its sink and the watch server;
  the listener, the multiplexer, the HTTP endpoints and the gRPC server are library calls and left
  out.
\<close>

section \<open>The program\<close>

definition envOr :: "(string \<Rightarrow> string) \<Rightarrow> string \<Rightarrow> string \<Rightarrow> string" where
  "envOr Getenv key def = (if Getenv key \<noteq> [] then Getenv key else def)"

definition main_store ::
  "(string \<Rightarrow> string) \<Rightarrow> (Options \<Rightarrow> 'd redis \<times> ('n \<Rightarrow> outcome \<times> 'n)) \<Rightarrow> ('d, 'n, 'x) world \<Rightarrow>
   ('d, 'n, 'x) RedisStore \<times> ('d, 'n, 'x) world"
where
  "main_store Getenv connect w =
     (let redisAddr = envOr Getenv ''REDIS_ADDR'' ''localhost:6379''
      in NewRedisStore connect redisAddr w)"

definition main_services ::
  "(string \<Rightarrow> string) \<Rightarrow> (Options \<Rightarrow> 'd redis \<times> ('n \<Rightarrow> outcome \<times> 'n)) \<Rightarrow> ('d, 'n, eventDispatcher) world \<Rightarrow>
   (('d, 'n, eventDispatcher) RedisStore \<times> ('d, 'n, eventDispatcher) world WatchServer) \<times> ('d, 'n, eventDispatcher) world"
where
  "main_services Getenv connect w =
     (let (rdb, w1) = main_store Getenv connect w
      in NewWatchServer rdb w1)"

text \<open>The goroutine of \<open>StartLeaseReaper\<close>: which case of its select was ready, in turn, and what
  other goroutines did before.\<close>

datatype reaper_case = ReaperDone | ReaperTick

fun StartLeaseReaper ::
  "('d, 'n, 'x) RedisStore \<Rightarrow> ((('d, 'n, 'x) world \<Rightarrow> ('d, 'n, 'x) world) \<times> reaper_case) list \<Rightarrow> ('d, 'n, 'x) world \<Rightarrow> ('d, 'n, 'x) world"
where
  "StartLeaseReaper r [] w = w"
| "StartLeaseReaper r ((env, ReaperDone) # cs) w = env w"
| "StartLeaseReaper r ((env, ReaperTick) # cs) w = StartLeaseReaper r cs (reapExpiredLeases r (env w))"

section \<open>One handler at a time\<close>

definition in_step :: "('d \<Rightarrow> keyspace) \<Rightarrow> ('d, 'n, eventDispatcher) world \<Rightarrow> bool" where
  "in_step view w \<longleftrightarrow> store_inv (view (db w)) \<and> disp_inv (snk w) \<and> d_pending (snk w) = [] \<and> d_nextRev (snk w) = rev_of (view (db w)) + 1"

lemma ingest_at_once:
  assumes "disp_inv d" and "d_pending d = []" and "EvRev ev = d_nextRev d"
  shows "ingest ev d = (releaseLocked ev d)\<lparr>d_nextRev := d_nextRev d + 1\<rparr>"
proof -
  have n: "1 \<le> d_nextRev d" using assms(1) by (simp add: disp_inv_def buffer_ok_def)
  have "d\<lparr>d_pending := []\<rparr> = d" using assms(2) by simp
  then have "release_ready (d\<lparr>d_pending := [(d_nextRev d, ev)]\<rparr>) = release_ready ((releaseLocked ev d)\<lparr>d_nextRev := d_nextRev d + 1\<rparr>)"
    by (subst release_ready.simps) simp
  also have "\<dots> = (releaseLocked ev d)\<lparr>d_nextRev := d_nextRev d + 1\<rparr>"
    by (subst release_ready.simps) (simp add: assms(2))
  finally show ?thesis using n assms(2,3) by (simp add: ingest_def)
qed

lemma in_step_write:
  assumes st: "redis_store r view newid" and sink: "rs_sink r = Some ingest" and i: "in_step view w"
    and "rev_of (view (db w)) < rev_limit" and "lease_ok (write_lease op)"
  shows "in_step view (do_write r op w) \<and> rev_of (view (db (do_write r op w))) \<le> rev_of (view (db w)) + 1"
proof -
  have si: "store_inv (view (db w))" using i by (simp add: in_step_def)
  from write_effect[OF st si assms(4,5)] show ?thesis
  proof
    assume "\<exists>f. committed r view f w (do_write r op w)"
    then obtain ev where ev: "store_inv (view (db (do_write r op w)))" "events_of (view (db (do_write r op w))) = events_of (view (db w)) @ [ev]"
      "EvRev ev = rev_of (view (db w)) + 1" "snk (do_write r op w) = ingest ev (snk w)"
      using sink by (auto simp: committed_def feed_def)
    have rv: "rev_of (view (db (do_write r op w))) = rev_of (view (db w)) + 1"
      using store_inv_log(2)[OF ev(1)] store_inv_log(2)[OF si] ev(2) by simp
    have "disp_inv (snk w)" using i by (simp add: in_step_def)
    then have "disp_inv (ingest ev (snk w))" using ingest_inv[of "snk w" ev] by blast
    with i ev rv show ?thesis by (simp add: in_step_def ingest_at_once)
  qed (use i in \<open>simp add: in_step_def untouched_def\<close>)
qed

lemma redis_store_sink: "redis_store (r\<lparr>rs_sink := s\<rparr>) view newid \<longleftrightarrow> redis_store r view newid"
  by (simp add: redis_store_def redis_store_axioms_def)

text \<open>C18: The server starts in step with its store and stays there.  On an empty database, one in good
  order, or one of an older version, the server that \<open>main\<close> builds keeps the store's content, hands
  every event of every write to its dispatcher, and has the dispatcher wait for exactly the next
  revision.  As long as one handler runs at a time, every write is released to the watchers before
  the handler returns: nothing ever waits in the reorder buffer, and the revision reported is the
  store's.\<close>

theorem startup_in_step:
  assumes m: "main_services Getenv connect w = ((r, ws), w')" and st: "redis_store r view newid" and op: "openable (view (db w))"
    and "list_all (\<lambda>op. lease_ok (write_lease op)) ops" and lim: "rev_of (view (db w)) + int (length ops) \<le> rev_limit"
  shows "abs_store (view (db w')) = abs_store (view (db w)) \<and> ws_disp ws w' = snk w' \<and>
    in_step view (fold (do_write r) ops w') \<and> currentRev (snk (fold (do_write r) ops w')) = max 1 (rev_of (view (db (fold (do_write r) ops w'))))"
proof -
  obtain r0 w1 where o: "NewRedisStore connect (envOr Getenv ''REDIS_ADDR'' ''localhost:6379'') w = (r0, w1)" by fastforce
  have n: "NewWatchServer r0 w1 = ((r, ws), w')" using m o by (simp add: main_services_def main_store_def)
  then have r: "r = r0\<lparr>rs_sink := Some ingest\<rparr>" "ws_disp ws w' = snk w'"
      "w' = (snd (prime (redis_Store r0) newEventDispatcher w1))\<lparr>snk := fst (prime (redis_Store r0) newEventDispatcher w1)\<rparr>"
    by (auto simp: NewWatchServer_def SetEventSink_def split_beta Let_def)
  then have st0: "redis_store r0 view newid" using st redis_store_sink by blast
  have s1: "store_inv (view (db w1))" "abs_store (view (db w1)) = abs_store (view (db w))"
    using redis_store.open_ok[OF st0 op] o by (auto simp: NewRedisStore_def NewRedisStoreDB_def Let_def)
  note p = prime_ok[OF st0 s1(1), of newEventDispatcher]
  have v: "view (db w') = view (db w1)" using p(2) by (simp add: r(3) untouched_def)
  have d: "snk w' = newEventDispatcher\<lparr>d_latestRev := max 1 (rev_of (view (db w1))), d_nextRev := rev_of (view (db w1)) + 1\<rparr>"
    by (simp add: r(3) p(1))
  have "0 \<le> rev_of (view (db w1))" using store_inv_log(2)[OF s1(1)] by simp
  then have start: "in_step view w'" unfolding in_step_def v d
    using primed_inv[of "rev_of (view (db w1)) + 1"] s1(1) by (simp add: newEventDispatcher_def)
  have sink: "rs_sink r = Some ingest" by (simp add: r(1))
  have "rev_of (view (db w')) = rev_of (view (db w))" using arg_cong[OF s1(2), of m_rev] by (simp add: v)
  with lim have "rev_of (view (db w')) + int (length ops) \<le> rev_limit" by simp
  with start assms(4) have "in_step view (fold (do_write r) ops w')"
  proof (induction ops arbitrary: w')
    case (Cons op ops)
    then have "in_step view (do_write r op w') \<and> rev_of (view (db (do_write r op w'))) \<le> rev_of (view (db w')) + 1"
      by (intro in_step_write[OF st sink]) auto
    with Cons show ?case by simp
  qed simp
  with s1(2) r(2) v show ?thesis by (simp add: in_step_def currentRev_def disp_inv_def)
qed

theorem startup_in_step_witness:
  "let ((r, ws), w) = main_services (\<lambda>_. []) (\<lambda>_. (ref_redis, \<lambda>n. (Answer [], n)))
         \<lparr>db = \<lparr>vals = Map.empty, ttls = Map.empty\<rparr>, net = (), snk = newEventDispatcher\<rparr>;
       w' = fold (do_write r) [WPut ''a'' ''x'' 0, WDelete ''a'', WTxn ''a'' 0 ''y'' 0] w
   in in_step id w' \<and> currentRev (snk w') = max 1 (rev_of (db w'))"
proof -
  let ?w = "\<lparr>db = \<lparr>vals = Map.empty, ttls = Map.empty\<rparr>, net = (), snk = newEventDispatcher\<rparr> :: (keyspace, unit, eventDispatcher) world"
  let ?c = "\<lambda>_ :: Options. (ref_redis, \<lambda>n :: unit. (Answer [], n))"
  obtain r ws w where m: "main_services (\<lambda>_. []) ?c ?w = ((r, ws), w)" by (metis surj_pair)
  have "r = \<lparr>rs_redis = ref_redis, rs_net = \<lambda>n. (Answer [], n), rs_sink = Some ingest\<rparr>"
    using m by (auto simp: main_services_def main_store_def NewWatchServer_def NewRedisStore_def NewRedisStoreDB_def SetEventSink_def split_beta Let_def)
  then have st: "redis_store r id ref_newid" by (simp add: ref_redis_store)
  have op: "openable (id (db ?w))" by (simp add: openable_def)
  have "rev_of (id (db ?w)) = 0" by (simp add: rev_of_def)
  with startup_in_step[OF m st op, of "[WPut ''a'' ''x'' 0, WDelete ''a'', WTxn ''a'' 0 ''y'' 0]"]
  show ?thesis unfolding m by (simp add: lease_ok_def rev_limit_def id_def)
qed

end
