(* ===== verification/Metrics.thy ===== *)
theory Metrics
  imports Main
begin

text \<open>
  The interceptor of every unary call, \<open>UnaryMetricsInterceptor\<close> of \<open>server/metrics.go\<close>, as the
  atomic steps its goroutines take: on the counters \<open>inflightCur\<close> and \<open>inflightMax\<close>, on the gauge
  \<open>inflightRequests\<close> and on the histogram \<open>rpcDuration\<close>, of which the model keeps the labels observed and
  not the durations.  The counters are \<open>int64\<close>; fewer than \<open>2 ^ 63\<close> calls
  run at a time.  A handler that panics ends the process and has no steps after it.
\<close>

section \<open>State and steps\<close>

text \<open>Where one call of the interceptor is, with its local variables: \<open>cur\<close> is its own count,
  \<open>m\<close> the maximum it has loaded, \<open>res\<close> what the handler returned.\<close>

datatype 'a pc =
    Counted int
  | Loading int
  | Swapping int int
  | Handling
  | Handled 'a
  | Observed 'a
  | Leaving 'a
  | Returned 'a

record ('w, 'a) rpc_call =
  FullMethod :: string
  handler :: "'w \<Rightarrow> 'a \<times> 'w"
  at :: "'a pc"

record ('w, 'a) inflight =
  inflightCur :: int
  inflightMax :: int
  inflightRequests :: int
  rpcDurations :: "string list"
  backend :: 'w
  calls :: "('w, 'a) rpc_call list"

definition inflight_start :: "'w \<Rightarrow> ('w, 'a) inflight" where
  "inflight_start w = \<lparr>inflightCur = 0, inflightMax = 0, inflightRequests = 0, rpcDurations = [], backend = w, calls = []\<rparr>"

text \<open>A call enters with \<open>inflightCur.Add(1)\<close>.\<close>

definition interceptor_enter :: "string \<Rightarrow> ('w \<Rightarrow> 'a \<times> 'w) \<Rightarrow> ('w, 'a) inflight \<Rightarrow> ('w, 'a) inflight" where
  "interceptor_enter m h s =
     s\<lparr>inflightCur := inflightCur s + 1,
       calls := calls s @ [\<lparr>FullMethod = m, handler = h, at = Counted (inflightCur s + 1)\<rparr>]\<rparr>"

definition goto :: "nat \<Rightarrow> 'a pc \<Rightarrow> ('w, 'a) inflight \<Rightarrow> ('w, 'a) inflight" where
  "goto j p s = s\<lparr>calls := (calls s)[j := (calls s ! j)\<lparr>at := p\<rparr>]\<rparr>"

text \<open>One step of call \<open>j\<close>: \<open>inflightRequests.Inc()\<close>; the load of the maximum, the test and the
  compare-and-swap, which goes back to the load when another call has changed the maximum in between;
  the handler; the observation under its method; and the two statements of the deferred function.\<close>

definition interceptor_step :: "nat \<Rightarrow> ('w, 'a) inflight \<Rightarrow> ('w, 'a) inflight" where
  "interceptor_step j s =
     (case at (calls s ! j) of
        Counted cur \<Rightarrow> goto j (Loading cur) (s\<lparr>inflightRequests := inflightRequests s + 1\<rparr>)
      | Loading cur \<Rightarrow> goto j (Swapping cur (inflightMax s)) s
      | Swapping cur m \<Rightarrow>
          if cur \<le> m then goto j Handling s
          else if inflightMax s = m then goto j Handling (s\<lparr>inflightMax := cur\<rparr>)
          else goto j (Loading cur) s
      | Handling \<Rightarrow>
          (case handler (calls s ! j) (backend s) of (res, w) \<Rightarrow> goto j (Handled res) (s\<lparr>backend := w\<rparr>))
      | Handled res \<Rightarrow> goto j (Observed res) (s\<lparr>rpcDurations := rpcDurations s @ [FullMethod (calls s ! j)]\<rparr>)
      | Observed res \<Rightarrow> goto j (Leaving res) (s\<lparr>inflightCur := inflightCur s - 1\<rparr>)
      | Leaving res \<Rightarrow> goto j (Returned res) (s\<lparr>inflightRequests := inflightRequests s - 1\<rparr>)
      | Returned res \<Rightarrow> s)"

text \<open>Any interleaving of calls, with the highest value \<open>inflightCur\<close> has had.\<close>

inductive traffic :: "'w \<Rightarrow> ('w, 'a) inflight \<Rightarrow> int \<Rightarrow> bool" for w where
  start: "traffic w (inflight_start w) 0"
| enter: "traffic w s peak \<Longrightarrow> traffic w (interceptor_enter m h s) (max peak (inflightCur s + 1))"
| advance: "traffic w s peak \<Longrightarrow> j < length (calls s) \<Longrightarrow> traffic w (interceptor_step j s) peak"

section \<open>Invariant\<close>

fun in_loop :: "'a pc \<Rightarrow> bool" where
  "in_loop (Counted cur) = True"
| "in_loop (Loading cur) = True"
| "in_loop (Swapping cur m) = True"
| "in_loop _ = False"

fun counted :: "'a pc \<Rightarrow> bool" where
  "counted (Leaving res) = False"
| "counted (Returned res) = False"
| "counted _ = True"

fun gauged :: "'a pc \<Rightarrow> bool" where
  "gauged (Counted cur) = False"
| "gauged (Returned res) = False"
| "gauged _ = True"

fun observed :: "'a pc \<Rightarrow> bool" where
  "observed (Observed res) = True"
| "observed (Leaving res) = True"
| "observed (Returned res) = True"
| "observed _ = False"

fun result :: "'a pc \<Rightarrow> 'a option" where
  "result (Handled res) = Some res"
| "result (Observed res) = Some res"
| "result (Leaving res) = Some res"
| "result (Returned res) = Some res"
| "result _ = None"

fun local_cur :: "'a pc \<Rightarrow> int" where
  "local_cur (Counted cur) = cur"
| "local_cur (Loading cur) = cur"
| "local_cur (Swapping cur m) = cur"
| "local_cur _ = 0"

fun loaded :: "int \<Rightarrow> 'a pc \<Rightarrow> int" where
  "loaded mx (Swapping cur m) = m"
| "loaded mx _ = mx"

definition number :: "(('w, 'a) rpc_call \<Rightarrow> bool) \<Rightarrow> ('w, 'a) rpc_call list \<Rightarrow> int" where
  "number P cs = int (length (filter P cs))"

text \<open>The gauges count calls, the histogram counts observations, and every result is the handler's.\<close>

definition tally :: "('w, 'a) inflight \<Rightarrow> bool" where
  "tally s \<longleftrightarrow> inflightCur s = number (\<lambda>c. counted (at c)) (calls s) \<and>
     inflightRequests s = number (\<lambda>c. gauged (at c)) (calls s) \<and>
     (\<forall>m. int (count_list (rpcDurations s) m) = number (\<lambda>c. FullMethod c = m \<and> observed (at c)) (calls s)) \<and>
     (\<forall>c\<in>set (calls s). \<forall>res. result (at c) = Some res \<longrightarrow> (\<exists>w. fst (handler c w) = res))"

text \<open>The peak is in the maximum, or a call that has not passed its loop yet carries it.\<close>

definition peak_inv :: "('w, 'a) inflight \<Rightarrow> int \<Rightarrow> bool" where
  "peak_inv s peak \<longleftrightarrow> 0 \<le> inflightMax s \<and> inflightMax s \<le> peak \<and> inflightCur s \<le> peak \<and>
     (\<forall>c\<in>set (calls s). local_cur (at c) \<le> peak \<and> loaded (inflightMax s) (at c) \<le> inflightMax s) \<and>
     (inflightMax s = peak \<or> (\<exists>c\<in>set (calls s). in_loop (at c) \<and> local_cur (at c) = peak))"

lemma number_simps [simp]:
  "number P [] = 0" "number P (cs @ ds) = number P cs + number P ds" "number P (c # cs) = of_bool (P c) + number P cs"
  by (simp_all add: number_def)

lemma number_update:
  assumes "j < length cs"
  shows "number P (cs[j := c]) = number P cs - of_bool (P (cs ! j)) + of_bool (P c)"
proof -
  have "number P cs = number P (take j cs @ cs ! j # drop (Suc j) cs)" by (rule arg_cong[OF id_take_nth_drop[OF assms]])
  then show ?thesis by (simp only: upd_conv_take_nth_drop[OF assms] number_simps)
qed

lemma tally_enter: "tally s \<Longrightarrow> tally (interceptor_enter m h s)"
  by (auto simp: tally_def interceptor_enter_def)

lemma tally_step:
  assumes t: "tally s" and j: "j < length (calls s)"
  shows "tally (interceptor_step j s)"
proof -
  have c: "calls s ! j \<in> set (calls s)" using j by simp
  show ?thesis
    using t c j
    by (cases "at (calls s ! j)")
      (auto simp: tally_def interceptor_step_def goto_def number_update count_list_append split: prod.splits dest!: set_update_subset_insert[THEN subsetD]
        intro: exI[of _ "backend s"])
qed

lemma loaded_mono: "loaded m p \<le> m \<Longrightarrow> m \<le> m' \<Longrightarrow> loaded m' p \<le> m'"
  by (cases p) auto

lemma peak_enter:
  assumes inv: "peak_inv s peak"
  shows "peak_inv (interceptor_enter m h s) (max peak (inflightCur s + 1))" (is "peak_inv ?s ?peak")
proof -
  have "inflightMax s = ?peak \<or> (\<exists>c\<in>set (calls ?s). in_loop (at c) \<and> local_cur (at c) = ?peak)"
  proof (cases "peak < inflightCur s + 1")
    case False
    then have "?peak = peak" by simp
    then show ?thesis using inv by (auto simp: peak_inv_def interceptor_enter_def)
  qed (simp add: interceptor_enter_def)
  then show ?thesis using inv by (auto simp: peak_inv_def interceptor_enter_def max_def)
qed

text \<open>A call changes its place, and the maximum may grow.\<close>

lemma peak_update:
  assumes inv: "peak_inv s peak" and j: "j < length (calls s)" and cs: "calls s' = (calls s)[j := c]"
    and mx: "inflightMax s \<le> inflightMax s'" "inflightMax s' \<le> peak" and "inflightCur s' \<le> inflightCur s"
    and new: "local_cur (at c) \<le> peak" "loaded (inflightMax s') (at c) \<le> inflightMax s'"
    and keep: "in_loop (at (calls s ! j)) \<Longrightarrow> local_cur (at (calls s ! j)) = peak \<Longrightarrow> inflightMax s' = peak \<or> in_loop (at c) \<and> local_cur (at c) = peak"
  shows "peak_inv s' peak"
proof -
  note i = inv[unfolded peak_inv_def]
  have old: "local_cur (at x) \<le> peak \<and> loaded (inflightMax s') (at x) \<le> inflightMax s'" if "x \<in> set (calls s')" for x
    using that set_update_subset_insert[of "calls s" j c] i new loaded_mono[OF _ mx(1)] unfolding cs by blast
  have "inflightMax s' = peak \<or> (\<exists>x\<in>set (calls s'). in_loop (at x) \<and> local_cur (at x) = peak)"
  proof (cases "inflightMax s = peak")
    case False
    then obtain x where "x \<in> set (calls s)" and x: "in_loop (at x)" "local_cur (at x) = peak" using i by blast
    then obtain k where k: "k < length (calls s)" "calls s ! k = x" by (metis in_set_conv_nth)
    show ?thesis
    proof (cases "k = j")
      case True
      then show ?thesis using keep k x set_update_memI[OF j, of c] by (auto simp: cs)
    next
      case False
      then have "x \<in> set (calls s')" using k by (metis cs length_list_update nth_list_update_neq nth_mem)
      with x show ?thesis by blast
    qed
  qed (use mx in simp)
  with old i mx assms(6) show ?thesis by (simp add: peak_inv_def)
qed

lemma peak_step:
  assumes inv: "peak_inv s peak" and j: "j < length (calls s)"
  shows "peak_inv (interceptor_step j s) peak"
proof (cases "\<exists>res. at (calls s ! j) = Returned res")
  case True
  with inv show ?thesis by (auto simp: interceptor_step_def)
next
  case False
  have i: "0 \<le> inflightMax s" "inflightMax s \<le> peak" "local_cur (at (calls s ! j)) \<le> peak" "loaded (inflightMax s) (at (calls s ! j)) \<le> inflightMax s"
    "0 \<le> peak"
    using inv nth_mem[OF j] by (auto simp: peak_inv_def)
  show ?thesis
    by (rule peak_update[OF inv j, where c = "calls (interceptor_step j s) ! j"])
      (use False i j in \<open>cases "at (calls s ! j)"; auto simp: interceptor_step_def goto_def split: prod.splits\<close>)+
qed

lemma traffic_keeps: "traffic w s peak \<Longrightarrow> tally s \<and> peak_inv s peak"
proof (induction rule: traffic.induct)
  case start
  show ?case by (simp add: tally_def peak_inv_def inflight_start_def)
qed (simp_all add: tally_enter tally_step peak_enter peak_step)

section \<open>The instruments\<close>

text \<open>C30: The instruments of the interceptor are right under every interleaving of calls.
  \<open>inflightCur\<close> is the number of calls between their first and their last change of it, and so is the
  gauge \<open>inflightRequests\<close>; both are 0 again when every call has returned.  \<open>inflightMax\<close> is never
  above the highest value \<open>inflightCur\<close> has had, and equals it whenever no call is before its handler.
  The histogram has one observation under its method for every call whose handler has returned and
  been timed, and each call returns what its handler returned.\<close>

theorem inflight_peak:
  assumes "traffic w s peak"
  shows "inflightCur s = number (\<lambda>c. counted (at c)) (calls s) \<and> inflightRequests s = number (\<lambda>c. gauged (at c)) (calls s) \<and>
    ((\<forall>c\<in>set (calls s). \<exists>res. at c = Returned res) \<longrightarrow> inflightCur s = 0 \<and> inflightRequests s = 0) \<and>
    inflightCur s \<le> peak \<and> inflightMax s \<le> peak \<and> ((\<forall>c\<in>set (calls s). \<not> in_loop (at c)) \<longrightarrow> inflightMax s = peak) \<and>
    (\<forall>m. int (count_list (rpcDurations s) m) = number (\<lambda>c. FullMethod c = m \<and> observed (at c)) (calls s)) \<and>
    (\<forall>c\<in>set (calls s). \<forall>res. at c = Returned res \<longrightarrow> (\<exists>w. fst (handler c w) = res))"
proof -
  note i = traffic_keeps[OF assms]
  have "inflightCur s = 0 \<and> inflightRequests s = 0" if "\<forall>c\<in>set (calls s). \<exists>res. at c = Returned res"
    using i that by (auto simp: tally_def number_def filter_empty_conv)
  moreover have "\<forall>c\<in>set (calls s). \<forall>res. at c = Returned res \<longrightarrow> (\<exists>w. fst (handler c w) = res)"
    using i by (auto simp: tally_def)
  ultimately show ?thesis using i unfolding tally_def peak_inv_def by blast
qed

text \<open>Two calls that have both entered, and the second has stored the maximum first.\<close>

definition busy :: "(nat, nat) inflight" where
  "busy = fold interceptor_step [0, 1, 1, 0, 1, 0]
     (interceptor_enter ''Put'' (\<lambda>n. (n, n + 1)) (interceptor_enter ''Range'' (\<lambda>n. (n, n)) (inflight_start 0)))"

lemma busy_traffic: "traffic 0 busy 2"
proof -
  have "traffic 0 (interceptor_enter ''Put'' (\<lambda>n. (n, n + 1)) (interceptor_enter ''Range'' (\<lambda>n :: nat. (n, n)) (inflight_start 0))) (max (max 0 1) 2)"
    using traffic.enter[OF traffic.enter[OF traffic.start, of 0 "''Range''" "\<lambda>n :: nat. (n, n)"], of "''Put''" "\<lambda>n. (n, n + 1)"]
    by (simp add: interceptor_enter_def inflight_start_def)
  then show ?thesis unfolding busy_def fold.simps comp_def id_def
    by (intro traffic.advance) (simp_all add: interceptor_enter_def interceptor_step_def goto_def inflight_start_def)
qed

lemmas busy_simps = busy_def interceptor_enter_def interceptor_step_def goto_def inflight_start_def

theorem inflight_peak_witness:
  "inflightCur busy = 2 \<and> inflightRequests busy = 2 \<and> inflightMax busy \<le> 2 \<and> \<not> in_loop (at (calls busy ! 1)) \<and> count_list (rpcDurations busy) ''Put'' = 0"
  using inflight_peak[OF busy_traffic] by (simp add: busy_simps)

section \<open>Termination of the loop\<close>

definition loop_rank :: "nat \<Rightarrow> ('w, 'a) inflight \<Rightarrow> nat" where
  "loop_rank j s =
     (case at (calls s ! j) of
        Counted cur \<Rightarrow> 2 * nat (cur - inflightMax s) + 3
      | Loading cur \<Rightarrow> 2 * nat (cur - inflightMax s) + 2
      | Swapping cur m \<Rightarrow> 2 * nat (cur - m) + 1
      | _ \<Rightarrow> 0)"

text \<open>C31: The compare-and-swap loop ends.  A call that entered as the \<open>cur\<close>-th takes at most
  \<open>2 cur + 3\<close> steps until it is in its handler: each of its own steps lowers a rank, and no step of
  another call raises it, because a swap fails only after the maximum has grown.\<close>

theorem cas_loop_bounded:
  assumes "traffic w s peak" and "j < length (calls s)" and "k < length (calls s)" and "k \<noteq> j"
  shows "(in_loop (at (calls s ! j)) \<longrightarrow> loop_rank j (interceptor_step j s) < loop_rank j s) \<and>
    loop_rank j (interceptor_step k s) \<le> loop_rank j s \<and> loop_rank j (interceptor_enter m h s) = loop_rank j s \<and>
    loop_rank (length (calls s)) (interceptor_enter m h s) \<le> 2 * nat (inflightCur s + 1) + 3"
proof -
  have i: "0 \<le> inflightMax s" "loaded (inflightMax s) (at (calls s ! j)) \<le> inflightMax s" "loaded (inflightMax s) (at (calls s ! k)) \<le> inflightMax s"
    using traffic_keeps[OF assms(1)] assms(2,3) by (auto simp: peak_inv_def)
  have "in_loop (at (calls s ! j)) \<longrightarrow> loop_rank j (interceptor_step j s) < loop_rank j s"
    using i assms(2) by (cases "at (calls s ! j)") (auto simp: loop_rank_def interceptor_step_def goto_def)
  moreover have "calls (interceptor_step k s) ! j = calls s ! j" "inflightMax s \<le> inflightMax (interceptor_step k s)"
    using i assms(3,4) by (cases "at (calls s ! k)"; auto simp: interceptor_step_def goto_def split: prod.split)+
  then have "loop_rank j (interceptor_step k s) \<le> loop_rank j s" by (auto simp: loop_rank_def split: pc.splits)
  moreover have "loop_rank j (interceptor_enter m h s) = loop_rank j s" "loop_rank (length (calls s)) (interceptor_enter m h s) \<le> 2 * nat (inflightCur s + 1) + 3"
    using assms(2) i(1) by (simp_all add: loop_rank_def interceptor_enter_def nth_append split: pc.split)
  ultimately show ?thesis by simp
qed

theorem cas_loop_bounded_witness:
  "loop_rank 0 (interceptor_step 0 busy) < loop_rank 0 busy \<and> loop_rank 0 (interceptor_step 1 busy) \<le> loop_rank 0 busy"
  using cas_loop_bounded[OF busy_traffic, of 0 1] by (simp add: busy_simps)

end
