(* ===== verification/Instruments.thy ===== *)
theory Instruments
  imports Complex_Main "HOL-Library.Word"
begin

text \<open>
  The instruments of \<open>server/metrics.go\<close>: their declarations in the order of the file, their
  registration when the package is initialised, which panics when the registry refuses one, and
  \<open>RecordRedisPool\<close>.  The Prometheus client is a parameter: its bucket function, and \<open>promauto\<close>'s
  registration in a registry.  Help texts are left out.
\<close>

section \<open>Declarations\<close>

datatype kind = Counter | Gauge | Histogram "rat list"

record instrument =
  Name :: string
  Kind :: kind
  labelNames :: "string list"

definition NewCounterVec :: "string \<Rightarrow> string list \<Rightarrow> instrument" where
  "NewCounterVec n ls = \<lparr>Name = n, Kind = Counter, labelNames = ls\<rparr>"

definition NewGauge :: "string \<Rightarrow> instrument" where
  "NewGauge n = \<lparr>Name = n, Kind = Gauge, labelNames = []\<rparr>"

definition NewHistogramVec :: "string \<Rightarrow> rat list \<Rightarrow> string list \<Rightarrow> instrument" where
  "NewHistogramVec n bs ls = \<lparr>Name = n, Kind = Histogram bs, labelNames = ls\<rparr>"

definition rpcDuration :: "(rat \<Rightarrow> rat \<Rightarrow> nat \<Rightarrow> rat list) \<Rightarrow> instrument" where
  "rpcDuration ExponentialBuckets =
     NewHistogramVec ''retcd_rpc_duration_seconds'' (ExponentialBuckets (1 / 10000) 2 18) [''method'']"

definition watchDelivery :: "(rat \<Rightarrow> rat \<Rightarrow> nat \<Rightarrow> rat list) \<Rightarrow> instrument" where
  "watchDelivery ExponentialBuckets =
     NewHistogramVec ''retcd_watch_delivery_seconds'' (ExponentialBuckets (5 / 10000) 2 18) []"

definition watchSendMutexWait :: "(rat \<Rightarrow> rat \<Rightarrow> nat \<Rightarrow> rat list) \<Rightarrow> instrument" where
  "watchSendMutexWait ExponentialBuckets =
     NewHistogramVec ''retcd_watch_send_mutex_wait_seconds'' (ExponentialBuckets (1 / 10000) 2 18) []"

definition watchSendWrite :: "(rat \<Rightarrow> rat \<Rightarrow> nat \<Rightarrow> rat list) \<Rightarrow> instrument" where
  "watchSendWrite ExponentialBuckets =
     NewHistogramVec ''retcd_watch_send_write_seconds'' (ExponentialBuckets (1 / 10000) 2 18) []"

definition activeWatches :: instrument where
  "activeWatches = NewGauge ''retcd_active_watches''"

definition watchReadErrors :: instrument where
  "watchReadErrors = NewCounterVec ''retcd_watch_read_errors_total'' []"

definition watchCancels :: instrument where
  "watchCancels = NewCounterVec ''retcd_watch_cancels_total'' []"

definition watchCatchupEvents :: "(rat \<Rightarrow> rat \<Rightarrow> nat \<Rightarrow> rat list) \<Rightarrow> instrument" where
  "watchCatchupEvents ExponentialBuckets =
     NewHistogramVec ''retcd_watch_catchup_events'' (ExponentialBuckets 1 2 20) []"

definition watchReorderFlushes :: instrument where
  "watchReorderFlushes = NewCounterVec ''retcd_watch_reorder_flushes_total'' []"

definition inflightRequestsGauge :: instrument where
  "inflightRequestsGauge = NewGauge ''retcd_inflight_requests''"

definition inflightMaxGauge :: instrument where
  "inflightMaxGauge = NewGauge ''retcd_inflight_requests_max''"

definition watchCreates :: instrument where
  "watchCreates = NewCounterVec ''retcd_watch_creates_total'' [''prefix'', ''mode'']"

definition redisPoolTotalConns :: instrument where
  "redisPoolTotalConns = NewGauge ''retcd_redis_pool_total_conns''"

definition redisPoolIdleConns :: instrument where
  "redisPoolIdleConns = NewGauge ''retcd_redis_pool_idle_conns''"

definition redisPoolTimeouts :: instrument where
  "redisPoolTimeouts = NewGauge ''retcd_redis_pool_timeouts_total''"

definition redisPoolMisses :: instrument where
  "redisPoolMisses = NewGauge ''retcd_redis_pool_misses_total''"

definition instruments :: "(rat \<Rightarrow> rat \<Rightarrow> nat \<Rightarrow> rat list) \<Rightarrow> instrument list" where
  "instruments eb =
     [rpcDuration eb, watchDelivery eb, watchSendMutexWait eb, watchSendWrite eb, activeWatches, watchReadErrors,
      watchCancels, watchCatchupEvents eb, watchReorderFlushes, inflightRequestsGauge, inflightMaxGauge, watchCreates,
      redisPoolTotalConns, redisPoolIdleConns, redisPoolTimeouts, redisPoolMisses]"

text \<open>Package initialisation.  \<open>None\<close> is a panic.\<close>

fun init_metrics :: "('g \<Rightarrow> instrument \<Rightarrow> 'g option) \<Rightarrow> instrument list \<Rightarrow> 'g \<Rightarrow> 'g option" where
  "init_metrics reg [] g = Some g"
| "init_metrics reg (i # is) g = (case reg g i of None \<Rightarrow> None | Some g' \<Rightarrow> init_metrics reg is g')"

section \<open>The pool's gauges\<close>

record pool_gauges =
  g_TotalConns :: rat
  g_IdleConns :: rat
  g_Timeouts :: rat
  g_Misses :: rat

text \<open>Every \<open>uint32\<close> is a \<open>float64\<close>, so the conversion is exact.\<close>

definition RecordRedisPool :: "32 word \<Rightarrow> 32 word \<Rightarrow> 32 word \<Rightarrow> 32 word \<Rightarrow> pool_gauges \<Rightarrow> pool_gauges" where
  "RecordRedisPool totalConns idleConns timeouts misses g =
     g\<lparr>g_TotalConns := of_nat (unat totalConns), g_IdleConns := of_nat (unat idleConns),
       g_Timeouts := of_nat (unat timeouts), g_Misses := of_nat (unat misses)\<rparr>"

section \<open>The contract of the client library\<close>

text \<open>What the data model of Prometheus asks of names, labels and buckets; the colon it also allows in
  the name of a metric is left out.\<close>

definition letter :: "char \<Rightarrow> bool" where
  "letter c \<longleftrightarrow> (let n = of_char c :: nat in 97 \<le> n \<and> n \<le> 122 \<or> 65 \<le> n \<and> n \<le> 90 \<or> n = 95)"

definition valid_name :: "string \<Rightarrow> bool" where
  "valid_name n \<longleftrightarrow> n \<noteq> [] \<and> letter (hd n) \<and> list_all (\<lambda>c. letter c \<or> 48 \<le> (of_char c :: nat) \<and> of_char c \<le> (57 :: nat)) n"

definition valid_instrument :: "instrument \<Rightarrow> bool" where
  "valid_instrument i \<longleftrightarrow> valid_name (Name i) \<and> list_all (\<lambda>l. valid_name l \<and> take 2 l \<noteq> ''__'') (labelNames i) \<and> distinct (labelNames i) \<and>
     (case Kind i of Histogram bs \<Rightarrow> bs \<noteq> [] \<and> sorted_wrt (<) bs \<and> ''le'' \<notin> set (labelNames i) | _ \<Rightarrow> True)"

locale prometheus =
  fixes ExponentialBuckets :: "rat \<Rightarrow> rat \<Rightarrow> nat \<Rightarrow> rat list"
    and reg :: "'g \<Rightarrow> instrument \<Rightarrow> 'g option"
    and names :: "'g \<Rightarrow> string set"
  assumes buckets: "0 < s \<Longrightarrow> 1 < f \<Longrightarrow> 1 \<le> n \<Longrightarrow> ExponentialBuckets s f n = map (\<lambda>j. s * f ^ j) [0..<n]"
    and accepts: "valid_instrument i \<Longrightarrow> Name i \<notin> names g \<Longrightarrow> \<exists>g'. reg g i = Some g' \<and> names g' = insert (Name i) (names g)"
begin

lemma init_accepts:
  assumes "list_all valid_instrument is" and "distinct (map Name is)" and "set (map Name is) \<inter> names g = {}"
  shows "\<exists>g'. init_metrics reg is g = Some g' \<and> names g' = names g \<union> set (map Name is)"
  using assms
proof (induction "is" arbitrary: g)
  case (Cons i "is")
  then obtain g1 where g1: "reg g i = Some g1" "names g1 = insert (Name i) (names g)" using accepts[of i g] by auto
  with Cons.prems have "set (map Name is) \<inter> names g1 = {}" by auto
  from Cons.IH[OF _ _ this] Cons.prems g1 show ?case by auto
qed simp

lemma buckets_increase:
  assumes "0 < s" and "1 < f" and "1 \<le> n"
  shows "ExponentialBuckets s f n \<noteq> [] \<and> sorted_wrt (<) (ExponentialBuckets s f n)"
proof -
  have "s * f ^ i < s * f ^ j" if "i < j" for i j using assms(1,2) that by (simp add: power_strict_increasing)
  then show ?thesis using assms by (simp add: buckets sorted_wrt_map sorted_wrt_upt sorted_wrt_mono_rel[of _ "(<)"])
qed

end

section \<open>Initialisation succeeds\<close>

lemmas instrument_defs = rpcDuration_def watchDelivery_def watchSendMutexWait_def watchSendWrite_def activeWatches_def
  watchReadErrors_def watchCancels_def watchCatchupEvents_def watchReorderFlushes_def inflightRequestsGauge_def
  inflightMaxGauge_def watchCreates_def redisPoolTotalConns_def redisPoolIdleConns_def redisPoolTimeouts_def redisPoolMisses_def

lemma instruments_distinct: "distinct (map Name (instruments eb))"
  by (simp add: instruments_def instrument_defs NewCounterVec_def NewGauge_def NewHistogramVec_def)

lemma instruments_prefix: "list_all (\<lambda>i. take 6 (Name i) = ''retcd_'') (instruments eb)"
  by (simp add: instruments_def instrument_defs NewCounterVec_def NewGauge_def NewHistogramVec_def)

lemma instruments_names: "list_all valid_name (map Name (instruments eb))" "list_all (list_all (\<lambda>l. valid_name l \<and> take 2 l \<noteq> ''__'')) (map labelNames (instruments eb))"
  by (simp_all add: instruments_def instrument_defs NewCounterVec_def NewGauge_def NewHistogramVec_def valid_name_def letter_def)

lemma instruments_valid:
  assumes "prometheus eb reg names"
  shows "list_all valid_instrument (instruments eb)"
proof -
  have "list_all (\<lambda>i. distinct (labelNames i) \<and> (case Kind i of Histogram bs \<Rightarrow> bs \<noteq> [] \<and> sorted_wrt (<) bs \<and> ''le'' \<notin> set (labelNames i) | _ \<Rightarrow> True)) (instruments eb)"
    unfolding instruments_def instrument_defs NewCounterVec_def NewGauge_def NewHistogramVec_def
    using prometheus.buckets_increase[OF assms] by simp
  with instruments_names[of eb] show ?thesis by (simp add: list_all_iff valid_instrument_def)
qed

text \<open>The package initialises without a panic on every registry that holds no name of the server's own,
  and every instrument is then registered under its name.  The top bucket of \<open>watchCatchupEvents\<close> is
  524288 events.\<close>

theorem metrics_register:
  assumes "prometheus eb reg names" and "\<And>n. n \<in> names g \<Longrightarrow> take 6 n \<noteq> ''retcd_''"
  shows "(\<exists>g'. init_metrics reg (instruments eb) g = Some g' \<and> names g' = names g \<union> set (map Name (instruments eb))) \<and>
    (\<exists>bs. Kind (watchCatchupEvents eb) = Histogram bs \<and> last bs = 524288)"
proof -
  have "set (map Name (instruments eb)) \<inter> names g = {}"
    using instruments_prefix[of eb] assms(2) unfolding list_all_iff set_map by blast
  then have "\<exists>g'. init_metrics reg (instruments eb) g = Some g' \<and> names g' = names g \<union> set (map Name (instruments eb))"
    by (rule prometheus.init_accepts[OF assms(1) instruments_valid[OF assms(1)] instruments_distinct])
  moreover have "eb 1 2 20 = map (\<lambda>j. 1 * 2 ^ j) [0..<20]" by (rule prometheus.buckets[OF assms(1)]) simp_all
  then have "last (eb 1 2 20) = 1 * 2 ^ last [0..<20]" by (simp only:) (rule last_map, simp)
  then have "last (eb 1 2 20) = 524288" by simp
  ultimately show ?thesis unfolding watchCatchupEvents_def NewHistogramVec_def by simp
qed

text \<open>A registry as the list of its instruments.\<close>

definition ref_buckets :: "rat \<Rightarrow> rat \<Rightarrow> nat \<Rightarrow> rat list" where
  "ref_buckets s f n = map (\<lambda>j. s * f ^ j) [0..<n]"

definition ref_register :: "instrument list \<Rightarrow> instrument \<Rightarrow> instrument list option" where
  "ref_register g i = (if valid_instrument i \<and> Name i \<notin> Name ` set g then Some (i # g) else None)"

interpretation refp: prometheus ref_buckets ref_register "\<lambda>g. Name ` set g"
  by unfold_locales (simp_all add: ref_buckets_def ref_register_def)

theorem metrics_register_witness: "\<exists>g. init_metrics ref_register (instruments ref_buckets) [] = Some g"
proof -
  have "take 6 n \<noteq> ''retcd_''" if "n \<in> Name ` set []" for n using that by simp
  from metrics_register[OF refp.prometheus_axioms this] show ?thesis by blast
qed

end
