(* ===== verification/Program.thy ===== *)
theory Program
  imports Startup Metrics Instruments
begin

text \<open>
  The process of \<open>main.go\<close> around the services of \<open>Startup\<close>: the listener that must open before the
  store is touched, the options of the gRPC server, the sharing of the port by gRPC and HTTP, the
  HTTP endpoints, the ticker that publishes the pool's counters, and how the process ends.  The
  matchers of \<open>cmux\<close>, the handler of the metrics page and what the three \<open>Serve\<close> calls return are
  parameters.
\<close>

section \<open>The HTTP side\<close>

record http_response =
  Status_code :: int
  Content_Type :: string
  Body :: string

record versionInfo =
  EtcdServer :: string
  EtcdCluster :: string

text \<open>\<open>encoding/json\<close> on a struct of two strings, with the keys of the struct tags and a line feed at the
  end.  Both strings consist of digits and dots, which JSON does not escape.\<close>

definition json_field :: "string \<Rightarrow> string \<Rightarrow> string" where
  "json_field key v = [CHR 0x22] @ key @ [CHR 0x22, CHR 0x3A, CHR 0x22] @ v @ [CHR 0x22]"

definition json_Encode :: "versionInfo \<Rightarrow> string" where
  "json_Encode v = ''{'' @ json_field ''etcdserver'' (EtcdServer v) @ '','' @ json_field ''etcdcluster'' (EtcdCluster v) @ ''}'' @ [CHR 0x0A]"

definition versionHandler :: http_response where
  "versionHandler =
     \<lparr>Status_code = 200, Content_Type = ''application/json'', Body = json_Encode \<lparr>EtcdServer = ''3.5.24'', EtcdCluster = ''3.5.24''\<rparr>\<rparr>"

definition healthHandler :: http_response where
  "healthHandler = \<lparr>Status_code = 200, Content_Type = ''application/json'', Body = ''{'' @ json_field ''health'' ''true'' @ ''}''\<rparr>"

text \<open>\<open>http.ServeMux\<close> on a clean path: patterns without a trailing slash match that path only.\<close>

definition httpMux :: "http_response \<Rightarrow> string \<Rightarrow> http_response" where
  "httpMux metrics path =
     (if path = ''/version'' then versionHandler
      else if path = ''/health'' then healthHandler
      else if path = ''/metrics'' then metrics
      else \<lparr>Status_code = 404, Content_Type = ''text/plain; charset=utf-8'', Body = ''404 page not found'' @ [CHR 0x0A]\<rparr>)"

text \<open>The multiplexer asks its matchers in the order they were added and closes a connection that
  matches none.\<close>

datatype listener = grpcL | httpL

definition match_conn :: "('c \<Rightarrow> bool) \<Rightarrow> ('c \<Rightarrow> bool) \<Rightarrow> 'c \<Rightarrow> listener option" where
  "match_conn HTTP2MatchHeaderField HTTP1Fast c =
     (if HTTP2MatchHeaderField c then Some grpcL else if HTTP1Fast c then Some httpL else None)"

section \<open>The gRPC server and the pool's ticker\<close>

text \<open>The keepalive options, durations in seconds.\<close>

record keepalive_options =
  MinTime :: int
  PermitWithoutStream :: bool
  Time :: int
  Timeout :: int

definition grpc_keepalive :: keepalive_options where
  "grpc_keepalive = \<lparr>MinTime = 5, PermitWithoutStream = True, Time = 2 * 3600, Timeout = 20\<rparr>"

record PoolStats =
  TotalConns :: "32 word"
  IdleConns :: "32 word"
  Timeouts :: "32 word"
  Misses :: "32 word"

text \<open>The goroutine of the ticker: what \<open>rdb.PoolStats()\<close> returned at each tick.\<close>

fun pool_ticker :: "PoolStats list \<Rightarrow> pool_gauges \<Rightarrow> pool_gauges" where
  "pool_ticker [] g = g"
| "pool_ticker (st # sts) g = pool_ticker sts (RecordRedisPool (TotalConns st) (IdleConns st) (Timeouts st) (Misses st) g)"

section \<open>The process\<close>

datatype serve_error = Cmux_ErrServerClosed | Http_ErrServerClosed | Serve_Failed string

datatype exit = Returns | Fatalf string

definition main ::
  "(string \<Rightarrow> string) \<Rightarrow> (string \<Rightarrow> bool) \<Rightarrow> (Options \<Rightarrow> 'd redis \<times> ('n \<Rightarrow> outcome \<times> 'n)) \<Rightarrow> ('d, 'n, eventDispatcher) world \<Rightarrow>
   (exit + ('d, 'n, eventDispatcher) RedisStore \<times> ('d, 'n, eventDispatcher) world WatchServer) \<times> ('d, 'n, eventDispatcher) world"
where
  "main Getenv Listen connect w =
     (let listenAddr = envOr Getenv ''LISTEN_ADDR'' '':2379''
      in if \<not> Listen listenAddr then (Inl (Fatalf ''failed to listen''), w)
         else let (services, w1) = main_services Getenv connect w in (Inr services, w1))"

text \<open>What the three \<open>Serve\<close> calls return, in the order they do.  The two goroutines end quietly when
  their listener was closed; \<open>main\<close> itself ends with the multiplexer.\<close>

datatype serve_loop = Grpc_Serve | Http_Serve | Cmux_Serve

fun main_exit :: "(serve_loop \<times> serve_error option) list \<Rightarrow> exit option" where
  "main_exit [] = None"
| "main_exit ((Grpc_Serve, err) # es) =
     (if err \<noteq> None \<and> err \<noteq> Some Cmux_ErrServerClosed then Some (Fatalf ''grpc serve'') else main_exit es)"
| "main_exit ((Http_Serve, err) # es) =
     (if err \<noteq> None \<and> err \<noteq> Some Cmux_ErrServerClosed \<and> err \<noteq> Some Http_ErrServerClosed then Some (Fatalf ''http serve'') else main_exit es)"
| "main_exit ((Cmux_Serve, err) # es) = Some (if err \<noteq> None then Fatalf ''cmux serve'' else Returns)"


lemma main_refused: "fst (main Getenv Listen connect w) = Inl e \<Longrightarrow> snd (main Getenv Listen connect w) = w"
  by (auto simp: main_def split: prod.splits if_splits)

lemma versionHandler_body:
  "httpMux metrics ''/version'' = \<lparr>Status_code = 200, Content_Type = ''application/json'',
     Body = ''{'' @ json_field ''etcdserver'' ''3.5.24'' @ '','' @ json_field ''etcdcluster'' ''3.5.24'' @ ''}'' @ [CHR 0x0A]\<rparr>"
  by (simp add: httpMux_def versionHandler_def json_Encode_def)

lemma pool_ticker_last:
  "pool_ticker (sts @ [st]) g = \<lparr>g_TotalConns = of_nat (unat (TotalConns st)), g_IdleConns = of_nat (unat (IdleConns st)),
     g_Timeouts = of_nat (unat (Timeouts st)), g_Misses = of_nat (unat (Misses st))\<rparr>"
  by (induction sts arbitrary: g) (simp_all add: RecordRedisPool_def)

section \<open>Expiry and the watches\<close>















end
