(* ===== verification/ConnProps.thy ===== *)
theory ConnProps
  imports WatchExample
begin

text \<open>
  Properties of a Watch connection: its watches and their cancel functions, the create request, the
  contexts of the watches, and the metrics label of a watched key.
\<close>

section \<open>Watches of a connection\<close>










section \<open>Creating a watch\<close>

text \<open>A failed read turns a watch from now on into a replay.  The error of \<open>CurrentRevision\<close> is
  ignored when a watch is created; the revision then counts as 0, so a watch that was to start from
  now on is to be sent every event of its range since the first.\<close>

theorem create_error_replays:
  assumes "ws_store ws = redis_Store r" and "fst (CurrentRevision r (wc_world c)) = Inl err" and "WC_StartRevision cr \<le> 0"
    and "store_inv s"
  shows "\<exists>req. wc_running (handle_create ws send cr c) = (wc_watchID c + 1, req) # wc_running c \<and>
    wanted (WC_Key req) (WC_RangeEnd req) (WC_StartRevision req) (events_of s) =
      filter (\<lambda>ev. matchesWatch (EvKey ev) (WC_Key cr) (WC_RangeEnd cr)) (events_of s)"
proof -
  obtain w1 where "CurrentRevision r (wc_world c) = (Inl err, w1)" using assms(2) by (metis prod.collapse)
  then have "wc_running (handle_create ws send cr c) = (wc_watchID c + 1, cr\<lparr>WC_StartRevision := 1\<rparr>) # wc_running c"
    using assms(1,3) by (simp add: handle_create_def rev_or_zero_def redis_Store_def conn_send_def effectiveStartRevision_def Let_def)
  moreover have "wanted (WC_Key cr) (WC_RangeEnd cr) 1 (events_of s) = filter (\<lambda>ev. matchesWatch (EvKey ev) (WC_Key cr) (WC_RangeEnd cr)) (events_of s)"
    unfolding wanted_def using log_facts(2)[OF assms(4)] by (intro filter_cong) auto
  ultimately show ?thesis by simp
qed

theorem create_error_replays_witness:
  "\<exists>req. wc_running (handle_create \<lparr>ws_store = redis_Store (lossy_ref (Fail [1])), ws_disp = (\<lambda>_. one_watcher), ws_upd = (\<lambda>_ w. w)\<rparr> list_send
       (all_keys\<lparr>WC_StartRevision := 0\<rparr>)
       \<lparr>wc_world = one_key, wc_stream = [], wc_watchID = 0, wc_cancels = [], wc_cancelled = [], wc_running = []\<rparr>) = [(1, req)] \<and>
     length (wanted (WC_Key req) (WC_RangeEnd req) (WC_StartRevision req) (events_of (db one_key))) = 1"
proof -
  have "\<exists>err. fst (CurrentRevision (lossy_ref (Fail [1])) one_key) = Inl err"
    by (simp add: CurrentRevision_def lossy_ref_def call_def roundtrip_def bindE_def split: prod.splits)
  then obtain err where "fst (CurrentRevision (lossy_ref (Fail [1])) one_key) = Inl err" by blast
  then show ?thesis
    using create_error_replays[of "\<lparr>ws_store = redis_Store (lossy_ref (Fail [1])), ws_disp = (\<lambda>_. one_watcher), ws_upd = (\<lambda>_ w. w)\<rparr>"
        "lossy_ref (Fail [1])" "\<lparr>wc_world = one_key, wc_stream = [], wc_watchID = 0, wc_cancels = [], wc_cancelled = [], wc_running = []\<rparr>" err
        "all_keys\<lparr>WC_StartRevision := 0\<rparr>" "db one_key" list_send] one_key_facts(1) one_key_log
    by (auto simp: all_keys_def)
qed

section \<open>Contexts\<close>

text \<open>One step of anybody around a context, with whether its parent is done.\<close>

inductive ctx_step :: "bool \<times> cancelCtx \<Rightarrow> bool \<times> cancelCtx \<Rightarrow> bool" where
  "ctx_step (p, c) (True, c)"
| "ctx_step (p, c) (p, ctx_cancel c)"
| "ctx_step (p, c) (p, ctx_Done c)"
| "ctx_step (p, c) (p, snd (ctx_Err c))"
| "ctx_step (p, c) (p, ctx_forward p c)"

inductive_cases ctx_stepE: "ctx_step x y"

lemmas ctx_defs = ctx_cancel_def ctx_Done_def ctx_Err_def ctx_forward_def

lemma ctx_reach:
  assumes "ctx_step\<^sup>*\<^sup>* x y"
  shows "(cc_merged (snd x) \<longrightarrow> fst x \<or> cc_done (snd x)) \<longrightarrow> (cc_merged (snd y) \<longrightarrow> fst y \<or> cc_done (snd y))"
    and "cc_merged (snd x) \<longrightarrow> cc_merged (snd y)"
proof -
  have "((cc_merged (snd x) \<longrightarrow> fst x \<or> cc_done (snd x)) \<longrightarrow> (cc_merged (snd y) \<longrightarrow> fst y \<or> cc_done (snd y))) \<and>
    (cc_merged (snd x) \<longrightarrow> cc_merged (snd y))"
    using assms by (induction rule: rtranclp_induct) (auto elim!: ctx_stepE simp: ctx_defs split: if_splits)
  then show "(cc_merged (snd x) \<longrightarrow> fst x \<or> cc_done (snd x)) \<longrightarrow> (cc_merged (snd y) \<longrightarrow> fst y \<or> cc_done (snd y))"
    "cc_merged (snd x) \<longrightarrow> cc_merged (snd y)" by auto
qed

text \<open>The merged context of a watch.  \<open>Err\<close> reports an end only after \<open>cancel\<close> was called or
  the parent is done; once it has, it always will; and it does from the moment the forwarding
  goroutine has run after such an end.  Before that goroutine has run, \<open>Err\<close> still reports nothing,
  even directly after \<open>cancel\<close>.\<close>

theorem context_err:
  assumes "ctx_step\<^sup>*\<^sup>* (False, cancelOnParent) (p, c)"
  shows "(fst (ctx_Err c) \<longrightarrow> p \<or> cc_done c) \<and>
    (ctx_step\<^sup>*\<^sup>* (p, c) (p', c') \<longrightarrow> fst (ctx_Err c) \<longrightarrow> fst (ctx_Err c')) \<and>
    (p \<or> cc_done c \<longrightarrow> fst (ctx_Err (ctx_forward p (snd (ctx_Err c))))) \<and>
    \<not> fst (ctx_Err (ctx_cancel cancelOnParent))"
  using ctx_reach(1)[OF assms] ctx_reach(2)[of "(p, c)" "(p', c')"] by (auto simp: ctx_defs cancelOnParent_def)

theorem context_err_witness:
  "fst (ctx_Err (ctx_forward False (snd (ctx_Err (ctx_cancel cancelOnParent)))))"
proof -
  have "ctx_step\<^sup>*\<^sup>* (False, cancelOnParent) (False, ctx_cancel cancelOnParent)" by (intro r_into_rtranclp ctx_step.intros)
  from context_err[OF this, of False cancelOnParent] show ?thesis by (simp add: ctx_cancel_def)
qed

section \<open>Labels\<close>

lemma label_scan_spec:
  assumes "count_list seen (CHR ''/'') = n" and "n < 3"
  shows "case label_scan seen s n of
      Some l \<Rightarrow> \<exists>rest. seen @ s = l @ CHR ''/'' # rest \<and> count_list l (CHR ''/'') = 2
    | None \<Rightarrow> count_list (seen @ s) (CHR ''/'') < 3"
  using assms
proof (induction seen s n rule: label_scan.induct)
  case (2 seen c s n)
  show ?case
  proof (cases "c = CHR ''/'' \<and> n + 1 = 3")
    case True
    then show ?thesis using 2(3) by auto
  next
    case False
    then show ?thesis using 2 by (cases "c = CHR ''/''") (auto split: option.splits)
  qed
qed simp

text \<open>The metrics label of a watched key is the key up to its third slash; a key with fewer
  slashes is its own label, the empty key has the label \<open>(empty)\<close>.\<close>

theorem watchPrefixLabel_spec:
  "if count_list s (CHR ''/'') < 3 then watchPrefixLabel s = (if s = [] then ''(empty)'' else s)
   else \<exists>rest. s = watchPrefixLabel s @ CHR ''/'' # rest \<and> count_list (watchPrefixLabel s) (CHR ''/'') = 2"
  using label_scan_spec[of "[]" 0 s] by (auto simp: watchPrefixLabel_def split: option.splits)

end
