(* ===== verification/RoundTrip.thy ===== *)
theory RoundTrip
  imports DispInv StoreProps
begin

text \<open>
  What a write puts into Redis is what reads take out: the value through the stored blob, and the
  event through the fields of the stream entry.
\<close>

text \<open>The position behind the last event.\<close>

definition log_end :: "Event list \<Rightarrow> string" where
  "log_end evs = (if evs = [] then ''0'' else EvID (last evs))"

lemma events_after_end:
  assumes "distinct (map EvID (evs @ [ev]))" and "''0'' \<notin> EvID ` set evs"
  shows "events_after (log_end evs) (evs @ [ev]) = [ev]" and "known_id (log_end evs) (evs @ [ev])"
proof -
  have "events_after (log_end evs) (evs @ [ev]) = [ev] \<and> known_id (log_end evs) (evs @ [ev])"
  proof (cases evs rule: rev_cases)
    case Nil
    then show ?thesis by (simp add: log_end_def events_after_def known_id_def)
  next
    case (snoc xs e)
    then have "EvID e \<noteq> ''0''" using assms(2) by auto
    with snoc events_after_split[of xs e "[ev]"] assms(1) show ?thesis by (simp add: log_end_def known_id_def)
  qed
  then show "events_after (log_end evs) (evs @ [ev]) = [ev]" "known_id (log_end evs) (evs @ [ev])" by simp_all
qed

text \<open>C17: Writing and reading back.  After \<open>Put\<close>, \<open>Get\<close> returns exactly the value, the lease and
  the revisions that were written: the blob of the script decodes to what was encoded.  And reading the
  stream from behind the last event before the write returns exactly one event, the very one that was
  handed to the sink: the event built from the script's reply and the event parsed from the stream
  entry are the same.\<close>

theorem put_roundtrip:
  fixes k v :: bytes
  assumes "redis_store r view newid" and "store_inv (view (db w))" and "rev_of (view (db w)) < rev_limit" and "lease_ok l" and "0 < cnt"
  defines "w' \<equiv> snd (Put r k v l w)" and "s \<equiv> view (db w)"
  shows "fst (Get r k w') = Inr (Some
      \<lparr>Key = k, Value = v, CreateRevision = (case kv_at s k of None \<Rightarrow> rev_of s + 1 | Some old \<Rightarrow> CreateRevision old),
       ModRevision = rev_of s + 1, Version = (case kv_at s k of None \<Rightarrow> 1 | Some old \<Rightarrow> Version old + 1), Lease = l\<rparr>) \<and>
    (\<exists>ev. snk w' = feed r ev (snk w) \<and> fst (BlockReadEvents r c (log_end (events_of s)) cnt w') = Inr ([ev], EvID ev))"
proof -
  have com: "committed r view (mvcc_put k v l) w w'" unfolding w'_def by (rule redis_store.Put_ok(2)[OF assms(1-4)])
  then have inv: "store_inv (view (db w'))" and abs: "abs_store (view (db w')) = mvcc_put k v l (abs_store s)"
    by (simp_all add: committed_def s_def)
  have "kv_at (view (db w')) k = Some (next_kv k v l (abs_store s))"
    using arg_cong[OF abs, of "\<lambda>m. m_kv m k"] by (simp add: mvcc_put_def mvcc_write_def)
  then have g: "fst (Get r k w') = Inr (Some (next_kv k v l (abs_store s)))"
    using redis_store.Get_ok(1)[OF assms(1) inv] by simp
  obtain ev where ev: "events_of (view (db w')) = events_of s @ [ev]" "snk w' = feed r ev (snk w)"
    using com by (auto simp: committed_def s_def)
  have ids: "distinct (map EvID (events_of s @ [ev]))" "''0'' \<notin> EvID ` set (events_of s)"
    using events_of_ids[OF inv] by (auto simp: ev(1))
  note e = events_after_end[OF ids]
  have "fst (BlockReadEvents r c (log_end (events_of s)) cnt w') = Inr ([ev], EvID ev)"
    using redis_store.BlockReadEvents_some[OF assms(1) inv, of "log_end (events_of s)" cnt c] e assms(5) by (simp add: ev(1) Let_def)
  with g ev(2) show ?thesis by (auto simp: next_kv_def split: option.split)
qed

theorem put_roundtrip_witness:
  "fst (Get ref_store ''a'' (snd (Put ref_store ''a'' ''y'' 7 one_key))) =
     Inr (Some \<lparr>Key = ''a'', Value = ''y'', CreateRevision = 1, ModRevision = 2, Version = 2, Lease = 7\<rparr>)"
  using put_roundtrip[OF refs.redis_store_axioms, of one_key 7 1000 "''a''" "''y''" False] one_key_facts
  by (simp add: lease_ok_def rev_limit_def)

end
