(* ===== verification/KVFacts.thy ===== *)
theory KVFacts
  imports KVServer StoreProps
begin

text \<open>
  The KV service against the abstract store, for any store that keeps the \<open>mvcc_store\<close> contract:
  which keys a range request returns and deletes, what a transaction compares and does, and that the
  two fast paths of \<open>Txn\<close> give the answer of the generic path.
\<close>

section \<open>Abstract ranges\<close>

definition matching_keys :: "bytes \<Rightarrow> bytes \<Rightarrow> mvcc \<Rightarrow> bytes list" where
  "matching_keys key rangeEnd m = sorted_list_of_set {k. m_kv m k \<noteq> None \<and> matchesWatch k key rangeEnd}"

definition matching :: "bytes \<Rightarrow> bytes \<Rightarrow> mvcc \<Rightarrow> KeyValue list" where
  "matching key rangeEnd m = map (\<lambda>k. the (m_kv m k)) (matching_keys key rangeEnd m)"

lemma filter_sorted_list:
  "finite S \<Longrightarrow> filter P (sorted_list_of_set S) = sorted_list_of_set {x \<in> S. P x}"
  for S :: "'a :: linorder set"
  by (rule sorted_distinct_set_unique) (simp_all add: sorted_filter[where f = id, simplified])

text \<open>Requests whose compare, put and fallback read are about one key, and which do not use the
  reserved expected revision -1.\<close>

definition same_key :: "TxnRequest \<Rightarrow> bool" where
  "same_key req \<longleftrightarrow>
     (case (T_Compare req, T_Success req, T_Failure req) of
        ([c], [RequestPut p], []) \<Rightarrow> PR_Key p = C_Key c
      | ([c], [RequestPut p], [RequestRange q]) \<Rightarrow>
          PR_Key p = C_Key c \<and> RR_Key q = C_Key c \<and> RR_RangeEnd q = [] \<and> \<not> RR_CountOnly q \<and>
          GetModRevision (C_Union c) \<noteq> - 1
      | _ \<Rightarrow> True)"

section \<open>The handlers\<close>

context mvcc_store
begin

lemma rev_pos: "I w \<Longrightarrow> 0 \<le> m_rev (A w) \<and> m_rev (A w) \<le> rev_limit"
  using inv[of w] by (simp add: mvcc_inv_def)

lemma rev_or_zero_ok:
  assumes "I w"
  shows "fst (rev_or_zero S w) = Inr (max 1 (m_rev (A w)))" "A (snd (rev_or_zero S w)) = A w"
    "I (snd (rev_or_zero S w))"
  using CurrentRevision[OF assms] by (cases "st_CurrentRevision S w"; simp add: rev_or_zero_def)+

lemma header_ok:
  assumes "I w"
  shows "fst (header S w) = Inr (hdr (max 1 (m_rev (A w))))" "A (snd (header S w)) = A w" "I (snd (header S w))"
  using rev_or_zero_ok[OF assms] by (simp_all add: header_def step)

lemma raise_rev_ok:
  assumes "I w"
  shows "fst (raise_rev S rv w) = Inr (max rv (max 1 (m_rev (A w))))" "A (snd (raise_rev S rv w)) = A w"
    "I (snd (raise_rev S rv w))"
proof -
  obtain c w' where c: "st_CurrentRevision S w = (Inr c, w')" "c = max 1 (m_rev (A w))" "A w' = A w" "I w'"
    using CurrentRevision[OF assms] by (cases "st_CurrentRevision S w") auto
  have "(if rv < c then c else rv) = max rv c" by (simp add: max_def)
  then show "fst (raise_rev S rv w) = Inr (max rv (max 1 (m_rev (A w))))" "A (snd (raise_rev S rv w)) = A w"
    "I (snd (raise_rev S rv w))"
    unfolding raise_rev_def c(1) c(2)[symmetric] using c(3,4) by simp_all
qed

lemma KV_Put_ok:
  assumes "I w" and "room (A w)" and "lease_ok (PR_Lease req)"
  shows "fst (KV_Put S req w) = Inr \<lparr>PP_Header = hdr (m_rev (A w) + 1),
      PP_PrevKv = (if PR_PrevKv req then map_option toProtoKV (m_kv (A w) (PR_Key req)) else None)\<rparr>"
    "A (snd (KV_Put S req w)) = mvcc_put (PR_Key req) (PR_Value req) (PR_Lease req) (A w)"
    "I (snd (KV_Put S req w))"
  using assms by (simp_all add: KV_Put_def step Put)

lemma scan_filter:
  assumes "I w" and "rangeEnd \<noteq> []" and "\<not> nul_clash key rangeEnd"
  shows "filter (\<lambda>kv. in_request_range (Key kv) key rangeEnd) (mvcc_range (commonPrefix key rangeEnd) (A w)) =
    matching key rangeEnd (A w)"
proof -
  let ?ks = "sorted_list_of_set {k. m_kv (A w) k \<noteq> None \<and> prefix (commonPrefix key rangeEnd) k}"
  have fin: "finite {k. m_kv (A w) k \<noteq> None \<and> prefix (commonPrefix key rangeEnd) k}"
    using fin_range[OF assms(1)] .
  have key: "Key (the (m_kv (A w) k)) = k" if "k \<in> set ?ks" for k
    using that fin inv[OF assms(1)] by (auto dest: Key_stored)
  have "filter (\<lambda>kv. in_request_range (Key kv) key rangeEnd) (map (\<lambda>k. the (m_kv (A w) k)) ?ks) =
      map (\<lambda>k. the (m_kv (A w) k)) (filter (\<lambda>k. in_request_range k key rangeEnd) ?ks)"
    using key by (simp add: filter_map comp_def cong: filter_cong)
  also have "filter (\<lambda>k. in_request_range k key rangeEnd) ?ks = matching_keys key rangeEnd (A w)"
    unfolding matching_keys_def filter_sorted_list[OF fin] in_request_range_matchesWatch[OF assms(2)]
    using scan_prefix_covers[OF _ assms(3)] in_request_range_matchesWatch[OF assms(2)]
    by (intro arg_cong[where f = sorted_list_of_set]) auto
  finally show ?thesis by (simp add: mvcc_range_def matching_def)
qed

lemma matching_single:
  "matching key [] m = (case m_kv m key of Some kv \<Rightarrow> [kv] | None \<Rightarrow> [])"
proof -
  have "{k. m_kv m k \<noteq> None \<and> matchesWatch k key []} = (if m_kv m key = None then {} else {key})"
    by (auto simp: matchesWatch_def)
  then show ?thesis by (auto simp: matching_def matching_keys_def split: option.splits)
qed

lemma KV_Range_ok:
  assumes "I w" and "\<not> nul_clash (RR_Key req) (RR_RangeEnd req)"
  defines "kvs \<equiv> matching (RR_Key req) (RR_RangeEnd req) (A w)"
  shows "fst (KV_Range S req w) = Inr \<lparr>RP_Header = hdr (max 1 (m_rev (A w))), RP_Count = int (length kvs),
      RP_Kvs = (if RR_CountOnly req then [] else map toProtoKV kvs)\<rparr>"
    "A (snd (KV_Range S req w)) = A w" "I (snd (KV_Range S req w))"
proof -
  have rv: "max (case m_kv (A w) k of Some x \<Rightarrow> ModRevision x | None \<Rightarrow> 0) (max 1 (m_rev (A w))) = max 1 (m_rev (A w))" for k
    using mvcc_invD[OF inv[OF assms(1)], of k] by (auto simp: kv_ok_def split: option.splits)
  have "fst (KV_Range S req w) = Inr \<lparr>RP_Header = hdr (max 1 (m_rev (A w))), RP_Count = int (length kvs),
      RP_Kvs = (if RR_CountOnly req then [] else map toProtoKV kvs)\<rparr> \<and>
    A (snd (KV_Range S req w)) = A w \<and> I (snd (KV_Range S req w))"
  proof (cases "RR_RangeEnd req = []")
    case True
    define kv where "kv = m_kv (A w) (RR_Key req)"
    define w1 where "w1 = snd (st_Get S (RR_Key req) w)"
    have g: "fst (st_Get S (RR_Key req) w) = Inr kv" "A w1 = A w" "I w1"
      using Get[OF assms(1)] by (simp_all add: kv_def w1_def)
    have "KV_Range S req w = bindE (raise_rev S (case kv of Some x \<Rightarrow> ModRevision x | None \<Rightarrow> 0))
        (\<lambda>rv. retE \<lparr>RP_Header = hdr rv, RP_Count = int (length kvs),
          RP_Kvs = (if RR_CountOnly req then [] else map toProtoKV kvs)\<rparr>) w1"
      using True g(1) by (simp add: KV_Range_def Let_def bindE_assoc bindE_Inr w1_def[symmetric] kvs_def matching_single
          kv_def[symmetric] bindE_retE)
    then show ?thesis
      using raise_rev_ok[OF g(3)] rv[of "RR_Key req"] unfolding g(2) kv_def by (simp add: step)
  next
    case False
    then show ?thesis
      using assms(1) Range[OF assms(1)] scan_filter[OF assms(1) False assms(2)]
      by (simp add: KV_Range_def step Let_def kvs_def)
  qed
  then show "fst (KV_Range S req w) = Inr \<lparr>RP_Header = hdr (max 1 (m_rev (A w))), RP_Count = int (length kvs),
      RP_Kvs = (if RR_CountOnly req then [] else map toProtoKV kvs)\<rparr>"
    "A (snd (KV_Range S req w)) = A w" "I (snd (KV_Range S req w))" by blast+
qed

lemma delete_loop_ok:
  assumes "I w" and "m_rev (A w) + int (length (filter (\<lambda>kv. in_request_range (Key kv) key rangeEnd) kvs)) \<le> rev_limit"
  defines "ds \<equiv> map Key (filter (\<lambda>kv. in_request_range (Key kv) key rangeEnd) kvs)"
  shows "fst (delete_loop S key rangeEnd kvs n w) = Inr (n + int (length ds)) \<and>
    A (snd (delete_loop S key rangeEnd kvs n w)) = fold mvcc_delete ds (A w) \<and>
    I (snd (delete_loop S key rangeEnd kvs n w))"
  using assms(1,2) unfolding ds_def
proof (induction kvs arbitrary: w n)
  case (Cons kv kvs)
  show ?case
  proof (cases "in_request_range (Key kv) key rangeEnd")
    case True
    with Cons.prems have "room (A w)" by simp
    note d = Delete[OF Cons.prems(1) this, of "Key kv"]
    have "m_rev (A (snd (st_Delete S (Key kv) w))) + int (length (filter (\<lambda>kv. in_request_range (Key kv) key rangeEnd) kvs)) \<le> rev_limit"
      using Cons.prems(2) True m_rev_delete_le[of "Key kv" "A w"] by (simp add: d)
    note IH = Cons.IH[OF d(3) this, of "n + 1"]
    have "delete_loop S key rangeEnd (kv # kvs) n w = delete_loop S key rangeEnd kvs (n + 1) (snd (st_Delete S (Key kv) w))"
      using True d(1) by (simp add: bindE_Inr)
    then show ?thesis using IH True d(2) by simp
  next
    case False
    then have "delete_loop S key rangeEnd (kv # kvs) n w = delete_loop S key rangeEnd kvs n w" by simp
    then show ?thesis using Cons.IH[OF Cons.prems(1), of n] Cons.prems(2) False by simp
  qed
qed (simp add: retE_def)

lemma Key_matching: "I w \<Longrightarrow> map Key (matching key rangeEnd (A w)) = matching_keys key rangeEnd (A w)"
proof -
  assume w: "I w"
  have "set (matching_keys key rangeEnd (A w)) = {k. m_kv (A w) k \<noteq> None \<and> matchesWatch k key rangeEnd}"
    unfolding matching_keys_def by (rule set_sorted_list_of_set[OF fin_range[OF w]])
  then have "Key (the (m_kv (A w) k)) = k" if "k \<in> set (matching_keys key rangeEnd (A w))" for k
    using that inv[OF w] by (auto dest: Key_stored)
  then show ?thesis by (simp add: matching_def comp_def map_idI)
qed

lemma matching_keys_present:
  assumes "I w"
  shows "distinct (matching_keys key rangeEnd (A w))"
    and "\<forall>k\<in>set (matching_keys key rangeEnd (A w)). m_kv (A w) k \<noteq> None"
    and "k \<in> set (matching_keys key rangeEnd (A w)) \<longleftrightarrow> m_kv (A w) k \<noteq> None \<and> matchesWatch k key rangeEnd"
  using set_sorted_list_of_set[OF fin_range[OF assms]] by (simp_all add: matching_keys_def)

lemma KV_DeleteRange_ok:
  assumes "I w" and "\<not> nul_clash (DR_Key req) (DR_RangeEnd req)"
  defines "ks \<equiv> matching_keys (DR_Key req) (DR_RangeEnd req) (A w)"
  assumes "m_rev (A w) + int (length ks) < rev_limit"
  shows "fst (KV_DeleteRange S req w) =
      Inr \<lparr>DP_Header = hdr (max 1 (m_rev (A w) + int (length ks))), DP_Deleted = int (length ks)\<rparr>"
    "A (snd (KV_DeleteRange S req w)) = fold mvcc_delete ks (A w)" "I (snd (KV_DeleteRange S req w))"
proof -
  have rv: "m_rev (fold mvcc_delete ks (A w)) = m_rev (A w) + int (length ks)"
    using fold_delete[of ks "A w"] matching_keys_present(1,2)[OF assms(1)] by (simp add: ks_def)
  have "\<exists>w1. KV_DeleteRange S req w =
      bindE (header S) (\<lambda>h. retE \<lparr>DP_Header = h, DP_Deleted = int (length ks)\<rparr>) w1 \<and>
      A w1 = fold mvcc_delete ks (A w) \<and> I w1"
  proof (cases "DR_RangeEnd req = []")
    case True
    let ?w = "snd (st_Delete S (DR_Key req) w)"
    have r: "room (A w)" using assms(4) by simp
    have ks: "ks = (if m_kv (A w) (DR_Key req) = None then [] else [DR_Key req])"
      using Key_matching[OF assms(1), of "DR_Key req" "[]"] Key_stored[OF inv[OF assms(1)]] True
      by (auto simp: ks_def matching_single split: option.splits)
    have "KV_DeleteRange S req w = bindE (header S) (\<lambda>h. retE \<lparr>DP_Header = h, DP_Deleted = int (length ks)\<rparr>) ?w"
      using True Delete(1)[OF assms(1) r] by (simp add: KV_DeleteRange_def bindE_assoc bindE_Inr ks)
    moreover have "A ?w = fold mvcc_delete ks (A w)"
      using Delete(2)[OF assms(1) r] by (auto simp: ks mvcc_delete_def)
    ultimately show ?thesis using Delete(3)[OF assms(1) r] by blast
  next
    case False
    define kvs where "kvs = mvcc_range (commonPrefix (DR_Key req) (DR_RangeEnd req)) (A w)"
    define w0 where "w0 = snd (st_Range S (commonPrefix (DR_Key req) (DR_RangeEnd req)) w)"
    have w0: "A w0 = A w" "I w0" using Range[OF assms(1)] by (simp_all add: w0_def)
    have f: "map Key (filter (\<lambda>kv. in_request_range (Key kv) (DR_Key req) (DR_RangeEnd req)) kvs) = ks"
      using scan_filter[OF assms(1) False assms(2)] Key_matching[OF assms(1)] by (simp add: kvs_def ks_def)
    from arg_cong[OF f, of length] have len: "length (filter (\<lambda>kv. in_request_range (Key kv) (DR_Key req) (DR_RangeEnd req)) kvs) = length ks" by simp
    have "m_rev (A w0) + int (length (filter (\<lambda>kv. in_request_range (Key kv) (DR_Key req) (DR_RangeEnd req)) kvs)) \<le> rev_limit"
      using assms(4) len w0 by simp
    note loop = delete_loop_ok[OF w0(2) this, of 0, unfolded f w0(1)]
    have "KV_DeleteRange S req w = bindE (delete_loop S (DR_Key req) (DR_RangeEnd req) kvs 0)
        (\<lambda>deleted. bindE (header S) (\<lambda>h. retE \<lparr>DP_Header = h, DP_Deleted = deleted\<rparr>)) w0"
      using False Range(1)[OF assms(1)] by (simp add: KV_DeleteRange_def Let_def bindE_assoc bindE_Inr kvs_def w0_def)
    with loop show ?thesis by (auto simp: bindE_Inr)
  qed
  then obtain w1 where w1: "KV_DeleteRange S req w =
      bindE (header S) (\<lambda>h. retE \<lparr>DP_Header = h, DP_Deleted = int (length ks)\<rparr>) w1"
      "A w1 = fold mvcc_delete ks (A w)" "I w1" by blast
  show "fst (KV_DeleteRange S req w) =
      Inr \<lparr>DP_Header = hdr (max 1 (m_rev (A w) + int (length ks))), DP_Deleted = int (length ks)\<rparr>"
    "A (snd (KV_DeleteRange S req w)) = fold mvcc_delete ks (A w)" "I (snd (KV_DeleteRange S req w))"
    unfolding w1(1) using header_ok[OF w1(3)] w1(2) rv by (simp_all add: bindE_Inr retE_def)
qed

lemma evalCompares_ok:
  assumes "I w"
  shows "fst (evalCompares S cs w) = Inr (list_all (\<lambda>c. compare_kv c (m_kv (A w) (C_Key c))) cs) \<and>
    A (snd (evalCompares S cs w)) = A w \<and> I (snd (evalCompares S cs w))"
  using assms
proof (induction cs arbitrary: w)
  case (Cons c cs)
  have e: "fst (evalCompare S c w) = Inr (compare_kv c (m_kv (A w) (C_Key c)))"
    "A (snd (evalCompare S c w)) = A w" "I (snd (evalCompare S c w))"
    using Get[OF Cons.prems] by (simp_all add: evalCompare_def step)
  show ?case
    using Cons.IH[OF e(3)] e by (auto simp: bindE_Inr retE_def)
qed (simp add: retE_def)

lemma mod_zero_absent: "I w \<Longrightarrow> (case m_kv (A w) k of Some x \<Rightarrow> ModRevision x | None \<Rightarrow> 0) = 0 \<longleftrightarrow> m_kv (A w) k = None"
  using mvcc_invD[OF inv, of w k] by (auto simp: kv_ok_def split: option.splits)

text \<open>The generic path on a one-compare, one-put transaction.\<close>

lemma genericTxn_put:
  assumes w: "I w" "room (A w)" "lease_ok (PR_Lease p)"
    and c: "compare_kv c (m_kv (A w) (C_Key c))"
  shows "fst (genericTxn S \<lparr>T_Compare = [c], T_Success = [RequestPut p], T_Failure = fs\<rparr> w) =
      Inr \<lparr>TR_Header = hdr (m_rev (A w) + 1), TR_Succeeded = True, TR_Responses = [put_response (m_rev (A w) + 1)]\<rparr>"
    and "A (snd (genericTxn S \<lparr>T_Compare = [c], T_Success = [RequestPut p], T_Failure = fs\<rparr> w)) =
      mvcc_put (PR_Key p) (PR_Value p) (PR_Lease p) (A w)"
    and "I (snd (genericTxn S \<lparr>T_Compare = [c], T_Success = [RequestPut p], T_Failure = fs\<rparr> w))"
proof -
  define w1 where "w1 = snd (evalCompares S [c] w)"
  have e: "fst (evalCompares S [c] w) = Inr True" "A w1 = A w" "I w1"
    using evalCompares_ok[OF w(1), of "[c]"] c by (simp_all add: w1_def)
  define w2 where "w2 = snd (st_Put S (PR_Key p) (PR_Value p) (PR_Lease p) w1)"
  have p: "fst (st_Put S (PR_Key p) (PR_Value p) (PR_Lease p) w1) = Inr (m_rev (A w) + 1, m_kv (A w) (PR_Key p))"
    "A w2 = mvcc_put (PR_Key p) (PR_Value p) (PR_Lease p) (A w)" "I w2"
    using Put[OF e(3) _ w(3)] w(2) unfolding w2_def by (simp_all add: e(2))
  have rv: "max 1 (m_rev (A w2)) = m_rev (A w) + 1" using rev_pos[OF w(1)] by (simp add: p(2) mvcc_put_def mvcc_write_def)
  have g: "genericTxn S \<lparr>T_Compare = [c], T_Success = [RequestPut p], T_Failure = fs\<rparr> w =
      bindE (header S) (\<lambda>h. retE \<lparr>TR_Header = h, TR_Succeeded = True, TR_Responses = [put_response (m_rev (A w) + 1)]\<rparr>) w2"
    using e(1) p(1)
    by (simp add: genericTxn_def bindE_Inr w1_def[symmetric] executeOp_def bindE_assoc w2_def[symmetric]
        del: evalCompares.simps)
  show "fst (genericTxn S \<lparr>T_Compare = [c], T_Success = [RequestPut p], T_Failure = fs\<rparr> w) =
      Inr \<lparr>TR_Header = hdr (m_rev (A w) + 1), TR_Succeeded = True, TR_Responses = [put_response (m_rev (A w) + 1)]\<rparr>"
    "A (snd (genericTxn S \<lparr>T_Compare = [c], T_Success = [RequestPut p], T_Failure = fs\<rparr> w)) =
      mvcc_put (PR_Key p) (PR_Value p) (PR_Lease p) (A w)"
    "I (snd (genericTxn S \<lparr>T_Compare = [c], T_Success = [RequestPut p], T_Failure = fs\<rparr> w))"
    unfolding g using header_ok[OF p(3)] rv p(2) by (simp_all add: bindE_Inr retE_def)
qed

lemma genericTxn_reject:
  assumes w: "I w" and c: "\<not> compare_kv c (m_kv (A w) (C_Key c))"
  shows "fst (genericTxn S \<lparr>T_Compare = [c], T_Success = ss, T_Failure = []\<rparr> w) =
      Inr \<lparr>TR_Header = hdr (max 1 (m_rev (A w))), TR_Succeeded = False, TR_Responses = []\<rparr>"
    and "A (snd (genericTxn S \<lparr>T_Compare = [c], T_Success = ss, T_Failure = []\<rparr> w)) = A w"
    and "RR_RangeEnd q = [] \<Longrightarrow> \<not> RR_CountOnly q \<Longrightarrow>
      fst (genericTxn S \<lparr>T_Compare = [c], T_Success = ss, T_Failure = [RequestRange q]\<rparr> w) =
      Inr \<lparr>TR_Header = hdr (max 1 (m_rev (A w))), TR_Succeeded = False,
        TR_Responses = [ResponseRange (case m_kv (A w) (RR_Key q) of
            Some kv \<Rightarrow> \<lparr>RP_Header = hdr (max 1 (m_rev (A w))), RP_Count = 1, RP_Kvs = [toProtoKV kv]\<rparr>
          | None \<Rightarrow> \<lparr>RP_Header = hdr (max 1 (m_rev (A w))), RP_Count = 0, RP_Kvs = []\<rparr>)]\<rparr>"
    and "RR_RangeEnd q = [] \<Longrightarrow> \<not> RR_CountOnly q \<Longrightarrow>
      A (snd (genericTxn S \<lparr>T_Compare = [c], T_Success = ss, T_Failure = [RequestRange q]\<rparr> w)) = A w"
proof -
  define w1 where "w1 = snd (evalCompares S [c] w)"
  have e: "fst (evalCompares S [c] w) = Inr False" "A w1 = A w" "I w1"
    using evalCompares_ok[OF w, of "[c]"] c by (simp_all add: w1_def)
  have g0: "genericTxn S \<lparr>T_Compare = [c], T_Success = ss, T_Failure = []\<rparr> w =
      bindE (header S) (\<lambda>h. retE \<lparr>TR_Header = h, TR_Succeeded = False, TR_Responses = []\<rparr>) w1"
    by (simp add: genericTxn_def bindE_Inr[of "evalCompares S [c]" w False, OF e(1)] w1_def[symmetric] del: evalCompares.simps)
  show "fst (genericTxn S \<lparr>T_Compare = [c], T_Success = ss, T_Failure = []\<rparr> w) =
      Inr \<lparr>TR_Header = hdr (max 1 (m_rev (A w))), TR_Succeeded = False, TR_Responses = []\<rparr>"
    "A (snd (genericTxn S \<lparr>T_Compare = [c], T_Success = ss, T_Failure = []\<rparr> w)) = A w"
    unfolding g0 using header_ok[OF e(3)] e(2) by (simp_all add: bindE_Inr retE_def)
  assume q: "RR_RangeEnd q = []" "\<not> RR_CountOnly q"
  have nc: "\<not> nul_clash (RR_Key q) (RR_RangeEnd q)" by (simp add: q nul_clash_def)
  define w2 where "w2 = snd (KV_Range S q w1)"
  note r = KV_Range_ok[OF e(3) nc, unfolded e(2) q(1) matching_single]
  have r': "A w2 = A w" "I w2" using r(2,3) by (simp_all add: w2_def)
  define resp where "resp = (case m_kv (A w) (RR_Key q) of
            Some kv \<Rightarrow> \<lparr>RP_Header = hdr (max 1 (m_rev (A w))), RP_Count = 1, RP_Kvs = [toProtoKV kv]\<rparr>
          | None \<Rightarrow> \<lparr>RP_Header = hdr (max 1 (m_rev (A w))), RP_Count = 0, RP_Kvs = []\<rparr>)"
  have "fst (KV_Range S q w1) = Inr resp" using r(1) q by (simp add: resp_def split: option.splits)
  then have g: "genericTxn S \<lparr>T_Compare = [c], T_Success = ss, T_Failure = [RequestRange q]\<rparr> w =
      bindE (header S) (\<lambda>h. retE \<lparr>TR_Header = h, TR_Succeeded = False, TR_Responses = [ResponseRange resp]\<rparr>) w2"
    by (simp add: genericTxn_def bindE_Inr[of "evalCompares S [c]" w False, OF e(1)] bindE_Inr w1_def[symmetric] executeOp_def bindE_assoc
        w2_def[symmetric] del: evalCompares.simps)
  show "fst (genericTxn S \<lparr>T_Compare = [c], T_Success = ss, T_Failure = [RequestRange q]\<rparr> w) =
      Inr \<lparr>TR_Header = hdr (max 1 (m_rev (A w))), TR_Succeeded = False,
        TR_Responses = [ResponseRange (case m_kv (A w) (RR_Key q) of
            Some kv \<Rightarrow> \<lparr>RP_Header = hdr (max 1 (m_rev (A w))), RP_Count = 1, RP_Kvs = [toProtoKV kv]\<rparr>
          | None \<Rightarrow> \<lparr>RP_Header = hdr (max 1 (m_rev (A w))), RP_Count = 0, RP_Kvs = []\<rparr>)]\<rparr>"
    "A (snd (genericTxn S \<lparr>T_Compare = [c], T_Success = ss, T_Failure = [RequestRange q]\<rparr> w)) = A w"
    unfolding resp_def[symmetric] g using header_ok[OF r'(2)] r' by (simp_all add: bindE_Inr retE_def)
qed

lemma create_agrees:
  assumes w: "I w" "room (A w)" and c: "isCreate req = Some p" and k: "same_key req" and l: "lease_ok (PR_Lease p)"
  shows "fst (kv_create S p w) = fst (genericTxn S req w) \<and>
    m_kv (A (snd (kv_create S p w))) = m_kv (A (snd (genericTxn S req w))) \<and>
    m_rev (A (snd (kv_create S p w))) = m_rev (A (snd (genericTxn S req w))) \<and>
    m_log (A (snd (kv_create S p w))) = m_log (A (snd (genericTxn S req w)))"
proof -
  obtain c where req: "req = \<lparr>T_Compare = [c], T_Success = [RequestPut p], T_Failure = []\<rparr>"
    and cmp: "C_Target c = MOD" "C_Result c = EQUAL" "GetModRevision (C_Union c) = 0"
    using c by (cases req) (auto simp: isCreate_def split: list.splits if_splits elim!: GetRequestPut.elims)
  have key: "PR_Key p = C_Key c" using k by (simp add: req same_key_def)
  have ok: "compare_kv c (m_kv (A w) (C_Key c)) \<longleftrightarrow> m_kv (A w) (C_Key c) = None"
    using mod_zero_absent[OF w(1), of "C_Key c"] cmp by (simp add: compare_kv_def cmp_result_def)
  have cas: "cas_ok (- 1) (m_kv (A w) (C_Key c)) \<longleftrightarrow> m_kv (A w) (C_Key c) = None" by (simp add: cas_ok_def)
  note t = Txn[OF w l, of "C_Key c" "- 1" "PR_Value p"]
  show ?thesis
  proof (cases "m_kv (A w) (C_Key c) = None")
    case True
    then have m: "compare_kv c (m_kv (A w) (C_Key c))" using ok by simp
    show ?thesis unfolding req
      using True t genericTxn_put[OF w l m, of "[]"] cas
      by (simp add: kv_create_def bindE_Inr retE_def key mvcc_put_def mvcc_cas_def)
  next
    case False
    then have m: "\<not> compare_kv c (m_kv (A w) (C_Key c))" using ok by simp
    show ?thesis unfolding req
      using t[unfolded if_not_P[OF False[folded cas]]] genericTxn_reject(1,2)[OF w(1) m] False cas
      by (simp add: kv_create_def bindE_Inr retE_def key mvcc_cas_def)
  qed
qed

lemma update_agrees:
  assumes w: "I w" "room (A w)" and u: "isUpdate req = Some (e, key, v, l)" and k: "same_key req" and l: "lease_ok l"
  shows "fst (kv_update S key e v l w) = fst (genericTxn S req w) \<and>
    m_kv (A (snd (kv_update S key e v l w))) = m_kv (A (snd (genericTxn S req w))) \<and>
    m_rev (A (snd (kv_update S key e v l w))) = m_rev (A (snd (genericTxn S req w))) \<and>
    m_log (A (snd (kv_update S key e v l w))) = m_log (A (snd (genericTxn S req w)))"
proof -
  obtain c p q where req: "req = \<lparr>T_Compare = [c], T_Success = [RequestPut p], T_Failure = [RequestRange q]\<rparr>"
    and cmp: "C_Target c = MOD" "C_Result c = EQUAL"
    and e: "e = GetModRevision (C_Union c)" "key = C_Key c" "v = PR_Value p" "l = PR_Lease p"
    using u by (cases req) (auto simp: isUpdate_def split: list.splits if_splits elim!: GetRequestPut.elims GetRequestRange.elims)
  have kk: "PR_Key p = C_Key c" "RR_Key q = C_Key c" "RR_RangeEnd q = []" "\<not> RR_CountOnly q" "e \<noteq> - 1"
    using k e(1) by (simp_all add: req same_key_def)
  have ok: "compare_kv c (m_kv (A w) (C_Key c)) \<longleftrightarrow> cas_ok e (m_kv (A w) (C_Key c))"
    using cmp kk(5) by (simp add: compare_kv_def cmp_result_def cas_ok_def mod_of_def e(1))
  note t = Txn[OF w l, of "C_Key c" e "PR_Value p"]
  show ?thesis
  proof (cases "cas_ok e (m_kv (A w) (C_Key c))")
    case True
    then have m: "compare_kv c (m_kv (A w) (C_Key c))" using ok by simp
    show ?thesis unfolding req
      using True t genericTxn_put[OF w l[unfolded e(4)] m, of "[RequestRange q]"]
      by (simp add: kv_update_def bindE_Inr retE_def kk e(2-4) mvcc_put_def mvcc_cas_def)
  next
    case False
    then have m: "\<not> compare_kv c (m_kv (A w) (C_Key c))" using ok by simp
    show ?thesis unfolding req
      using False t genericTxn_reject(3,4)[OF w(1) m kk(3,4)]
      by (simp add: kv_update_def bindE_Inr retE_def kk e(2-4) mvcc_cas_def split: option.split)
  qed
qed

lemma KV_Txn_agrees:
  assumes w: "I w" "room (A w)" and k: "same_key req" and l: "\<forall>p. RequestPut p \<in> set (T_Success req) \<longrightarrow> lease_ok (PR_Lease p)"
  shows "fst (KV_Txn S req w) = fst (genericTxn S req w) \<and>
    m_kv (A (snd (KV_Txn S req w))) = m_kv (A (snd (genericTxn S req w))) \<and>
    m_rev (A (snd (KV_Txn S req w))) = m_rev (A (snd (genericTxn S req w))) \<and>
    m_log (A (snd (KV_Txn S req w))) = m_log (A (snd (genericTxn S req w)))"
proof (cases "isCreate req")
  case (Some p)
  then have "RequestPut p \<in> set (T_Success req)"
    by (auto simp: isCreate_def split: list.splits if_splits elim!: GetRequestPut.elims)
  with l create_agrees[OF w Some k] Some show ?thesis by (simp add: KV_Txn_def)
next
  case None
  show ?thesis
  proof (cases "isUpdate req")
    case upd: (Some u)
    obtain e key v lease where u: "u = (e, key, v, lease)" by (cases u)
    have "\<exists>p. RequestPut p \<in> set (T_Success req) \<and> PR_Lease p = lease"
      using upd u by (auto simp: isUpdate_def split: list.splits if_splits elim!: GetRequestPut.elims)
    then have "lease_ok lease" using l by blast
    with update_agrees[OF w upd[unfolded u] k] None upd u show ?thesis by (simp add: KV_Txn_def)
  qed (simp add: KV_Txn_def None)
qed

end

end
