(* ===== verification/KVProps.thy ===== *)
theory KVProps
  imports KVFacts
begin

text \<open>The properties of the KV service on the Redis store.\<close>

text \<open>C7: A range request returns exactly the current values of the keys a watch on the same range would
  report (the single key, the half-open interval, or everything from the key on), each once and in
  key order, with their number and the current revision; \<open>CountOnly\<close> drops the values but not the
  count.  Excluded is a key that starts with a NUL byte together with the range end NUL.\<close>

theorem KV_Range_exact:
  assumes "redis_store r view newid" and "store_inv (view (db w))"
    and "\<not> nul_clash (RR_Key req) (RR_RangeEnd req)"
  shows "\<exists>kvs. fst (KV_Range (redis_Store r) req w) =
      Inr \<lparr>RP_Header = hdr (max 1 (rev_of (view (db w)))), RP_Count = int (length kvs),
           RP_Kvs = (if RR_CountOnly req then [] else map toProtoKV kvs)\<rparr> \<and>
    sorted_wrt (<) (map Key kvs) \<and>
    set kvs = {kv. \<exists>k. kv_at (view (db w)) k = Some kv \<and> matchesWatch k (RR_Key req) (RR_RangeEnd req)} \<and>
    abs_store (view (db (snd (KV_Range (redis_Store r) req w)))) = abs_store (view (db w))"
proof -
  let ?ks = "matching_keys (RR_Key req) (RR_RangeEnd req) (abs_store (view (db w)))"
  let ?kvs = "matching (RR_Key req) (RR_RangeEnd req) (abs_store (view (db w)))"
  have "map Key ?kvs = ?ks" by (rule mvcc_store.Key_matching[OF redis_store.is_mvcc_store[OF assms(1)] assms(2)])
  then have "sorted_wrt (<) (map Key ?kvs)" by (simp add: matching_keys_def)
  moreover have "set ?kvs = {kv. \<exists>k. kv_at (view (db w)) k = Some kv \<and> matchesWatch k (RR_Key req) (RR_RangeEnd req)}"
    using mvcc_store.matching_keys_present(3)[OF redis_store.is_mvcc_store[OF assms(1)] assms(2), of _ "RR_Key req" "RR_RangeEnd req"]
    by (force simp: matching_def)
  ultimately show ?thesis
    using mvcc_store.KV_Range_ok(1,2)[OF redis_store.is_mvcc_store[OF assms(1)] assms(2,3)] by auto
qed

theorem KV_Range_exact_witness:
  "\<exists>kvs. fst (KV_Range (redis_Store ref_store) \<lparr>RR_Key = ''a'', RR_RangeEnd = ''b'', RR_CountOnly = True\<rparr> one_key) =
      Inr \<lparr>RP_Header = hdr 1, RP_Count = int (length kvs), RP_Kvs = []\<rparr> \<and> the (kv_at (db one_key) ''a'') \<in> set kvs"
  using KV_Range_exact[OF refs.redis_store_axioms, of one_key "\<lparr>RR_Key = ''a'', RR_RangeEnd = ''b'', RR_CountOnly = True\<rparr>"]
    one_key_facts
  by (auto simp: nul_clash_def matchesWatch_def)

text \<open>The excluded case.  For a key starting with a NUL byte and the range end NUL ("all keys from
  here on") the scan prefix is the single NUL byte, and every value returned has a key that starts
  with it: keys above it that a watch with the same range reports are left out.\<close>

theorem KV_Range_nul_clash:
  assumes "redis_store r view newid" and "store_inv (view (db w))"
    and "RR_Key req = CHR 0x00 # rest" and "RR_RangeEnd req = nul"
  shows "\<exists>resp. fst (KV_Range (redis_Store r) req w) = Inr resp \<and> (\<forall>kv\<in>set (RP_Kvs resp). prefix nul (PbKey kv))"
proof -
  have p: "commonPrefix (RR_Key req) (RR_RangeEnd req) = nul" by (simp add: assms(3,4) commonPrefix_lcp)
  obtain kvs where kvs: "fst (Range r nul w) = Inr (max 1 (rev_of (view (db w))), kvs)"
    "\<forall>kv\<in>set kvs. \<exists>k. kv_at (view (db w)) k = Some kv \<and> prefix nul k"
    using redis_store.Range_ok[OF assms(1,2), of nul] finite_kvs[OF assms(2), of "prefix nul"]
    by (force simp: range_of_def)
  have "\<forall>kv\<in>set kvs. prefix nul (Key kv)"
    using kvs(2) by (metis Key_stored abs_store_sel(1) assms(2) store_inv_def)
  then show ?thesis
    using kvs(1) assms(4) p by (auto simp: KV_Range_def Let_def step redis_Store_def toProtoKV_def)
qed

theorem KV_Range_nul_clash_witness:
  "(\<exists>resp. fst (KV_Range (redis_Store ref_store) \<lparr>RR_Key = nul, RR_RangeEnd = nul, RR_CountOnly = False\<rparr> one_key) = Inr resp \<and>
      (\<forall>kv\<in>set (RP_Kvs resp). prefix nul (PbKey kv))) \<and>
   matchesWatch ''a'' nul nul \<and> kv_at (db one_key) ''a'' \<noteq> None"
  using KV_Range_nul_clash[OF refs.redis_store_axioms, of one_key "\<lparr>RR_Key = nul, RR_RangeEnd = nul, RR_CountOnly = False\<rparr>" "[]"]
    one_key_facts
  by (auto simp: matchesWatch_def)

text \<open>C10: A range delete removes exactly the keys of the range and leaves every other key as it is.  It
  commits one DELETE event per key, in key order, so the revision grows by their number, which is
  also the count reported; the header carries the final revision.\<close>

theorem KV_DeleteRange_exact:
  assumes "redis_store r view newid" and "store_inv (view (db w))"
    and "\<not> nul_clash (DR_Key req) (DR_RangeEnd req)"
  defines "m \<equiv> abs_store (view (db w))" and "w' \<equiv> snd (KV_DeleteRange (redis_Store r) req w)"
  defines "ks \<equiv> matching_keys (DR_Key req) (DR_RangeEnd req) m"
  assumes "m_rev m + int (length ks) < rev_limit"
  shows "fst (KV_DeleteRange (redis_Store r) req w) =
      Inr \<lparr>DP_Header = hdr (max 1 (m_rev m + int (length ks))), DP_Deleted = int (length ks)\<rparr> \<and>
    store_inv (view (db w')) \<and>
    m_kv (abs_store (view (db w'))) = (\<lambda>k. if matchesWatch k (DR_Key req) (DR_RangeEnd req) then None else m_kv m k) \<and>
    m_rev (abs_store (view (db w'))) = m_rev m + int (length ks) \<and>
    map EvKey (m_log (abs_store (view (db w')))) = map EvKey (m_log m) @ ks"
proof -
  have room: "m_rev (abs_store (view (db w))) +
      int (length (matching_keys (DR_Key req) (DR_RangeEnd req) (abs_store (view (db w))))) < rev_limit"
    using assms(7) by (simp add: m_def ks_def)
  note present = mvcc_store.matching_keys_present[OF redis_store.is_mvcc_store[OF assms(1)] assms(2), where key = "DR_Key req" and rangeEnd = "DR_RangeEnd req", folded m_def, folded ks_def]
  have "m_kv (fold mvcc_delete ks m) = (\<lambda>k. if matchesWatch k (DR_Key req) (DR_RangeEnd req) then None else m_kv m k)"
    using fold_delete[OF present(1,2)] present(3) by (auto simp: fun_eq_iff)
  then show ?thesis
    using mvcc_store.KV_DeleteRange_ok[OF redis_store.is_mvcc_store[OF assms(1)] assms(2,3) room, folded m_def, folded ks_def w'_def]
      fold_delete[OF present(1,2)] by auto
qed

theorem KV_DeleteRange_exact_witness:
  "kv_at (db (snd (KV_DeleteRange (redis_Store ref_store) \<lparr>DR_Key = ''a'', DR_RangeEnd = []\<rparr> one_key))) ''a'' = None"
proof -
  let ?req = "\<lparr>DR_Key = ''a'', DR_RangeEnd = []\<rparr>"
  have inv: "store_inv (id (db one_key))" using one_key_facts by simp
  have "length (matching_keys ''a'' [] (abs_store (db one_key))) \<le> 1"
    unfolding matching_keys_def by (simp add: matchesWatch_def one_key_facts cong: conj_cong)
  then have "m_rev (abs_store (id (db one_key))) + int (length (matching_keys (DR_Key ?req) (DR_RangeEnd ?req) (abs_store (id (db one_key))))) < rev_limit"
    using one_key_facts by (simp add: rev_limit_def)
  from KV_DeleteRange_exact[OF refs.redis_store_axioms inv _ this] show ?thesis
    by (simp add: nul_clash_def matchesWatch_def fun_eq_iff)
qed


definition create_req :: "bytes \<Rightarrow> bytes \<Rightarrow> bytes \<Rightarrow> TxnRequest" where
  "create_req ck pk v =
     \<lparr>T_Compare = [\<lparr>C_Result = EQUAL, C_Target = MOD, C_Key = ck, C_Union = TU_ModRevision 0\<rparr>],
      T_Success = [RequestPut \<lparr>PR_Key = pk, PR_Value = v, PR_Lease = 0, PR_PrevKv = False\<rparr>],
      T_Failure = []\<rparr>"


text \<open>C39: Where the compared key is not the written one the create path does not look at it: a
  transaction that writes an absent key \<open>pk\<close> succeeds although its only compare, "\<open>ck\<close> does not
  exist", is false.\<close>

theorem create_ignores_compare_key:
  assumes "redis_store r view newid" and "store_inv (view (db w))" and "rev_of (view (db w)) < rev_limit"
    and "kv_at (view (db w)) ck \<noteq> None" and "kv_at (view (db w)) pk = None"
  shows "\<not> compare_kv (hd (T_Compare (create_req ck pk v))) (kv_at (view (db w)) ck) \<and>
    (\<exists>resp. fst (KV_Txn (redis_Store r) (create_req ck pk v) w) = Inr resp \<and> TR_Succeeded resp)"
proof -
  have "mvcc_inv (abs_store (view (db w)))" using assms(2) by (simp add: store_inv_def)
  then have "\<not> compare_kv (hd (T_Compare (create_req ck pk v))) (kv_at (view (db w)) ck)"
    using assms(4) mvcc_invD[of "abs_store (view (db w))" ck]
    by (auto simp: create_req_def compare_kv_def cmp_result_def kv_ok_def)
  moreover have "isCreate (create_req ck pk v) = Some \<lparr>PR_Key = pk, PR_Value = v, PR_Lease = 0, PR_PrevKv = False\<rparr>"
    by (simp add: create_req_def isCreate_def)
  ultimately show ?thesis
    using redis_store.Txn_put(1)[OF assms(1-3) lease_ok_0, of "- 1" pk v] assms(5)
    by (simp add: KV_Txn_def kv_create_def step redis_Store_def cas_ok_def)
qed

theorem create_ignores_compare_key_witness:
  "\<exists>resp. fst (KV_Txn (redis_Store ref_store) (create_req ''a'' ''b'' ''x'') one_key) = Inr resp \<and> TR_Succeeded resp"
  using create_ignores_compare_key[OF refs.redis_store_axioms, of one_key "''a''" "''b''" "''x''"] one_key_facts
  by (simp add: rev_limit_def)

end
