(* ===== verification/LossBench.thy ===== *)
theory LossBench
  imports KVProps
begin

text \<open>
  The durability client \<open>load-test/lossbench/main.go\<close>: a writer that creates numbered keys one
  after the other and remembers the last one that was acknowledged, and a counter of the keys that are
  there.  The connection to the server is a direct call of its handlers; parsing the flags is left out.
\<close>

section \<open>The client\<close>

text \<open>\<open>fmt.Sprintf("loss/%012d", i)\<close>\<close>

definition loss_key :: "nat \<Rightarrow> bytes" where
  "loss_key i = ''loss/'' @ replicate (12 - length (dec_nat i)) CHR ''0'' @ dec_nat i"

definition loss_txn :: "nat \<Rightarrow> TxnRequest" where
  "loss_txn i =
     \<lparr>T_Compare = [\<lparr>C_Result = EQUAL, C_Target = MOD, C_Key = loss_key i, C_Union = TU_ModRevision 0\<rparr>],
      T_Success = [RequestPut \<lparr>PR_Key = loss_key i, PR_Value = ''x'', PR_Lease = 0, PR_PrevKv = False\<rparr>],
      T_Failure = []\<rparr>"

text \<open>The lines it prints.\<close>

datatype line = DialErr | CountErr gerr | Present int | Stopped nat gerr | Acked nat

text \<open>The write loop for at most the given number of rounds, from index \<open>i\<close> with \<open>last0\<close> acknowledged:
  the lines printed and the last index acknowledged.  It stops at the first error.\<close>

fun loss_write :: "nat \<Rightarrow> 'w Store \<Rightarrow> nat \<Rightarrow> nat \<Rightarrow> 'w \<Rightarrow> (line list \<times> nat) \<times> 'w" where
  "loss_write 0 S i last0 w = (([], last0), w)"
| "loss_write (Suc n) S i last0 w =
     (case KV_Txn S (loss_txn i) w of
        (Inl e, w') \<Rightarrow> (([Stopped last0 e], last0), w')
      | (Inr resp, w') \<Rightarrow>
          if TR_Succeeded resp then
            (case loss_write n S (i + 1) i w' of
               ((out, acked), w'') \<Rightarrow> (((if i mod 500 = 0 then [Acked i] else []) @ out, acked), w''))
          else loss_write n S (i + 1) last0 w')"

definition loss_count :: "'w Store \<Rightarrow> ('w, gerr, int) cmd" where
  "loss_count S =
     bindE (KV_Range S \<lparr>RR_Key = ''loss/'', RR_RangeEnd = ''loss0'', RR_CountOnly = True\<rparr>) (\<lambda>resp. retE (RP_Count resp))"

text \<open>The program: whether the connection could be set up, the flag \<open>mode\<close>, and the number of rounds until
  the writer is stopped from outside.\<close>

definition lossbench :: "bool \<Rightarrow> string \<Rightarrow> nat \<Rightarrow> 'w Store \<Rightarrow> 'w \<Rightarrow> line list \<times> 'w" where
  "lossbench dialled mode rounds S w =
     (if \<not> dialled then ([DialErr], w)
      else if mode = ''count'' then
        (case loss_count S w of (Inl e, w') \<Rightarrow> ([CountErr e], w') | (Inr c, w') \<Rightarrow> ([Present c], w'))
      else case loss_write rounds S 1 0 w of ((out, _), w') \<Rightarrow> (out, w'))"

section \<open>Keys\<close>

lemma loss_key_val: "foldl (\<lambda>a c. a * 10 + (of_char c - 48)) 0 (drop 5 (loss_key i)) = i"
proof -
  have z: "foldl (\<lambda>a c. a * 10 + (of_char c - 48 :: nat)) 0 (replicate n CHR ''0'') = 0" for n by (induction n) simp_all
  show ?thesis by (simp add: loss_key_def foldl_dec_nat z)
qed

lemma loss_key_inject: "loss_key i = loss_key j \<longleftrightarrow> i = j"
  by (metis loss_key_val)

lemma loss_key_range: "matchesWatch (loss_key i) ''loss/'' ''loss0''"
  by (simp add: matchesWatch_def loss_key_def)

section \<open>Acknowledged and present\<close>

context mvcc_store
begin

lemma loss_txn_ok:
  assumes "I w" and "room (A w)" and "m_kv (A w) (loss_key i) = None"
  obtains resp w' where "KV_Txn S (loss_txn i) w = (Inr resp, w')" "TR_Succeeded resp" "I w'" "A w' = mvcc_write (loss_key i) ''x'' 0 (A w)"
proof -
  have c: "isCreate (loss_txn i) = Some \<lparr>PR_Key = loss_key i, PR_Value = ''x'', PR_Lease = 0, PR_PrevKv = False\<rparr>"
    by (simp add: isCreate_def loss_txn_def)
  have l: "lease_ok 0" by (simp add: lease_ok_def)
  have ok: "cas_ok (- 1) (m_kv (A w) (loss_key i))" using assms(3) by (simp add: cas_ok_def)
  note t = Txn[OF assms(1,2) l, of "loss_key i" "- 1" "''x''"]
  define w' where "w' = snd (st_Txn S (loss_key i) (- 1) ''PUT'' ''x'' 0 w)"
  have w': "I w'" "A w' = mvcc_write (loss_key i) ''x'' 0 (A w)" using t(2,3) ok by (simp_all add: w'_def mvcc_cas_def)
  show ?thesis
  proof (rule that)
    show "KV_Txn S (loss_txn i) w =
        (Inr \<lparr>TR_Header = hdr (m_rev (A w) + 1), TR_Succeeded = True, TR_Responses = [put_response (m_rev (A w) + 1)]\<rparr>, w')"
      using t(1) ok by (simp add: KV_Txn_def c kv_create_def bindE_Inr retE_def w'_def)
  qed (simp_all add: w')
qed

lemma loss_write_ok:
  assumes "I w" and "m_rev (A w) + int n \<le> rev_limit" and "\<forall>j. i \<le> j \<and> j < i + n \<longrightarrow> m_kv (A w) (loss_key j) = None"
  shows "case loss_write n S i acked0 w of ((out, acked), w') \<Rightarrow>
    out = map Acked (filter (\<lambda>j. j mod 500 = 0) [i..<i + n]) \<and> acked = (if n = 0 then acked0 else i + n - 1) \<and> I w' \<and>
    dom (m_kv (A w')) = dom (m_kv (A w)) \<union> loss_key ` {i..<i + n}"
  using assms
proof (induction n arbitrary: i acked0 w)
  case (Suc n)
  have r: "room (A w)" "m_kv (A w) (loss_key i) = None" using Suc.prems(2,3) by auto
  obtain resp w1 where t: "KV_Txn S (loss_txn i) w = (Inr resp, w1)" "TR_Succeeded resp" "I w1" "A w1 = mvcc_write (loss_key i) ''x'' 0 (A w)"
    using loss_txn_ok[OF Suc.prems(1) r] by blast
  have d: "dom (m_kv (A w1)) = insert (loss_key i) (dom (m_kv (A w)))" by (simp add: t(4) mvcc_write_def)
  have "m_rev (A w1) + int n \<le> rev_limit" using Suc.prems(2) by (simp add: t(4) mvcc_write_def)
  moreover have "\<forall>j. i + 1 \<le> j \<and> j < i + 1 + n \<longrightarrow> m_kv (A w1) (loss_key j) = None"
    using Suc.prems(3) by (auto simp: t(4) mvcc_write_def loss_key_inject)
  ultimately have ih: "case loss_write n S (i + 1) i w1 of ((out, acked), w') \<Rightarrow>
    out = map Acked (filter (\<lambda>j. j mod 500 = 0) [i + 1..<i + 1 + n]) \<and> acked = (if n = 0 then i else i + 1 + n - 1) \<and> I w' \<and>
    dom (m_kv (A w')) = dom (m_kv (A w1)) \<union> loss_key ` {i + 1..<i + 1 + n}" by (rule Suc.IH[OF t(3)])
  have "{i..<i + Suc n} = insert i {i + 1..<i + 1 + n}" "[i..<i + Suc n] = i # [i + 1..<i + 1 + n]"
    by (auto simp del: upt_Suc simp: upt_conv_Cons)
  then show ?case using ih t(2) by (auto simp: t(1) d simp del: upt_Suc split: prod.splits)
qed auto

end

text \<open>C29: The durability client measures the loss.  On a store without keys of the client, with room for
  \<open>n\<close> revisions, the writer gets \<open>n\<close> creations acknowledged one after the other and prints a line
  after each 500.  Counting on the store as it was after the first \<open>j\<close> of them, which is what a crash and
  recovery may leave, prints that \<open>j\<close> keys are present: nothing is lost without a crash, and after one the
  difference of the two numbers is the number of acknowledged writes that are gone.\<close>

theorem lossbench_no_loss:
  assumes "redis_store r view newid" and "store_inv (view (db w))" and "rev_of (view (db w)) + int n \<le> rev_limit"
    and "\<And>k. matchesWatch k ''loss/'' ''loss0'' \<Longrightarrow> kv_at (view (db w)) k = None"
    and "j \<le> n" and "view (db wr) = view (db (snd (lossbench True ''write'' j (redis_Store r) w)))"
  shows "fst (lossbench True ''write'' n (redis_Store r) w) = map Acked (filter (\<lambda>i. i mod 500 = 0) [1..<n + 1]) \<and>
    snd (fst (loss_write n (redis_Store r) 1 0 w)) = n \<and>
    fst (lossbench True ''count'' m (redis_Store r) wr) = [Present (int j)]"
proof -
  note S = redis_store.is_mvcc_store[OF assms(1)]
  note ok = mvcc_store.loss_write_ok[OF S assms(2), of _ 1 0]
  obtain out acked w' where wr: "loss_write j (redis_Store r) 1 0 w = ((out, acked), w')" by (metis surj_pair)
  have st: "store_inv (view (db wr))" "dom (kv_at (view (db wr))) = dom (kv_at (view (db w))) \<union> loss_key ` {1..<1 + j}"
    using ok[of j] assms(3-6) loss_key_range wr by (auto simp: lossbench_def split: if_splits)
  have "{k. kv_at (view (db wr)) k \<noteq> None \<and> matchesWatch k ''loss/'' ''loss0''} = loss_key ` {1..<1 + j}"
    using st(2) assms(4) loss_key_range by (auto simp: dom_def set_eq_iff)
  then have "length (matching_keys ''loss/'' ''loss0'' (abs_store (view (db wr)))) = j"
    by (simp add: matching_keys_def card_image inj_on_def loss_key_inject)
  moreover have ne: "\<not> nul_clash ''loss/'' ''loss0''" by (simp add: nul_clash_def)
  ultimately have "fst (loss_count (redis_Store r) wr) = Inr (int j)"
    using mvcc_store.KV_Range_ok(1)[OF S st(1), of "\<lparr>RR_Key = ''loss/'', RR_RangeEnd = ''loss0'', RR_CountOnly = True\<rparr>"]
    by (simp add: loss_count_def bindE_Inr retE_def matching_def)
  moreover have "case loss_write n (redis_Store r) 1 0 w of ((out, acked), w') \<Rightarrow> out = map Acked (filter (\<lambda>i. i mod 500 = 0) [1..<n + 1]) \<and> acked = n"
    using ok[of n] assms(3,4) loss_key_range by (auto split: prod.splits if_splits simp del: upt_Suc)
  ultimately show ?thesis by (auto simp: lossbench_def split: prod.splits sum.splits simp del: upt_Suc)
qed

theorem lossbench_no_loss_witness:
  "fst (lossbench True ''count'' 0 (redis_Store ref_store) (snd (lossbench True ''write'' 3 (redis_Store ref_store) one_key))) = [Present 3] \<and>
   snd (fst (loss_write 5 (redis_Store ref_store) 1 0 one_key)) = 5"
proof -
  have "kv_at (db one_key) k = None" if "matchesWatch k ''loss/'' ''loss0''" for k
    using that one_key_facts(3)[of k] by (auto simp: matchesWatch_def)
  then show ?thesis
    using lossbench_no_loss[OF refs.redis_store_axioms, of one_key 5 3 "snd (lossbench True ''write'' 3 (redis_Store ref_store) one_key)" 0] one_key_facts(1,2)
    by (simp add: rev_limit_def)
qed

end
