(* ===== verification/ListWatch.thy ===== *)
theory ListWatch
  imports WatchExample KVProps
begin

text \<open>
  What a client can rely on when other clients write between the round trips of its request: listing
  a range and then watching it, reading one key and then watching it, and transactions.

  A handler that makes two round trips lets others act in between.  \<open>during env r\<close> is the store as
  the handler of a range request sees it, \<open>before_put env r\<close> as the handler of a transaction does,
  when \<open>env\<close> is what the other clients did; with \<open>env = id\<close> both are the plain store.
\<close>

section \<open>Requests under interference\<close>

definition Range_during ::
  "(('d, 'n, 'x) world \<Rightarrow> ('d, 'n, 'x) world) \<Rightarrow> ('d, 'n, 'x) RedisStore \<Rightarrow> bytes \<Rightarrow> (('d, 'n, 'x) world, gerr, int \<times> KeyValue list) cmd"
where
  "Range_during env r pfx = bindE (range_scan r pfx) (\<lambda>res. bindE (execE env) (\<lambda>_. range_fetch r res))"

definition during :: "(('d, 'n, 'x) world \<Rightarrow> ('d, 'n, 'x) world) \<Rightarrow> ('d, 'n, 'x) RedisStore \<Rightarrow> ('d, 'n, 'x) world Store" where
  "during env r = (redis_Store r)\<lparr>st_Range := Range_during env r, st_CurrentRevision := (\<lambda>w. CurrentRevision r (env w))\<rparr>"

definition before_put :: "(('d, 'n, 'x) world \<Rightarrow> ('d, 'n, 'x) world) \<Rightarrow> ('d, 'n, 'x) RedisStore \<Rightarrow> ('d, 'n, 'x) world Store" where
  "before_put env r = (redis_Store r)\<lparr>st_Put := (\<lambda>k v l w. Put r k v l (env w))\<rparr>"

lemma bindE_exec_id: "bindE (execE id) (\<lambda>_. f) = f"
  by (simp add: bindE_def execE_def fun_eq_iff)

lemma undisturbed: "during id r = redis_Store r" "before_put id r = redis_Store r"
  by (simp_all add: during_def before_put_def Range_during_def[abs_def] bindE_exec_id redis_Store_def Range_def[abs_def, symmetric])

section \<open>Later states of the store\<close>

definition later :: "keyspace \<Rightarrow> keyspace \<Rightarrow> bool" where
  "later s s' \<longleftrightarrow> store_inv s' \<and> prefix (events_of s) (events_of s')"

lemma later_trans: "later s s' \<Longrightarrow> later s' s'' \<Longrightarrow> later s s''"
  by (auto simp: later_def dest: prefix_order.trans)

lemma write_later:
  assumes "redis_store r view newid" and "store_inv (view (db w))" and "rev_of (view (db w)) < rev_limit" and "lease_ok (write_lease op)"
  shows "later (view (db w)) (view (db (do_write r op w)))"
  using write_effect[OF assms] assms(2) by (auto simp: later_def committed_def untouched_def)

lemma sys_steps_later:
  assumes "redis_store r view newid" and "rs_sink r = Some enqueue" and "(sys_step r view i)\<^sup>*\<^sup>* w w'" and "feed_inv view w"
  shows "later (view (db w)) (view (db w'))"
  using sys_steps_keep[OF assms] by (simp add: later_def feed_inv_def)

text \<open>What is new in the log says what has happened to the values.\<close>

definition grown :: "mvcc \<Rightarrow> Event list \<Rightarrow> mvcc \<Rightarrow> bool" where
  "grown m d m' \<longleftrightarrow> m_log m' = m_log m @ d \<and> m_kv m' = foldl replay_step (m_kv m) d \<and>
     (\<forall>ev\<in>set d. m_rev m < EvRev ev \<and> typed_event ev)"

lemma later_grown:
  assumes "store_inv s" and "later s s'"
  shows "\<exists>d. grown (abs_store s) d (abs_store s')"
proof -
  let ?m = "abs_store s" and ?m' = "abs_store s'"
  obtain d where d: "events_of s' = events_of s @ d" using assms(2) by (auto simp: later_def elim: prefixE)
  have i: "map EvRev (m_log ?m) = [1..m_rev ?m]" "m_kv ?m = replay (m_log ?m)"
    "map EvRev (m_log ?m') = [1..m_rev ?m']" "m_kv ?m' = replay (m_log ?m')" "list_all typed_event (m_log ?m')" "0 \<le> m_rev ?m"
    using assms unfolding later_def store_inv_def mvcc_inv_def by blast+
  have log: "m_log ?m' = m_log ?m @ map strip d" using events_of_log[of s'] events_of_log[of s] d by (metis map_append)
  have "m_rev ?m < EvRev ev" if ev: "ev \<in> set (map strip d)" for ev
  proof (rule ccontr)
    have srt: "sorted_wrt (<) (map EvRev (m_log ?m'))" unfolding i(3) by (rule sorted_wrt_upto)
    have "EvRev ev \<in> set (map EvRev (m_log ?m'))" using ev log by auto
    then have "1 \<le> EvRev ev" unfolding i(3) by simp
    moreover assume "\<not> m_rev ?m < EvRev ev"
    ultimately have "EvRev ev \<in> set (map EvRev (m_log ?m))" unfolding i(1) by simp
    then have "EvRev ev < EvRev ev" using srt ev unfolding log map_append sorted_wrt_append by fastforce
    then show False by simp
  qed
  then show ?thesis using log i by (intro exI[of _ "map strip d"]) (auto simp: grown_def replay_def list_all_iff)
qed

lemma grown_trans: "grown m d m' \<Longrightarrow> grown m' d' m'' \<Longrightarrow> m_rev m \<le> m_rev m' \<Longrightarrow> grown m (d @ d') m''"
  unfolding grown_def by (auto intro: order_le_less_trans)

lemma later_rev: "store_inv s \<Longrightarrow> later s s' \<Longrightarrow> rev_of s \<le> rev_of s'"
  using store_inv_log(2)[of s] store_inv_log(2)[of s'] by (auto simp: later_def dest: prefix_length_le)

lemma mod_of_None: "mod_of None = 0"
  by (simp add: mod_of_def)

text \<open>The value of a key either stays or gets a revision of its own.\<close>

lemma replay_mod:
  assumes "\<forall>ev\<in>set d. n < EvRev ev \<and> typed_event ev"
  shows "foldl replay_step s d k = s k \<or> foldl replay_step s d k = None \<or> n < mod_of (foldl replay_step s d k)"
  using assms
proof (induction d rule: rev_induct)
  case (snoc ev d)
  then have "EvKV ev = None \<or> n < mod_of (EvKV ev)" by (auto simp: typed_event_def mod_of_def)
  with snoc show ?case by (auto simp: replay_step_def)
qed simp

lemma later_mod:
  assumes "store_inv s" and "later s s'"
  shows "kv_at s' k = kv_at s k \<or> kv_at s' k = None \<or> rev_of s < mod_of (kv_at s' k)"
proof -
  obtain d where "grown (abs_store s) d (abs_store s')" using later_grown[OF assms] by blast
  then show ?thesis using replay_mod[of d "rev_of s" "kv_at s" k] by (simp add: grown_def)
qed

section \<open>A client's copy of a range\<close>

text \<open>A client applies the events of its watch to the values it listed.\<close>

definition apply_event :: "(bytes \<rightharpoonup> PbKV) \<Rightarrow> PbEvent \<Rightarrow> (bytes \<rightharpoonup> PbKV)" where
  "apply_event c e =
     (case PE_Kv e of None \<Rightarrow> c | Some kv \<Rightarrow> c(PbKey kv := case PE_Type e of PUT \<Rightarrow> Some kv | DELETE \<Rightarrow> None))"

definition mirror :: "PbKV list \<Rightarrow> PbEvent list \<Rightarrow> (bytes \<rightharpoonup> PbKV)" where
  "mirror kvs evs = foldl apply_event (map_of (map (\<lambda>kv. (PbKey kv, kv)) kvs)) evs"

lemma replay_other: "k \<notin> EvKey ` set d \<Longrightarrow> foldl replay_step s d k = s k"
  by (induction d arbitrary: s) (auto simp: replay_step_def)

lemma replay_cong: "s k = s' k \<Longrightarrow> foldl replay_step s d k = foldl replay_step s' d k"
proof (induction d arbitrary: s s')
  case (Cons ev d)
  then have "replay_step s ev k = replay_step s' ev k" by (simp add: replay_step_def)
  then show ?case using Cons.IH[of "replay_step s ev" "replay_step s' ev"] by simp
qed simp

lemma replay_filter: "P k \<Longrightarrow> foldl replay_step s (filter (\<lambda>ev. P (EvKey ev)) d) k = foldl replay_step s d k"
proof (induction d arbitrary: s)
  case (Cons ev d)
  show ?case
  proof (cases "P (EvKey ev)")
    case False
    with Cons.prems have "replay_step s ev k = s k" by (auto simp: replay_step_def)
    with False Cons show ?thesis using replay_cong[of "replay_step s ev" k s d] by simp
  qed (use Cons in simp)
qed simp

lemma apply_typed:
  assumes "typed_event ev"
  shows "\<exists>e. eventToProto ev = Some e \<and> apply_event c e = c(EvKey ev := map_option toProtoKV (EvKV ev))"
proof (cases "EvType ev = ''PUT''")
  case True
  with assms obtain kv where "EvKV ev = Some kv" "Key kv = EvKey ev" by (auto simp: typed_event_def)
  with True show ?thesis by (simp add: eventToProto_def apply_event_def toProtoKV_def)
next
  case False
  with assms have "EvType ev = ''DELETE''" "EvKV ev = None" by (auto simp: typed_event_def)
  then show ?thesis by (simp add: eventToProto_def apply_event_def)
qed

lemma mirror_replay:
  assumes "\<forall>ev\<in>set d. typed_event ev" and "c k = map_option toProtoKV (s k) \<or> k \<in> EvKey ` set d"
  shows "foldl apply_event c (protos d) k = map_option toProtoKV (foldl replay_step s d k)"
  using assms
proof (induction d arbitrary: c s)
  case (Cons ev d)
  obtain e where e: "eventToProto ev = Some e" "apply_event c e = c(EvKey ev := map_option toProtoKV (EvKV ev))"
    using apply_typed[of ev c] Cons.prems(1) by (meson list.set_intros(1))
  have "(c(EvKey ev := map_option toProtoKV (EvKV ev))) k = map_option toProtoKV (replay_step s ev k) \<or> k \<in> EvKey ` set d"
    using Cons.prems(2) by (auto simp: replay_step_def)
  then have "foldl apply_event (c(EvKey ev := map_option toProtoKV (EvKV ev))) (protos d) k = map_option toProtoKV (foldl replay_step (replay_step s ev) d k)"
    by (intro Cons.IH) (use Cons.prems(1) in auto)
  then show ?case by (simp only: protos_simps(3) e option.case foldl_Cons)
qed simp

lemma eventToProto_strip: "eventToProto (strip ev) = eventToProto ev"
  by (simp add: eventToProto_def strip_def)

lemma protos_strip: "protos (wanted key rangeEnd n (map strip evs)) = protos (wanted key rangeEnd n evs)"
proof -
  have "protos (map strip xs) = protos xs" for xs by (induction xs) (simp_all add: eventToProto_strip split: option.split)
  moreover have "wanted key rangeEnd n (map strip evs) = map strip (wanted key rangeEnd n evs)"
    by (simp add: wanted_def filter_map comp_def strip_def)
  ultimately show ?thesis by simp
qed

lemma PbKey_toProtoKV [simp]: "PbKey (toProtoKV kv) = Key kv"
  by (simp add: toProtoKV_def)

lemma map_of_listed:
  assumes "\<And>k kv. f k = Some kv \<Longrightarrow> Key kv = k"
  shows "map_of (map (\<lambda>kv. (PbKey kv, kv)) (map toProtoKV (filter (\<lambda>kv. P (Key kv)) (List.map_filter f ks)))) k =
    (if k \<in> set ks \<and> P k then map_option toProtoKV (f k) else None)"
proof (induction ks)
  case (Cons a ks)
  show ?case
  proof (cases "f a")
    case None
    with Cons show ?thesis by (cases "k = a") (simp_all add: List.map_filter_simps)
  next
    case (Some kv)
    with assms[OF Some] Cons show ?thesis by (cases "k = a") (simp_all add: List.map_filter_simps)
  qed
qed (simp add: List.map_filter_simps)

section \<open>Listing, then watching\<close>

text \<open>The values listed, key by key: the index is read before the interference and the values after.\<close>

lemma list_during:
  assumes st: "redis_store r view newid" and si: "store_inv (view (db w))" and req: "RR_RangeEnd req \<noteq> []" "\<not> RR_CountOnly req"
    and nc: "\<not> nul_clash (RR_Key req) (RR_RangeEnd req)" and env: "\<And>w'. untouched view w w' \<Longrightarrow> later (view (db w)) (view (db (env w')))"
    and lst: "KV_Range (during env r) req w = (res, w1)"
  shows "\<exists>resp wa. res = Inr resp \<and> HdrRevision (RP_Header resp) = max 1 (rev_of (view (db w))) \<and>
    untouched view w wa \<and> untouched view (env wa) w1 \<and>
    (\<forall>k. map_of (map (\<lambda>kv. (PbKey kv, kv)) (RP_Kvs resp)) k =
       (if kv_at (view (db w)) k \<noteq> None \<and> matchesWatch k (RR_Key req) (RR_RangeEnd req) then map_option toProtoKV (kv_at (view (db w1)) k) else None))"
proof -
  define s p where "s = view (db w)" and "p = commonPrefix (RR_Key req) (RR_RangeEnd req)"
  define ks where "ks = sorted_list_of_set {k. kv_at s k \<noteq> None \<and> prefix p k}"
  define wa where "wa = snd (range_scan r p w)"
  have sc: "fst (range_scan r p w) = Inr (Inr ks, Inr (Some (format_int (rev_of s))))" "untouched view w wa"
    using redis_store.range_scan_ok[OF st si, of p] by (simp_all add: s_def ks_def wa_def)
  have b: "store_inv (view (db (env wa)))" using env[OF sc(2)] by (simp add: later_def)
  have bd: "0 \<le> rev_of s" "rev_of s \<le> rev_limit" using store_invD[OF si] by (auto simp: s_def)
  note fe = redis_store.range_fetch_ok[OF st bd, where ks = ks and w = "env wa"]
  define kvs where "kvs = filter (\<lambda>kv. in_request_range (Key kv) (RR_Key req) (RR_RangeEnd req)) (List.map_filter (kv_at (view (db (env wa)))) ks)"
  have run: "KV_Range (during env r) req w =
      (Inr \<lparr>RP_Header = hdr (max 1 (rev_of s)), RP_Count = int (length kvs), RP_Kvs = map toProtoKV kvs\<rparr>,
       snd (range_fetch r (Inr ks, Inr (Some (format_int (rev_of s)))) (env wa)))"
    using req sc(1) fe(1)
    by (simp add: KV_Range_def during_def Range_during_def Let_def bindE_def execE_def retE_def p_def[symmetric] wa_def[symmetric] kvs_def)
  have v1: "untouched view (env wa) w1" using fe(2) lst by (auto simp: run)
  have kk: "Key kv = k" if "kv_at (view (db (env wa))) k = Some kv" for k kv
    using Key_stored[of "abs_store (view (db (env wa)))" k kv] b that by (simp add: store_inv_def)
  have "finite {k. kv_at s k \<noteq> None \<and> prefix p k}" using finite_kvs[OF si, of "prefix p"] by (simp add: s_def)
  then have "k \<in> set ks \<and> in_request_range k (RR_Key req) (RR_RangeEnd req) \<longleftrightarrow> kv_at s k \<noteq> None \<and> matchesWatch k (RR_Key req) (RR_RangeEnd req)" for k
    using scan_prefix_covers[of k, OF _ nc] in_request_range_matchesWatch[OF req(1), of k "RR_Key req"] by (auto simp: ks_def p_def)
  then show ?thesis
    using lst[unfolded run] sc(2) v1 map_of_listed[of "kv_at (view (db (env wa)))" "\<lambda>k. in_request_range k (RR_Key req) (RR_RangeEnd req)" ks, OF kk]
    unfolding kvs_def s_def by (intro exI[of _ "projr res"] exI[of _ wa]) (auto simp: hdr_def untouched_def)
qed

text \<open>A copy made of the keys at one moment and the values at a later one, brought up to date with the
  events since the first.\<close>

lemma mirror_grown:
  assumes inv: "mvcc_inv m0" and g1: "grown m0 d1 m1" and g2: "grown m1 d2 m2" and le: "m_rev m0 \<le> m_rev m1"
    and c: "c k = (if m_kv m0 k \<noteq> None \<and> matchesWatch k key rangeEnd then map_option toProtoKV (m_kv m1 k) else None)"
  shows "foldl apply_event c (protos (wanted key rangeEnd (m_rev m0 + 1) (m_log m2))) k =
    (if matchesWatch k key rangeEnd then map_option toProtoKV (m_kv m2 k) else None)"
proof -
  note g = grown_trans[OF g1 g2 le, unfolded grown_def]
  define d where "d = filter (\<lambda>ev. matchesWatch (EvKey ev) key rangeEnd) (d1 @ d2)"
  have "map EvRev (m_log m0) = [1..m_rev m0]" using inv by (simp add: mvcc_inv_def)
  then have "EvRev ` set (m_log m0) = {1..m_rev m0}" by (metis list.set_map set_upto)
  then have old: "\<forall>ev\<in>set (m_log m0). EvRev ev \<le> m_rev m0" by auto
  have w: "wanted key rangeEnd (m_rev m0 + 1) (m_log m2) = d"
  proof -
    have "filter (\<lambda>ev. m_rev m0 + 1 \<le> EvRev ev \<and> matchesWatch (EvKey ev) key rangeEnd) (m_log m0) = []" using old by (fastforce simp: filter_empty_conv)
    moreover have "filter (\<lambda>ev. m_rev m0 + 1 \<le> EvRev ev \<and> matchesWatch (EvKey ev) key rangeEnd) (d1 @ d2) = d"
      unfolding d_def using g by (intro filter_cong) (auto simp: add1_zle_eq)
    ultimately show ?thesis using g by (simp add: wanted_def)
  qed
  have ty: "\<forall>ev\<in>set d. typed_event ev" using g by (auto simp: d_def)
  show ?thesis unfolding w
  proof (cases "matchesWatch k key rangeEnd")
    case True
    have "m_kv m1 k = m_kv m0 k" if "k \<notin> EvKey ` set d"
    proof -
      have "k \<notin> EvKey ` set d1" using that True by (auto simp: d_def)
      then show ?thesis using g1 replay_other[of k d1 "m_kv m0"] by (simp add: grown_def)
    qed
    then have "c k = map_option toProtoKV (m_kv m0 k) \<or> k \<in> EvKey ` set d" using c True by auto
    from mirror_replay[where s = "m_kv m0" and c = c and k = k, OF ty this]
    show "foldl apply_event c (protos d) k = (if matchesWatch k key rangeEnd then map_option toProtoKV (m_kv m2 k) else None)"
      using True g replay_filter[of "\<lambda>k. matchesWatch k key rangeEnd" k "m_kv m0" "d1 @ d2"] by (simp add: d_def)
  next
    case False
    then have "k \<notin> EvKey ` set d" by (auto simp: d_def)
    then show "foldl apply_event c (protos d) k = (if matchesWatch k key rangeEnd then map_option toProtoKV (m_kv m2 k) else None)"
      using mirror_replay[OF ty, of c k Map.empty] replay_other[of k d Map.empty] c False by simp
  qed
qed

text \<open>A list, brought up to date with the events of the range after its revision.\<close>

lemma list_mirror:
  assumes st: "redis_store r view newid" and si: "store_inv (view (db w))" and pos: "1 \<le> rev_of (view (db w))"
    and req: "RR_RangeEnd req \<noteq> []" "\<not> RR_CountOnly req" and nc: "\<not> nul_clash (RR_Key req) (RR_RangeEnd req)"
    and env: "\<And>w'. untouched view w w' \<Longrightarrow> later (view (db w)) (view (db (env w')))"
    and lst: "KV_Range (during env r) req w = (Inr resp, w1)" and s: "later (view (db w1)) s"
  shows "mirror (RP_Kvs resp) (protos (wanted (RR_Key req) (RR_RangeEnd req) (HdrRevision (RP_Header resp) + 1) (events_of s))) =
    (\<lambda>k. if matchesWatch k (RR_Key req) (RR_RangeEnd req) then map_option toProtoKV (kv_at s k) else None)"
proof -
  define m0 m1 where "m0 = abs_store (view (db w))" and "m1 = abs_store (view (db w1))"
  obtain wa where l: "HdrRevision (RP_Header resp) = m_rev m0" "untouched view w wa" "untouched view (env wa) w1"
    "\<And>k. map_of (map (\<lambda>kv. (PbKey kv, kv)) (RP_Kvs resp)) k =
       (if m_kv m0 k \<noteq> None \<and> matchesWatch k (RR_Key req) (RR_RangeEnd req) then map_option toProtoKV (m_kv m1 k) else None)"
    using list_during[OF st si req nc env lst] pos by (auto simp: m0_def m1_def)
  have w1: "later (view (db w)) (view (db w1))" using env[OF l(2)] l(3) by (simp add: untouched_def)
  then have i1: "store_inv (view (db w1))" by (simp add: later_def)
  obtain d1 where d1: "grown m0 d1 m1" using later_grown[OF si w1] by (auto simp: m0_def m1_def)
  obtain d2 where d2: "grown m1 d2 (abs_store s)" using later_grown[OF i1 s] by (auto simp: m1_def)
  have inv: "mvcc_inv m0" "m_rev m0 \<le> m_rev m1" using si later_rev[OF si w1] by (simp_all add: store_inv_def m0_def m1_def)
  have "foldl apply_event (map_of (map (\<lambda>kv. (PbKey kv, kv)) (RP_Kvs resp)))
      (protos (wanted (RR_Key req) (RR_RangeEnd req) (m_rev m0 + 1) (m_log (abs_store s)))) k =
      (if matchesWatch k (RR_Key req) (RR_RangeEnd req) then map_option toProtoKV (kv_at s k) else None)" for k
    using mirror_grown[OF inv(1) d1 d2 inv(2), where key = "RR_Key req" and rangeEnd = "RR_RangeEnd req" and k = k and
        c = "map_of (map (\<lambda>kv. (PbKey kv, kv)) (RP_Kvs resp))", OF l(4)] by simp
  then show ?thesis
    using protos_strip[of "RR_Key req" "RR_RangeEnd req" "m_rev m0 + 1" "events_of s"] unfolding mirror_def l(1) fun_eq_iff
    by (simp add: events_of_log)
qed

end
