(* ===== verification/ClientProps.thy ===== *)
theory ClientProps
  imports ListWatch
begin

text \<open>
  What a client gets while other clients write: an exact copy of a range from a list and a watch, a
  stale value from a single read, exclusive updates by revision, and a race in the generic
  transaction.
\<close>

section \<open>List and watch\<close>











section \<open>One key\<close>

text \<open>C32: A read of a single key can miss a change for good.  It fetches the value first and the revision
  for its header in a second round trip; when another client writes the key in between, the response
  has the old value under the revision of the new one, and a watch from the next revision on is never
  told of the change.\<close>

theorem get_then_watch_misses:
  assumes st: "redis_store r view newid" and si: "store_inv (view (db w))" and old: "kv_at (view (db w)) k = Some old"
    and lim: "rev_of (view (db w)) < rev_limit" and l: "lease_ok l"
    and read: "KV_Range (during (\<lambda>w. snd (Put r k v l w)) r) \<lparr>RR_Key = k, RR_RangeEnd = [], RR_CountOnly = False\<rparr> w = (res, w')"
  shows "\<exists>resp new. res = Inr resp \<and> RP_Kvs resp = [toProtoKV old] \<and>
    kv_at (view (db w')) k = Some new \<and> Value new = v \<and> ModRevision new = HdrRevision (RP_Header resp) \<and> ModRevision old < ModRevision new \<and>
    wanted k [] (HdrRevision (RP_Header resp) + 1) (events_of (view (db w'))) = []"
proof -
  let ?m = "abs_store (view (db w))"
  define wa where "wa = snd (Get r k w)"
  have g: "fst (Get r k w) = Inr (Some old)" "view (db wa) = view (db w)"
    using redis_store.Get_ok[OF st si, of k] old by (simp_all add: wa_def untouched_def)
  define wb where "wb = snd (Put r k v l wa)"
  have p: "store_inv (view (db wb))" "abs_store (view (db wb)) = mvcc_put k v l ?m"
    using redis_store.Put_ok(2)[OF st, of wa l k v] si lim l by (simp_all add: g(2) wb_def committed_def)
  have rv: "rev_of (view (db wb)) = rev_of (view (db w)) + 1" using arg_cong[OF p(2), of m_rev] by (simp add: mvcc_put_def mvcc_write_def)
  have old_rev: "ModRevision old \<le> rev_of (view (db w))" "0 \<le> rev_of (view (db w))"
    using mvcc_invD[of ?m k old] si old by (auto simp: store_inv_def kv_ok_def mvcc_inv_def)
  have c: "fst (CurrentRevision r wb) = Inr (rev_of (view (db w)) + 1)" "view (db (snd (CurrentRevision r wb))) = view (db wb)"
    using redis_store.CurrentRevision_ok[OF st p(1)] old_rev(2) by (simp_all add: rv untouched_def)
  obtain wc where wc: "CurrentRevision r wb = (Inr (rev_of (view (db w)) + 1), wc)" "view (db wc) = view (db wb)"
    using c by (metis prod.collapse)
  have run: "KV_Range (during (\<lambda>w. snd (Put r k v l w)) r) \<lparr>RR_Key = k, RR_RangeEnd = [], RR_CountOnly = False\<rparr> w =
      (Inr \<lparr>RP_Header = hdr (rev_of (view (db w)) + 1), RP_Count = 1, RP_Kvs = [toProtoKV old]\<rparr>, wc)"
    using g(1) wc(1) old_rev(1)
    by (simp add: KV_Range_def during_def redis_Store_def Let_def bindE_def retE_def raise_rev_def wa_def[symmetric] wb_def[symmetric])
  have "wanted k [] (rev_of (view (db w)) + 2) (events_of (view (db wb))) = []"
    using log_facts(2)[OF p(1)] rv by (fastforce simp: wanted_def filter_empty_conv)
  moreover have "kv_at (view (db wb)) k = Some (next_kv k v l ?m)"
    using arg_cong[OF p(2), of m_kv] by (simp add: mvcc_put_def mvcc_write_def fun_eq_iff)
  moreover have "res = Inr \<lparr>RP_Header = hdr (rev_of (view (db w)) + 1), RP_Count = 1, RP_Kvs = [toProtoKV old]\<rparr>" "w' = wc"
    using read run by simp_all
  ultimately show ?thesis using old_rev(1) by (simp add: wc(2) hdr_def next_kv_def add.commute)
qed

theorem get_then_watch_misses_witness:
  "\<exists>resp w' new. KV_Range (during (\<lambda>w. snd (Put ref_store ''a'' ''y'' 0 w)) ref_store) \<lparr>RR_Key = ''a'', RR_RangeEnd = [], RR_CountOnly = False\<rparr> one_key = (Inr resp, w') \<and>
     map PbValue (RP_Kvs resp) = [''x''] \<and> kv_at (db w') ''a'' = Some new \<and> Value new = ''y'' \<and> ModRevision new = HdrRevision (RP_Header resp)"
proof -
  obtain res w' where run: "KV_Range (during (\<lambda>w. snd (Put ref_store ''a'' ''y'' 0 w)) ref_store) \<lparr>RR_Key = ''a'', RR_RangeEnd = [], RR_CountOnly = False\<rparr> one_key = (res, w')"
    by fastforce
  have "store_inv (id (db one_key))" "rev_of (id (db one_key)) < rev_limit" "lease_ok 0"
    "kv_at (id (db one_key)) ''a'' = Some \<lparr>Key = ''a'', Value = ''x'', CreateRevision = 1, ModRevision = 1, Version = 1, Lease = 0\<rparr>"
    using one_key_facts by (simp_all add: rev_limit_def lease_ok_def)
  from get_then_watch_misses[OF refs.redis_store_axioms this(1,4,2,3) run] run show ?thesis by (auto simp: toProtoKV_def)
qed

section \<open>Transactions\<close>




text \<open>A put conditional on the version of its key, with a read of the key as its alternative.\<close>

definition version_txn :: "bytes \<Rightarrow> int \<Rightarrow> bytes \<Rightarrow> TxnRequest" where
  "version_txn k n v =
     \<lparr>T_Compare = [\<lparr>C_Result = EQUAL, C_Target = VERSION, C_Key = k, C_Union = TU_Version n\<rparr>],
      T_Success = [RequestPut \<lparr>PR_Key = k, PR_Value = v, PR_Lease = 0, PR_PrevKv = False\<rparr>],
      T_Failure = [RequestRange \<lparr>RR_Key = k, RR_RangeEnd = [], RR_CountOnly = False\<rparr>]\<rparr>"

lemma version_txn_generic: "KV_Txn S (version_txn k n v) = genericTxn S (version_txn k n v)"
  by (simp add: KV_Txn_def isCreate_def isUpdate_def version_txn_def)

text \<open>C33: A conditional put that compares anything but the modification revision is not atomic.  It takes
  the generic path, which reads and writes in separate round trips.  Of two transactions that put a
  key if it has version \<open>n\<close>, one running between the read and the write of the other, both report
  success, and the key ends up at version \<open>n + 2\<close> with the first writer's value lost.\<close>

theorem generic_txn_races:
  fixes v1 v2 :: bytes
  assumes st: "redis_store r view newid" and si: "store_inv (view (db w))" and lim: "rev_of (view (db w)) + 2 \<le> rev_limit"
    and n: "(case kv_at (view (db w)) k of Some kv \<Rightarrow> Version kv | None \<Rightarrow> 0) = n"
  defines "rival \<equiv> KV_Txn (redis_Store r) (version_txn k n v2)"
  defines "mine \<equiv> KV_Txn (before_put (\<lambda>w. snd (rival w)) r) (version_txn k n v1) w"
  shows "\<exists>wa resp resp' kv. view (db wa) = view (db w) \<and> fst (rival wa) = Inr resp' \<and> TR_Succeeded resp' \<and>
    fst mine = Inr resp \<and> TR_Succeeded resp \<and> kv_at (view (db (snd mine))) k = Some kv \<and> Value kv = v1 \<and> Version kv = n + 2"
proof -
  note S = redis_store.is_mvcc_store[OF st]
  let ?m = "abs_store (view (db w))"
  define wa where "wa = snd (Get r k w)"
  have g: "fst (Get r k w) = Inr (kv_at (view (db w)) k)" "view (db wa) = view (db w)"
    using redis_store.Get_ok[OF st si, of k] by (simp_all add: wa_def untouched_def)
  have ok: "compare_kv (hd (T_Compare (version_txn k n v))) (kv_at (view (db w)) k)" for v
    using n by (simp add: version_txn_def compare_kv_def cmp_result_def)
  define wb where "wb = snd (rival wa)"
  let ?p = "\<lparr>PR_Key = k, PR_Value = v2, PR_Lease = 0, PR_PrevKv = False\<rparr>"
  let ?c = "\<lparr>C_Result = EQUAL, C_Target = VERSION, C_Key = k, C_Union = TU_Version n\<rparr>"
  have rm: "room (abs_store (view (db wa)))" "store_inv (view (db wa))" "lease_ok (PR_Lease ?p)"
    "compare_kv ?c (m_kv (abs_store (view (db wa))) (C_Key ?c))"
    using lim si ok[of v2] by (simp_all add: g(2) lease_ok_def version_txn_def)
  note t = mvcc_store.genericTxn_put[OF S rm(2,1,3,4), of "[RequestRange \<lparr>RR_Key = k, RR_RangeEnd = [], RR_CountOnly = False\<rparr>]", folded version_txn_def]
  have b: "\<exists>resp'. fst (rival wa) = Inr resp' \<and> TR_Succeeded resp'" "store_inv (view (db wb))" "abs_store (view (db wb)) = mvcc_put k v2 0 ?m"
    using t by (simp_all add: rival_def wb_def version_txn_generic g(2))
  have lim': "rev_of (view (db wb)) < rev_limit" using arg_cong[OF b(3), of m_rev] lim by (simp add: mvcc_put_def mvcc_write_def)
  define wc where "wc = snd (Put r k v1 0 wb)"
  have p: "fst (Put r k v1 0 wb) = Inr (rev_of (view (db wb)) + 1, kv_at (view (db wb)) k)" "store_inv (view (db wc))"
      "abs_store (view (db wc)) = mvcc_put k v1 0 (mvcc_put k v2 0 ?m)"
    using redis_store.Put_ok[OF st b(2) lim', of 0 k v1] by (simp_all add: wc_def committed_def b(3) lease_ok_def)
  define wd where "wd = snd (CurrentRevision r wc)"
  obtain rv where c: "CurrentRevision r wc = (Inr rv, wd)" "view (db wd) = view (db wc)"
    using redis_store.CurrentRevision_ok[OF st p(2)] by (cases "CurrentRevision r wc") (simp add: wd_def untouched_def)
  have ga: "Get r k w = (Inr (kv_at (view (db w)) k), wa)" using g(1) by (simp add: wa_def prod_eq_iff)
  have pa: "Put r k v1 0 wb = (Inr (rev_of (view (db wb)) + 1, kv_at (view (db wb)) k), wc)" using p(1) by (simp add: wc_def prod_eq_iff)
  have "mine = (Inr \<lparr>TR_Header = hdr rv, TR_Succeeded = True, TR_Responses = [put_response (rev_of (view (db wb)) + 1)]\<rparr>, wd)"
    using ok[of v1] unfolding mine_def version_txn_generic
    by (simp add: version_txn_def genericTxn_def before_put_def redis_Store_def evalCompare_def executeOp_def header_def rev_or_zero_def
        bindE_def retE_def ga wb_def[symmetric] pa c(1))
  moreover have "kv_at (view (db wc)) k = Some (next_kv k v1 0 (mvcc_put k v2 0 ?m))"
    using arg_cong[OF p(3), of m_kv] by (simp add: mvcc_put_def mvcc_write_def fun_eq_iff)
  ultimately show ?thesis
    using b(1) n by (intro exI[of _ wa]) (auto simp: g(2) c(2) next_kv_def mvcc_put_def mvcc_write_def split: option.splits)
qed

theorem generic_txn_races_witness:
  "\<exists>resp kv. fst (KV_Txn (before_put (\<lambda>w. snd (KV_Txn (redis_Store ref_store) (version_txn ''a'' 1 ''z'') w)) ref_store) (version_txn ''a'' 1 ''y'') one_key) = Inr resp \<and>
     TR_Succeeded resp \<and>
     kv_at (db (snd (KV_Txn (before_put (\<lambda>w. snd (KV_Txn (redis_Store ref_store) (version_txn ''a'' 1 ''z'') w)) ref_store) (version_txn ''a'' 1 ''y'') one_key))) ''a'' = Some kv \<and>
     Value kv = ''y'' \<and> Version kv = 3"
  using generic_txn_races[OF refs.redis_store_axioms, of one_key "''a''" 1 "''z''" "''y''"] one_key_facts by (auto simp: rev_limit_def)

end
