(* ===== verification/Spec2Isabelle.thy ===== *)
theory Spec2Isabelle
  imports Program ConnProps RoundTrip LossBench ClientProps
begin

text \<open>
  REtcd: an etcd v3 server that keeps its data in Redis.

  \<^bold>\<open>The program.\<close>  A Redis store (\<open>src/store\<close>) keeps every etcd key as one Redis string, an
  8-byte-field header followed by the value; a counter numbers the writes, a sorted set lists the keys,
  and a stream holds one entry per write.  Writes run as two Lua scripts, \<open>write.lua\<close> and
  \<open>txn.lua\<close>, so each is atomic in Redis.  gRPC services (\<open>src/server\<close>) sit on top: KV, Watch,
  Lease and Maintenance.  A handler whose write was committed hands the event to the watch dispatcher
  in the same process (\<open>dispatcher.go\<close>); since replies of concurrent handlers overtake each other,
  the dispatcher puts the events back into revision order and feeds the channels of the watches.  A
  watch that starts in the past first reads the stream (\<open>catchUp\<close>) up to the revision at which it
  registered and then takes over from its channel.  Leases are Redis keys with an expiry; a reaper
  deletes the keys of expired ones.

  \<^bold>\<open>Conventions.\<close>  A call is a function from a state to a result and a state, with errors as
  \<open>Inl\<close> (\<open>Prelude\<close>); Go's \<open>int64\<close> is an \<open>int\<close> with \<open>wrap64\<close> where arithmetic can leave
  the range, Lua's numbers are doubles rounded by \<open>dbl\<close>, and printed by \<open>%.14g\<close>
  (\<open>Machine\<close>).  Redis and the client library are parameters: a record of commands with the laws of
  locale \<open>redis_server\<close>, and a network that answers, loses replies or fails.  The gRPC stream is a
  parameter with the laws of \<open>grpc_stream\<close>.  \<open>ref_redis\<close> and \<open>list_send\<close> are instances that
  satisfy them, on which the witnesses run.

  \<^bold>\<open>Theories, bottom up.\<close>
  \<^item> \<open>Prelude\<close>, \<open>Machine\<close>: results and state, numbers, decimal and binary formats.
  \<^item> \<open>KeyRange\<close>: \<open>lexSuccessor\<close>, \<open>prefixLexRange\<close>, \<open>commonPrefix\<close>, \<open>matchesWatch\<close>; a
    prefix scan covers every key of a request's range.
  \<^item> \<open>RedisApi\<close>: the commands, their laws, the reference server.
  \<^item> \<open>Codec\<close>: blobs, stream entries and script replies (\<open>decodeKV\<close>, \<open>parseStreamEvent\<close>,
    \<open>makeEvent\<close>).
  \<^item> \<open>Scripts\<close>, \<open>ScriptFacts\<close>: the two Lua scripts and what each branch does to a keyspace.
  \<^item> \<open>StoreSpec\<close>, \<open>StoreState\<close>: the abstract store (\<open>mvcc\<close>: values, revision, log, lease
    attachments) with its invariant, and how a keyspace represents one (\<open>store_inv\<close>,
    \<open>abs_store\<close>).
  \<^item> \<open>RedisStore\<close>, \<open>StoreFacts\<close>, \<open>StoreApi\<close>, \<open>StoreProps\<close>: the methods of
    \<open>store/redis.go\<close>; each refines its abstract operation and emits the event it logged.  The
    locales \<open>mvcc_store\<close> and \<open>event_store\<close> are what the services rely on.
  \<^item> \<open>StoreOpen\<close>: \<open>NewRedisStoreDB\<close> and the migration of the key index.  \<open>LossyNet\<close>: what
    resending a call whose reply was lost does.  \<open>RoundTrip\<close>: reading back what was written.
  \<^item> \<open>KVServer\<close>, \<open>KVFacts\<close>, \<open>KVProps\<close>: the KV and Maintenance handlers; ranges are exact,
    the fast paths of \<open>Txn\<close> agree with the generic one.  \<open>LossBench\<close>: the durability client of
    \<open>load-test/lossbench\<close> against these handlers.
  \<^item> \<open>Leases\<close>, \<open>LeaseServer\<close>, \<open>LeaseFacts\<close>, \<open>LeaseProps\<close>: \<open>store/lease.go\<close> and
    \<open>server/lease.go\<close>; revocation and the reaper delete exactly the attached keys.
  \<^item> \<open>Dispatcher\<close>, \<open>DispFacts\<close>, \<open>DispInv\<close>, \<open>DispProps\<close>: \<open>dispatcher.go\<close>.  The record
    \<open>eventDispatcher\<close> is the struct, with the subscribers as objects and the map \<open>pending\<close> as an
    association list; a call under the mutex is one function.  Shown: order, independence of arrival
    order, bounds, what the safety valve loses, and that the checkpoint index never skips an event.
  \<^item> \<open>WatchServer\<close>, \<open>WatchFacts\<close>, \<open>CatchUp\<close>: \<open>watch.go\<close>, and its catch-up over any
    event log whose reads may fail.
  \<^item> \<open>LiveFeed\<close>, \<open>WatchRun\<close>, \<open>WatchPhases\<close>, \<open>WatchExample\<close>, \<open>WatchProps\<close>: the running
    system.  \<open>sys_step\<close> interleaves writes, replies, and other watches; \<open>feed_inv\<close> accounts for
    every event, \<open>follows\<close> for what one watch has received.  Store, dispatcher and watch together
    deliver every event exactly once and in order.
  \<^item> \<open>ListWatch\<close>, \<open>ClientProps\<close>: what a client gets from several calls while others run.  Listing a
    range and watching it from the next revision on keeps an exact copy; reading one key and watching
    it does not.  An update that names a modification revision wins at most once; the generic path of
    \<open>Txn\<close> can let two win.  \<open>during\<close> and \<open>before_put\<close> are the store with other clients' steps
    between the round trips of a call.
  \<^item> \<open>ConnProps\<close>: the connection handler, contexts and labels.
  \<^item> \<open>Startup\<close>: the wiring of \<open>main.go\<close> and the reaper's goroutine.  \<open>Program\<close>: the process around it
    (listener, HTTP endpoints, pool ticker, exit); what the reaper deletes reaches the watches.
  \<^item> \<open>Metrics\<close>: the interceptor of \<open>metrics.go\<close> under every interleaving of calls.
    \<open>Instruments\<close>: the declarations of that file; registering them does not panic on any registry with
    the laws of locale \<open>prometheus\<close>.

  \<^bold>\<open>Bounds.\<close>  Revisions stay below \<open>rev_limit\<close>, ten to the fourteenth: from there on Lua prints
  them in scientific notation.  Lease IDs are bounded likewise (\<open>lease_ok\<close>).  The running system
  admits a write while it is fewer than 4096 revisions ahead of the oldest event not yet released,
  the size of the reorder buffer; beyond it the safety valve opens, whose effect
  \<open>DispProps\<close> states.  The catch-up loop has fuel: it ends after at most 30 rounds for each revision up to the
  boundary and 30 more, because at most 29 failed reads in a row are retried and every other round
  advances by at least one event.  The schedule of \<open>tailWatch\<close> is a list of choices of its select,
  of any length.

  \<^bold>\<open>Not modelled.\<close>
  \<^item> Time: timers and back-off are choices of the environment; the expiry of leases is a step of the
    Redis parameter.
  \<^item> The observations that handlers and watches make on instruments other than those of the
    interceptor, help texts, logging and the parsing of flags: they are write-only or without effect on
    the data.
  \<^item> The inside of the gRPC server, of \<open>cmux\<close>, of the HTTP server and of the metrics page: they are
    libraries, and \<open>Program\<close> takes what they decide or return as parameters.
  \<^item> \<open>Deadline\<close> and \<open>Value\<close> of the watch context, which forward.
  \<^item> Lost replies and \<open>Txn\<close> with DELETE, which no handler issues, in the running system of
    \<open>LiveFeed\<close>; \<open>LossyNet\<close> and \<open>StoreProps\<close> treat them for each call.
  \<^item> The scripts under \<open>load-test\<close> that drive a cluster and draw figures: they are not part of
    the server.
\<close>

end
